(* ===== verification/Prelude.thy ===== *)
theory Prelude
  imports Main "HOL-Library.Word" "HOL-Library.AList" "HOL-Library.Multiset"
begin

text \<open>
  Shared vocabulary of the development: machine integers and durations, results, and Rust
  string functions on byte strings.

  Strings are byte strings: a Rust \<^verbatim>\<open>String\<close> is the list of its UTF-8 bytes, so a
  \<^typ>\<open>char\<close> is one byte and the ASCII functions of the standard library act bytewise, as
  they do in Rust.
\<close>

named_theorems mw_inv \<open>preservation facts of the component invariants\<close>

section \<open>Integers, durations and instants\<close>

type_synonym u16 = "16 word"
type_synonym u32 = "32 word"
type_synonym u64 = "64 word"
type_synonym usize = "64 word"

text \<open>Durations and instants count nanoseconds; an instant counts from the clock's origin.\<close>

type_synonym duration = nat
type_synonym instant = nat

definition from_secs :: "u64 \<Rightarrow> duration" where
  "from_secs s = unat s * 1000000000"

definition secs :: "nat \<Rightarrow> duration" where
  "secs n = n * 1000000000"

definition as_secs :: "duration \<Rightarrow> nat" where
  "as_secs d = d div 1000000000"

text \<open>
  \<^verbatim>\<open>Instant + Duration\<close> panics when the seconds leave a signed 64-bit integer; \<open>None\<close> is
  that panic. \<^verbatim>\<open>Instant::elapsed\<close> saturates at zero, as subtraction on \<^typ>\<open>nat\<close> does.
\<close>

definition instant_limit :: nat where
  "instant_limit = 9223372036854775808 * 1000000000"

definition instant_add :: "instant \<Rightarrow> duration \<Rightarrow> instant option" where
  "instant_add t d = (if t + d < instant_limit then Some (t + d) else None)"

definition elapsed :: "instant \<Rightarrow> instant \<Rightarrow> duration" where
  "elapsed now t = now - t"

definition saturating_mul64 :: "u64 \<Rightarrow> u64 \<Rightarrow> u64" where
  "saturating_mul64 a b = (if unat a * unat b < 2 ^ 64 then a * b else - 1)"

lemma unat_saturating_mul64:
  "unat (saturating_mul64 a b) = min (unat a * unat b) (2 ^ 64 - 1)"
  by (auto simp: saturating_mul64_def unat_word_ariths unsigned_minus_1_eq_mask mask_eq_exp_minus_1 min_def)

lemma instant_add_Some [simp]:
  "instant_add t d = Some u \<longleftrightarrow> t + d < instant_limit \<and> u = t + d"
  by (auto simp: instant_add_def)

lemma instant_add_None [simp]: "instant_add t d = None \<longleftrightarrow> instant_limit \<le> t + d"
  by (auto simp: instant_add_def)

section \<open>Results\<close>

type_synonym ('e, 'a) result = "'e + 'a"

text \<open>Sequencing with the \<^verbatim>\<open>?\<close> operator: the first error ends the computation.\<close>

definition and_then :: "('e, 'a) result \<Rightarrow> ('a \<Rightarrow> ('e, 'b) result) \<Rightarrow> ('e, 'b) result" where
  "and_then r f = (case r of Inl e \<Rightarrow> Inl e | Inr a \<Rightarrow> f a)"

fun first_error :: "('e, unit) result list \<Rightarrow> ('e, unit) result" where
  "first_error [] = Inr ()"
| "first_error (Inl e # rs) = Inl e"
| "first_error (Inr u # rs) = first_error rs"

definition ensure :: "bool \<Rightarrow> 'e \<Rightarrow> ('e, unit) result" where
  "ensure b e = (if b then Inr () else Inl e)"

lemma and_then_simps [simp]:
  "and_then (Inl e) f = Inl e" "and_then (Inr a) f = f a"
  by (simp_all add: and_then_def)

lemma and_then_Inr [simp]: "and_then r f = Inr b \<longleftrightarrow> (\<exists>a. r = Inr a \<and> f a = Inr b)"
  by (cases r) auto

lemma first_error_Inr [simp]: "first_error rs = Inr u \<longleftrightarrow> (\<forall>r \<in> set rs. r = Inr ())"
  by (induction rs rule: first_error.induct) auto

lemma first_error_Inl: "first_error rs = Inl e \<Longrightarrow> Inl e \<in> set rs"
  by (induction rs rule: first_error.induct) auto

lemma ensure_Inr [simp]: "ensure b e = Inr u \<longleftrightarrow> b"
  by (simp add: ensure_def)

lemma ensure_Inl [simp]: "ensure b e = Inl e' \<longleftrightarrow> \<not> b \<and> e' = e"
  by (auto simp: ensure_def)

section \<open>Byte strings\<close>

definition CR :: char where "CR = CHR 0x0D"
definition LF :: char where "LF = CHR 0x0A"

definition is_crlf :: "char \<Rightarrow> bool" where
  "is_crlf c \<longleftrightarrow> c = CR \<or> c = LF"

text \<open>\<^verbatim>\<open>value.trim_end_matches(['\r', '\n'])\<close>\<close>

definition trim_end_crlf :: "string \<Rightarrow> string" where
  "trim_end_crlf s = rev (dropWhile is_crlf (rev s))"

definition upper_char :: "char \<Rightarrow> char" where
  "upper_char c = (let n = (of_char c :: nat)
     in if 97 \<le> n \<and> n \<le> 122 then char_of (n - 32) else c)"

definition to_ascii_uppercase :: "string \<Rightarrow> string" where
  "to_ascii_uppercase s = map upper_char s"

fun strip_prefix :: "string \<Rightarrow> string \<Rightarrow> string option" where
  "strip_prefix [] s = Some s"
| "strip_prefix (p # ps) [] = None"
| "strip_prefix (p # ps) (c # cs) = (if p = c then strip_prefix ps cs else None)"

definition starts_with :: "string \<Rightarrow> string \<Rightarrow> bool" where
  "starts_with p s \<longleftrightarrow> strip_prefix p s \<noteq> None"

fun contains_sub :: "string \<Rightarrow> string \<Rightarrow> bool" where
  "contains_sub p [] \<longleftrightarrow> p = []"
| "contains_sub p (c # cs) \<longleftrightarrow> starts_with p (c # cs) \<or> contains_sub p cs"

text \<open>
  One Unicode white-space scalar at the front of a UTF-8 string, as \<^verbatim>\<open>char::is_whitespace\<close>
  has them: the ASCII ones, U+0085, U+00A0, U+1680, U+2000 to U+200A, U+2028, U+2029,
  U+202F, U+205F and U+3000.
\<close>

definition ascii_ws :: "char \<Rightarrow> bool" where
  "ascii_ws c \<longleftrightarrow> (let n = (of_char c :: nat) in (9 \<le> n \<and> n \<le> 13) \<or> n = 32)"

definition ws_pair :: "char \<Rightarrow> char \<Rightarrow> bool" where
  "ws_pair a b \<longleftrightarrow> a = CHR 0xC2 \<and> (b = CHR 0x85 \<or> b = CHR 0xA0)"

definition ws_triple :: "char \<Rightarrow> char \<Rightarrow> char \<Rightarrow> bool" where
  "ws_triple a b c \<longleftrightarrow> (let n = (of_char c :: nat) in
     (a = CHR 0xE1 \<and> b = CHR 0x9A \<and> n = 128)
     \<or> (a = CHR 0xE2 \<and> b = CHR 0x80 \<and> ((128 \<le> n \<and> n \<le> 138) \<or> n = 168 \<or> n = 169 \<or> n = 175))
     \<or> (a = CHR 0xE2 \<and> b = CHR 0x81 \<and> n = 159)
     \<or> (a = CHR 0xE3 \<and> b = CHR 0x80 \<and> n = 128))"

definition strip_ws_char :: "string \<Rightarrow> string option" where
  "strip_ws_char s = (case s of
     [] \<Rightarrow> None
   | a # s1 \<Rightarrow>
       if ascii_ws a then Some s1
       else (case s1 of
         [] \<Rightarrow> None
       | b # s2 \<Rightarrow>
           if ws_pair a b then Some s2
           else (case s2 of
             [] \<Rightarrow> None
           | c # s3 \<Rightarrow> if ws_triple a b c then Some s3 else None)))"

lemma strip_ws_char_length: "strip_ws_char s = Some t \<Longrightarrow> length t < length s"
  by (auto simp: strip_ws_char_def split: if_splits list.splits)

function trim_start :: "string \<Rightarrow> string" where
  "trim_start s = (case strip_ws_char s of None \<Rightarrow> s | Some t \<Rightarrow> trim_start t)"
  by pat_completeness auto
termination
  by (relation "measure length") (auto simp: strip_ws_char_length)

declare trim_start.simps [simp del]

text \<open>\<^verbatim>\<open>value.trim().is_empty()\<close>: nothing but white space.\<close>

definition blank :: "string \<Rightarrow> bool" where
  "blank s \<longleftrightarrow> trim_start s = []"

lemma blank_Nil [simp]: "blank []"
  by (simp add: blank_def trim_start.simps [of "[]"] strip_ws_char_def)

lemma ws_lead_byte:
  "ws_pair a b \<Longrightarrow> 128 \<le> (of_char a :: nat)" "ws_triple a b c \<Longrightarrow> 128 \<le> (of_char a :: nat)"
  by (auto simp: ws_pair_def ws_triple_def Let_def)

lemma not_blank_ascii:
  assumes "\<not> ascii_ws c" "of_char c < (128::nat)"
  shows "\<not> blank (c # s)"
proof -
  have "strip_ws_char (c # s) = None"
    using assms ws_lead_byte by (fastforce simp: strip_ws_char_def split: list.split)
  then show ?thesis by (simp add: blank_def trim_start.simps [of "c # s"])
qed

text \<open>Decimal numerals: \<^verbatim>\<open>to_string\<close>, zero padding and \<^verbatim>\<open>str::parse::<u64>\<close>.\<close>

fun show_nat :: "nat \<Rightarrow> string" where
  "show_nat n = (if n < 10 then [char_of (48 + n)]
     else show_nat (n div 10) @ [char_of (48 + n mod 10)])"

declare show_nat.simps [simp del]

definition show_int :: "int \<Rightarrow> string" where
  "show_int i = (if i < 0 then CHR ''-'' # show_nat (nat (- i)) else show_nat (nat i))"

definition pad_left :: "nat \<Rightarrow> char \<Rightarrow> string \<Rightarrow> string" where
  "pad_left w c s = replicate (w - length s) c @ s"

definition digit_val :: "char \<Rightarrow> nat option" where
  "digit_val c = (let n = (of_char c :: nat) in if 48 \<le> n \<and> n \<le> 57 then Some (n - 48) else None)"

fun parse_digits :: "nat \<Rightarrow> nat \<Rightarrow> string \<Rightarrow> nat option" where
  "parse_digits bound acc [] = Some acc"
| "parse_digits bound acc (c # cs) = (case digit_val c of
     None \<Rightarrow> None
   | Some d \<Rightarrow> (if 10 * acc + d < bound then parse_digits bound (10 * acc + d) cs else None))"

definition parse_unsigned :: "nat \<Rightarrow> string \<Rightarrow> nat option" where
  "parse_unsigned bound s = (case s of
     [] \<Rightarrow> None
   | c # cs \<Rightarrow> if c = CHR ''+'' then (if cs = [] then None else parse_digits bound 0 cs)
               else parse_digits bound 0 s)"

definition parse_u64 :: "string \<Rightarrow> u64 option" where
  "parse_u64 s = map_option of_nat (parse_unsigned (2 ^ 64) s)"

definition parse_u32 :: "string \<Rightarrow> u32 option" where
  "parse_u32 s = map_option of_nat (parse_unsigned (2 ^ 32) s)"

lemma digit_val_char: "n < 10 \<Longrightarrow> digit_val (char_of (48 + n)) = Some n"
  by (simp add: digit_val_def Let_def)

lemma parse_digits_append:
  "parse_digits b acc (xs @ ys) = Option.bind (parse_digits b acc xs) (\<lambda>a. parse_digits b a ys)"
  by (induction xs arbitrary: acc) (auto split: option.splits)

lemma parse_digits_show: "n < b \<Longrightarrow> parse_digits b 0 (show_nat n) = Some n"
proof (induction n rule: show_nat.induct)
  case (1 n)
  show ?case
  proof (cases "n < 10")
    case True
    with 1 show ?thesis by (simp add: show_nat.simps [of n] digit_val_char)
  next
    case False
    have "n div 10 < b" using 1(2) by simp
    with 1(1) False have "parse_digits b 0 (show_nat (n div 10)) = Some (n div 10)" by simp
    with False 1(2) show ?thesis
      by (simp add: show_nat.simps [of n] parse_digits_append digit_val_char)
  qed
qed

lemma show_nat_nonempty [simp]: "show_nat n \<noteq> []"
  by (subst show_nat.simps) simp

lemma show_nat_digits:
  "\<forall>c \<in> set (show_nat n). 48 \<le> (of_char c :: nat) \<and> (of_char c :: nat) \<le> 57"
proof (induction n rule: show_nat.induct)
  case (1 n)
  have d: "m < 10 \<Longrightarrow> of_char (char_of (48 + m) :: char) = (48 + m :: nat)" for m :: nat
    by simp
  show ?case
  proof (cases "n < 10")
    case True
    then show ?thesis by (simp add: show_nat.simps [of n] d)
  next
    case False
    with 1 show ?thesis by (auto simp: show_nat.simps [of n] d)
  qed
qed

lemma show_nat_inj [simp]: "show_nat m = show_nat n \<longleftrightarrow> m = n"
proof
  assume eq: "show_nat m = show_nat n"
  define b where "b = Suc (m + n)"
  have "parse_digits b 0 (show_nat m) = Some m" "parse_digits b 0 (show_nat n) = Some n"
    by (rule parse_digits_show; simp add: b_def)+
  with eq show "m = n" by (metis option.inject)
qed simp

lemma parse_unsigned_show: "n < b \<Longrightarrow> parse_unsigned b (show_nat n) = Some n"
proof -
  assume n: "n < b"
  obtain c cs where eq: "show_nat n = c # cs"
    using show_nat_nonempty [of n] by (cases "show_nat n") auto
  then have "48 \<le> (of_char c :: nat)" using show_nat_digits [of n] by simp
  then have "c \<noteq> CHR ''+''" by auto
  with n eq show ?thesis
    using parse_digits_show [OF n] by (simp add: parse_unsigned_def)
qed

lemma parse_u64_show: "parse_u64 (show_nat (unat w)) = Some w"
  using unsigned_less [of w, where ?'a = nat] by (simp add: parse_u64_def parse_unsigned_show)

lemma parse_digits_bound: "\<lbrakk>parse_digits b acc s = Some n; acc < b\<rbrakk> \<Longrightarrow> n < b"
  by (induction s arbitrary: acc) (auto split: option.splits if_splits)

lemma strip_prefix_Some [simp]: "strip_prefix p s = Some r \<longleftrightarrow> s = p @ r"
  by (induction p s rule: strip_prefix.induct) auto

lemma starts_with_iff: "starts_with p s \<longleftrightarrow> (\<exists>r. s = p @ r)"
  by (auto simp: starts_with_def)

lemma contains_sub_iff: "contains_sub p s \<longleftrightarrow> (\<exists>a b. s = a @ p @ b)"
proof (induction s)
  case Nil
  then show ?case by auto
next
  case (Cons c cs)
  have "(\<exists>a b. c # cs = a @ p @ b) \<longleftrightarrow> (\<exists>b. c # cs = p @ b) \<or> (\<exists>a b. cs = a @ p @ b)"
    by (metis append_Cons append_Nil neq_Nil_conv list.sel(3))
  with Cons show ?case by (simp add: starts_with_iff)
qed

lemma trim_end_crlf_last: "trim_end_crlf s = [] \<or> \<not> is_crlf (last (trim_end_crlf s))"
proof (cases "dropWhile is_crlf (rev s)")
  case Nil
  then show ?thesis by (simp add: trim_end_crlf_def)
next
  case (Cons c cs)
  then have "\<not> is_crlf c" by (metis dropWhile_eq_Cons_conv)
  with Cons show ?thesis by (simp add: trim_end_crlf_def)
qed

lemma trim_end_crlf_decomp:
  "\<exists>t. s = trim_end_crlf s @ t \<and> (\<forall>c \<in> set t. is_crlf c)"
proof -
  have "rev s = takeWhile is_crlf (rev s) @ dropWhile is_crlf (rev s)" by simp
  then have "s = rev (dropWhile is_crlf (rev s)) @ rev (takeWhile is_crlf (rev s))"
    by (metis rev_append rev_rev_ident)
  then show ?thesis unfolding trim_end_crlf_def
    by (intro exI [of _ "rev (takeWhile is_crlf (rev s))"]) (auto dest: set_takeWhileD)
qed

text \<open>
  UTF-8 validity, as \<^verbatim>\<open>String::from_utf8\<close> checks it (no overlong forms, no surrogates,
  nothing above U+10FFFF).
\<close>

definition cont_byte :: "char \<Rightarrow> bool" where
  "cont_byte c \<longleftrightarrow> 128 \<le> (of_char c :: nat) \<and> (of_char c :: nat) \<le> 191"

definition byte_in :: "nat \<Rightarrow> nat \<Rightarrow> char \<Rightarrow> bool" where
  "byte_in lo hi c \<longleftrightarrow> lo \<le> (of_char c :: nat) \<and> (of_char c :: nat) \<le> hi"

function utf8_valid :: "string \<Rightarrow> bool" where
  "utf8_valid s = (case s of
     [] \<Rightarrow> True
   | a # s1 \<Rightarrow>
       if byte_in 0 127 a then utf8_valid s1
       else if byte_in 194 223 a then
         (case s1 of b # s2 \<Rightarrow> cont_byte b \<and> utf8_valid s2 | [] \<Rightarrow> False)
       else if byte_in 224 239 a then
         (case s1 of b # c # s3 \<Rightarrow>
            (if a = CHR 0xE0 then byte_in 160 191 b
             else if a = CHR 0xED then byte_in 128 159 b else cont_byte b)
            \<and> cont_byte c \<and> utf8_valid s3
          | _ \<Rightarrow> False)
       else if byte_in 240 244 a then
         (case s1 of b # c # d # s4 \<Rightarrow>
            (if a = CHR 0xF0 then byte_in 144 191 b
             else if a = CHR 0xF4 then byte_in 128 143 b else cont_byte b)
            \<and> cont_byte c \<and> cont_byte d \<and> utf8_valid s4
          | _ \<Rightarrow> False)
       else False)"
  by pat_completeness auto
termination
  by (relation "measure length") auto

declare utf8_valid.simps [simp del]

end
