(* ===== verification/Step_Machine.thy ===== *)
theory Step_Machine
  imports Prelude
begin

text \<open>
  Every task of the daemon is an asynchronous loop that suspends at \<^verbatim>\<open>.await\<close> points. A task
  is modelled as a step machine: a state with its current suspension point, and a step
  function that takes what the suspended operation observed (which branch of a
  \<^verbatim>\<open>tokio::select!\<close> completed, with its value) and runs the code to the next suspension
  point, returning the new state and the visible effects in program order. \<open>None\<close> is an
  observation that cannot occur at that point. Which observations occur, and in which
  order, is left to the environment, so a statement over all runs covers every scheduling.
\<close>

type_synonym ('s, 'i, 'o) machine = "'s \<Rightarrow> 'i \<Rightarrow> ('s \<times> 'o list) option"

text \<open>What \<^verbatim>\<open>shutdown.changed().await\<close> returns, with the value borrowed right after it.\<close>

datatype watch_change = Changed bool | SenderGone

text \<open>\<^verbatim>\<open>changed.is_ok() && *shutdown.borrow()\<close>\<close>

fun asks_stop :: "watch_change \<Rightarrow> bool" where
  "asks_stop (Changed v) = v"
| "asks_stop SenderGone = False"

text \<open>The result of \<^verbatim>\<open>try_send\<close> on a bounded tokio channel.\<close>

datatype send_result = SendOk | SendFull | SendClosed

section \<open>Runs and reachable states\<close>

text \<open>The last effects of a run.\<close>

definition ends_with :: "'a list \<Rightarrow> 'a list \<Rightarrow> bool" where
  "ends_with xs ys \<longleftrightarrow> (\<exists>zs. xs = zs @ ys)"

lemma ends_with_append [simp]: "ends_with (h @ ys) ys" "ends_with (h @ xs @ ys) ys"
  by (auto simp: ends_with_def)


fun run_machine :: "('s, 'i, 'o) machine \<Rightarrow> 's \<Rightarrow> 'i list \<Rightarrow> ('s \<times> 'o list) option" where
  "run_machine step s [] = Some (s, [])"
| "run_machine step s (i # ins) =
     (case step s i of
        None \<Rightarrow> None
      | Some (s', os) \<Rightarrow>
          (case run_machine step s' ins of
             None \<Rightarrow> None
           | Some (s'', os') \<Rightarrow> Some (s'', os @ os')))"

inductive reaches :: "('s, 'i, 'o) machine \<Rightarrow> 's \<Rightarrow> 's \<Rightarrow> 'o list \<Rightarrow> bool"
  for step :: "('s, 'i, 'o) machine" and s0 :: 's where
  reaches_start: "reaches step s0 s0 []"
| reaches_step: "\<lbrakk>reaches step s0 s h; step s i = Some (s', os)\<rbrakk> \<Longrightarrow> reaches step s0 s' (h @ os)"

lemma reaches_run:
  "\<lbrakk>reaches step s0 s h; run_machine step s ins = Some (s', os)\<rbrakk> \<Longrightarrow> reaches step s0 s' (h @ os)"
proof (induction ins arbitrary: s h os)
  case Nil
  then show ?case by simp
next
  case (Cons i ins)
  from Cons.prems(2) obtain s1 o1 o2 where
    "step s i = Some (s1, o1)" "run_machine step s1 ins = Some (s', o2)" "os = o1 @ o2"
    by (auto split: option.splits)
  with Cons.IH [of s1 "h @ o1" o2] reaches.reaches_step [OF Cons.prems(1)]
  show ?case by simp
qed

lemma run_reaches: "run_machine step s0 ins = Some (s, os) \<Longrightarrow> reaches step s0 s os"
  using reaches_run [OF reaches.reaches_start] by fastforce

lemma run_append:
  "run_machine step s (ins @ js) =
     (case run_machine step s ins of
        None \<Rightarrow> None
      | Some (s', os) \<Rightarrow> map_option (apsnd (append os)) (run_machine step s' js))"
  by (induction ins arbitrary: s)
     (auto split: option.split simp: option.map_comp o_def apsnd_def map_prod_def option.map_id0)

lemma reaches_is_run: "reaches step s0 s h \<Longrightarrow> \<exists>ins. run_machine step s0 ins = Some (s, h)"
proof (induction rule: reaches.induct)
  case reaches_start
  show ?case by (rule exI [of _ "[]"]) simp
next
  case (reaches_step s h i s' os)
  then obtain ins where "run_machine step s0 ins = Some (s, h)" by auto
  with reaches_step(2) have "run_machine step s0 (ins @ [i]) = Some (s', h @ os)"
    by (simp add: run_append)
  then show ?case ..
qed

lemma run_snoc:
  "run_machine step s0 (ins @ [i]) = Some (s, h) \<longleftrightarrow>
     (\<exists>s1 h1 os. run_machine step s0 ins = Some (s1, h1) \<and> step s1 i = Some (s, os) \<and> h = h1 @ os)"
  by (auto simp: run_append split: option.splits)

text \<open>Every effect of a run is an effect of one of its steps.\<close>

lemma run_effect:
  "run_machine step s0 ins = Some (s, h) \<Longrightarrow> x \<in> set h \<Longrightarrow> \<exists>s1 i s2 os. step s1 i = Some (s2, os) \<and> x \<in> set os"
proof (induction ins arbitrary: s h rule: rev_induct)
  case (snoc i ins)
  then show ?case unfolding run_snoc by fastforce
qed simp

section \<open>Clocks\<close>

text \<open>
  The observations of a run between two instants: \<open>at\<close> is the time an observation is made, if
  it reads the clock at all, and the clock never goes back.
\<close>

fun paced :: "('i \<Rightarrow> instant option) \<Rightarrow> instant \<Rightarrow> 'i list \<Rightarrow> instant \<Rightarrow> bool" where
  "paced at t [] u \<longleftrightarrow> t \<le> u"
| "paced at t (i # ins) u \<longleftrightarrow> (case at i of None \<Rightarrow> paced at t ins u | Some v \<Rightarrow> t \<le> v \<and> paced at v ins u)"

lemma paced_le: "paced at t ins u \<Longrightarrow> t \<le> u"
  by (induction at t ins u rule: paced.induct) (auto split: option.splits)

lemma paced_mono: "paced at t ins u \<Longrightarrow> t' \<le> t \<Longrightarrow> u \<le> u' \<Longrightarrow> paced at t' ins u'"
  by (induction ins arbitrary: t t') (auto split: option.splits)

lemma paced_append: "paced at t (xs @ ys) v \<longleftrightarrow> (\<exists>u. paced at t xs u \<and> paced at u ys v)"
proof (induction xs arbitrary: t)
  case Nil
  then show ?case using paced_mono [of at _ ys v t v] by auto
qed (auto split: option.splits)

lemma paced_join: "paced at t xs u \<Longrightarrow> paced at u ys v \<Longrightarrow> paced at t (xs @ ys) v"
  by (auto simp: paced_append)

lemma paced_map: "paced at t (map f ins) u \<longleftrightarrow> paced (at \<circ> f) t ins u"
  by (induction ins arbitrary: t) (auto split: option.splits)

text \<open>An invariant of the state at a time, kept by every step of a paced run.\<close>

lemma paced_run:
  assumes "run_machine step s0 ins = Some (s, h)" "paced at t0 ins t" "P t0 s0"
    and grow: "\<And>t s u. P t s \<Longrightarrow> t \<le> u \<Longrightarrow> P u s"
    and keep: "\<And>t s i s' os. P t s \<Longrightarrow> step s i = Some (s', os) \<Longrightarrow> (\<And>v. at i = Some v \<Longrightarrow> t = v) \<Longrightarrow> P t s'"
  shows "P t s"
  using assms(1-3)
proof (induction ins arbitrary: s0 t0 h)
  case Nil
  then show ?case using grow by simp
next
  case (Cons i ins)
  obtain s1 o1 o2 where r: "step s0 i = Some (s1, o1)" "run_machine step s1 ins = Some (s, o2)"
    using Cons.prems(1) by (auto split: option.splits)
  obtain u where u: "t0 \<le> u" "paced at u ins t" "\<And>v. at i = Some v \<Longrightarrow> u = v"
    using Cons.prems(2) by (auto split: option.splits)
  have "P u s1" using keep [OF grow [OF Cons.prems(3) u(1)] r(1) u(3)] .
  from Cons.IH [OF r(2) u(2) this] show ?case .
qed

text \<open>A machine restricted to the observations that satisfy a predicate.\<close>

definition guarded :: "('i \<Rightarrow> bool) \<Rightarrow> ('s, 'i, 'o) machine \<Rightarrow> ('s, 'i, 'o) machine" where
  "guarded P step s i = (if P i then step s i else None)"

lemma guarded_Some [simp]: "guarded P step s i = Some r \<longleftrightarrow> P i \<and> step s i = Some r"
  by (auto simp: guarded_def)

lemma guarded_run:
  "\<forall>i \<in> set ins. P i \<Longrightarrow> run_machine (guarded P step) s ins = run_machine step s ins"
  by (induction ins arbitrary: s) (auto simp: guarded_def split: option.split)

section \<open>Invariants over state and history\<close>

text \<open>
  The contract a component proves once about its step function: an invariant that relates
  the state to every effect so far. In return it holds for every run.
\<close>

locale step_machine =
  fixes step :: "'s \<Rightarrow> 'i \<Rightarrow> ('s \<times> 'o list) option"
    and start :: 's
    and inv :: "'s \<Rightarrow> 'o list \<Rightarrow> bool"
  assumes inv_start: "inv start []"
    and inv_step: "\<lbrakk>inv s h; step s i = Some (s', os)\<rbrakk> \<Longrightarrow> inv s' (h @ os)"
begin

lemma reaches_inv: "reaches step start s h \<Longrightarrow> inv s h"
proof (induction rule: reaches.induct)
  case reaches_start
  show ?case by (rule inv_start)
next
  case (reaches_step s h i s' os)
  then show ?case by (blast intro: inv_step)
qed

lemma run_inv: "run_machine step start ins = Some (s, h) \<Longrightarrow> inv s h"
  by (rule reaches_inv) (rule run_reaches)

end

text \<open>Machines with final states: once final, nothing happens any more.\<close>

locale halting_machine = step_machine step start inv
  for step :: "'s \<Rightarrow> 'i \<Rightarrow> ('s \<times> 'o list) option" and start :: 's
    and inv :: "'s \<Rightarrow> 'o list \<Rightarrow> bool" +
  fixes final :: "'s \<Rightarrow> bool"
  assumes final_stuck: "final s \<Longrightarrow> step s i = None"
begin

lemma run_final: "\<lbrakk>final s; run_machine step s ins = Some (s', os)\<rbrakk> \<Longrightarrow> s' = s \<and> os = [] \<and> ins = []"
  by (cases ins) (auto simp: final_stuck)

end

end
