(* ===== verification/Runtime_State.thy ===== *)
theory Runtime_State
  imports Step_Machine
begin

text \<open>
  The shared runtime state (\<^verbatim>\<open>src/src/state.rs\<close>): what watchers and command lanes report,
  the status line, the status revision the notifier subscribes to, and the health check
  that gates the watchdog. Each \<^verbatim>\<open>HashMap\<close> is an association list with distinct keys whose
  order stands for the map's (arbitrary) iteration order. A method that reads the clock
  takes the reading as the argument \<open>now\<close>; the mutex makes each method one atomic step.
\<close>

section \<open>The command outcome\<close>

text \<open>\<^verbatim>\<open>CommandOutcome\<close> of \<^verbatim>\<open>src/src/command.rs\<close>, which the state, the lanes and the sources share.\<close>

record command_outcome =
  success :: bool
  code :: "int option"
  signal :: "int option"
  timed_out :: bool
  cancelled :: bool
  timeout :: "duration option"
  output_limit_exceeded :: bool
  output_limit :: "nat option"

definition outcome_timed_out :: "duration \<Rightarrow> command_outcome" where
  "outcome_timed_out t = \<lparr>success = False, code = None, signal = None, timed_out = True,
     cancelled = False, timeout = Some t, output_limit_exceeded = False, output_limit = None\<rparr>"

definition outcome_cancelled :: command_outcome where
  "outcome_cancelled = \<lparr>success = False, code = None, signal = None, timed_out = False,
     cancelled = True, timeout = None, output_limit_exceeded = False, output_limit = None\<rparr>"

definition outcome_limit_exceeded :: "nat \<Rightarrow> command_outcome" where
  "outcome_limit_exceeded l = \<lparr>success = False, code = None, signal = None, timed_out = False,
     cancelled = False, timeout = None, output_limit_exceeded = True, output_limit = Some l\<rparr>"

definition outcome_description :: "command_outcome \<Rightarrow> string" where
  "outcome_description oc =
     (if timed_out oc then ''timed out after '' @
        show_nat (as_secs (case timeout oc of Some t \<Rightarrow> t | None \<Rightarrow> 0)) @ '' seconds''
      else if cancelled oc then ''cancelled by shutdown''
      else if output_limit_exceeded oc then ''output exceeded '' @
        show_nat (case output_limit oc of Some l \<Rightarrow> l | None \<Rightarrow> 0) @ '' byte limit''
      else (case code oc of
          Some n \<Rightarrow> ''exit status '' @ show_int n
        | None \<Rightarrow> (case signal oc of
              Some n \<Rightarrow> ''signal '' @ show_int n
            | None \<Rightarrow> ''unknown status'')))"

section \<open>Phases and the state record\<close>

datatype watcher_phase =
  WStarting | WConnecting | WIdling | WReconnecting | WStopped | WCrashed

fun show_watcher_phase :: "watcher_phase \<Rightarrow> string" where
  "show_watcher_phase WStarting = ''starting''"
| "show_watcher_phase WConnecting = ''connecting''"
| "show_watcher_phase WIdling = ''idling''"
| "show_watcher_phase WReconnecting = ''reconnecting''"
| "show_watcher_phase WStopped = ''stopped''"
| "show_watcher_phase WCrashed = ''crashed''"

datatype runner_phase =
  RStarting | RIdle | RDebouncing | RCoolingDown | RRunning | RStopped | RCrashed

fun show_runner_phase :: "runner_phase \<Rightarrow> string" where
  "show_runner_phase RStarting = ''starting''"
| "show_runner_phase RIdle = ''idle''"
| "show_runner_phase RDebouncing = ''debouncing''"
| "show_runner_phase RCoolingDown = ''cooling_down''"
| "show_runner_phase RRunning = ''running''"
| "show_runner_phase RStopped = ''stopped''"
| "show_runner_phase RCrashed = ''crashed''"

record watcher_status =
  w_phase :: watcher_phase
  w_last_progress :: instant

record runner_status =
  r_phase :: runner_phase
  r_last_progress :: instant
  r_command_started :: "instant option"

record runtime_state =
  total_accounts :: nat
  total_sources :: nat
  total_command_lanes :: nat
  watcher_stale :: duration
  command_timeout :: duration
  status_revision :: u64
  watchers :: "(string \<times> watcher_status) list"
  command_runners :: "(string \<times> runner_status) list"
  last_event_seen :: bool
  last_command_success :: "bool option"

definition new_runtime_state ::
  "nat \<Rightarrow> nat \<Rightarrow> nat \<Rightarrow> duration \<Rightarrow> duration \<Rightarrow> runtime_state" where
  "new_runtime_state accounts sources lanes stale timeout_limit =
     \<lparr>total_accounts = accounts, total_sources = sources, total_command_lanes = lanes,
      watcher_stale = stale, command_timeout = timeout_limit, status_revision = 0,
      watchers = [], command_runners = [], last_event_seen = False,
      last_command_success = None\<rparr>"

section \<open>Operations\<close>

definition notify_status_changed :: "runtime_state \<Rightarrow> runtime_state" where
  "notify_status_changed st = st\<lparr>status_revision := status_revision st + 1\<rparr>"

definition register_watcher :: "string \<Rightarrow> instant \<Rightarrow> runtime_state \<Rightarrow> runtime_state" where
  "register_watcher i now st = st\<lparr>watchers :=
     AList.update i \<lparr>w_phase = WStarting, w_last_progress = now\<rparr> (watchers st)\<rparr>"

definition register_command_runner :: "string \<Rightarrow> instant \<Rightarrow> runtime_state \<Rightarrow> runtime_state" where
  "register_command_runner i now st = st\<lparr>command_runners :=
     AList.update i \<lparr>r_phase = RStarting, r_last_progress = now, r_command_started = None\<rparr>
       (command_runners st)\<rparr>"

text \<open>\<^verbatim>\<open>entry(id).or_insert_with(...)\<close>\<close>

definition watcher_entry :: "string \<Rightarrow> instant \<Rightarrow> runtime_state \<Rightarrow> watcher_status" where
  "watcher_entry i now st = (case map_of (watchers st) i of
     Some e \<Rightarrow> e | None \<Rightarrow> \<lparr>w_phase = WStarting, w_last_progress = now\<rparr>)"

definition runner_entry :: "string \<Rightarrow> instant \<Rightarrow> runtime_state \<Rightarrow> runner_status" where
  "runner_entry i now st = (case map_of (command_runners st) i of
     Some e \<Rightarrow> e
   | None \<Rightarrow> \<lparr>r_phase = RStarting, r_last_progress = now, r_command_started = None\<rparr>)"

definition mark_watcher :: "string \<Rightarrow> watcher_phase \<Rightarrow> instant \<Rightarrow> runtime_state \<Rightarrow> runtime_state" where
  "mark_watcher i ph now st = st\<lparr>watchers := AList.update i
     ((watcher_entry i now st)\<lparr>w_phase := ph, w_last_progress := now\<rparr>) (watchers st)\<rparr>"

definition mark_watcher_progress :: "string \<Rightarrow> instant \<Rightarrow> runtime_state \<Rightarrow> runtime_state" where
  "mark_watcher_progress i now st = (case map_of (watchers st) i of
     None \<Rightarrow> st
   | Some e \<Rightarrow>
       if w_phase e = WCrashed \<or> w_phase e = WStopped then st
       else st\<lparr>watchers := AList.update i (e\<lparr>w_last_progress := now\<rparr>) (watchers st)\<rparr>)"

definition watcher_heartbeat_interval :: "runtime_state \<Rightarrow> duration" where
  "watcher_heartbeat_interval st =
     (let half_stale = watcher_stale st div 2;
          interval = (if half_stale = 0 then 1000000 else half_stale)
      in min interval (secs 60))"

definition mark_command_runner :: "string \<Rightarrow> runner_phase \<Rightarrow> instant \<Rightarrow> runtime_state \<Rightarrow> runtime_state" where
  "mark_command_runner i ph now st =
     (let entry = runner_entry i now st;
          running_changed = ((r_phase entry = RRunning) \<noteq> (ph = RRunning));
          entry1 = entry\<lparr>r_phase := ph, r_last_progress := now\<rparr>;
          entry2 = (if ph \<noteq> RRunning then entry1\<lparr>r_command_started := None\<rparr> else entry1);
          st' = st\<lparr>command_runners := AList.update i entry2 (command_runners st)\<rparr>
      in if running_changed then notify_status_changed st' else st')"

definition mark_command_started :: "string \<Rightarrow> instant \<Rightarrow> runtime_state \<Rightarrow> runtime_state" where
  "mark_command_started i now st = notify_status_changed (st\<lparr>command_runners := AList.update i
     ((runner_entry i now st)\<lparr>r_phase := RRunning, r_last_progress := now,
        r_command_started := Some now\<rparr>) (command_runners st)\<rparr>)"

definition mark_command_finished ::
  "string \<Rightarrow> command_outcome \<Rightarrow> instant \<Rightarrow> runtime_state \<Rightarrow> runtime_state" where
  "mark_command_finished i outcome now st = notify_status_changed (st\<lparr>command_runners := AList.update i
     ((runner_entry i now st)\<lparr>r_phase := RIdle, r_last_progress := now,
        r_command_started := None\<rparr>) (command_runners st),
     last_command_success := Some (success outcome)\<rparr>)"

definition mark_event :: "runtime_state \<Rightarrow> runtime_state" where
  "mark_event st =
     (let changed = (\<not> last_event_seen st); st' = st\<lparr>last_event_seen := True\<rparr>
      in if changed then notify_status_changed st' else st')"

definition mark_command_outcome :: "command_outcome \<Rightarrow> runtime_state \<Rightarrow> runtime_state" where
  "mark_command_outcome outcome st =
     (let changed = (last_command_success st \<noteq> Some (success outcome));
          st' = st\<lparr>last_command_success := Some (success outcome)\<rparr>
      in if changed then notify_status_changed st' else st')"

definition mark_command_error :: "runtime_state \<Rightarrow> runtime_state" where
  "mark_command_error st =
     (let changed = (last_command_success st \<noteq> Some False);
          st' = st\<lparr>last_command_success := Some False\<rparr>
      in if changed then notify_status_changed st' else st')"

definition running_command_count :: "runtime_state \<Rightarrow> nat" where
  "running_command_count st =
     length (filter (\<lambda>(i, r). r_phase r = RRunning) (command_runners st))"

definition status_message :: "runtime_state \<Rightarrow> string" where
  "status_message st =
     (let event_text = (if last_event_seen st then ''last event received'' else ''no events yet'');
          command_text = (case last_command_success st of
              Some True \<Rightarrow> ''last command ok''
            | Some False \<Rightarrow> ''last command failed''
            | None \<Rightarrow> ''no command runs yet'')
      in ''watching '' @ show_nat (total_accounts st) @ '' account(s), '' @
         show_nat (total_sources st) @ '' source(s); running commands: '' @
         show_nat (running_command_count st) @ ''; '' @ event_text @ ''; '' @ command_text)"

section \<open>Health\<close>

text \<open>The reasons \<^verbatim>\<open>health_problem\<close> formats; the numbers are the ones it prints.\<close>

datatype health_problem =
  WatcherCount nat nat
| WatcherDown string watcher_phase
| WatcherStale string nat nat
| RunnerCount nat nat
| RunnerDown string runner_phase
| RunnerOverdue string nat nat

fun find_map :: "('a \<Rightarrow> 'b option) \<Rightarrow> 'a list \<Rightarrow> 'b option" where
  "find_map f [] = None"
| "find_map f (x # xs) = (case f x of Some y \<Rightarrow> Some y | None \<Rightarrow> find_map f xs)"

definition watcher_problem ::
  "duration \<Rightarrow> instant \<Rightarrow> string \<times> watcher_status \<Rightarrow> health_problem option" where
  "watcher_problem stale now = (\<lambda>(i, w).
     if w_phase w = WCrashed \<or> w_phase w = WStopped then Some (WatcherDown i (w_phase w))
     else let el = elapsed now (w_last_progress w) in
       if stale < el then Some (WatcherStale i (as_secs el) (as_secs stale)) else None)"

definition watchers_health_problem :: "instant \<Rightarrow> runtime_state \<Rightarrow> health_problem option" where
  "watchers_health_problem now st =
     (if length (watchers st) \<noteq> total_sources st
      then Some (WatcherCount (length (watchers st)) (total_sources st))
      else find_map (watcher_problem (watcher_stale st) now) (watchers st))"

definition runner_problem ::
  "duration \<Rightarrow> instant \<Rightarrow> string \<times> runner_status \<Rightarrow> health_problem option" where
  "runner_problem limit now = (\<lambda>(i, r).
     if r_phase r = RCrashed \<or> r_phase r = RStopped then Some (RunnerDown i (r_phase r))
     else (case r_command_started r of
        Some started \<Rightarrow> if limit < elapsed now started
          then Some (RunnerOverdue i (as_secs (elapsed now started)) (as_secs limit)) else None
      | None \<Rightarrow> None))"

definition command_runners_health_problem :: "instant \<Rightarrow> runtime_state \<Rightarrow> health_problem option" where
  "command_runners_health_problem now st =
     (if length (command_runners st) \<noteq> total_command_lanes st
      then Some (RunnerCount (length (command_runners st)) (total_command_lanes st))
      else find_map (runner_problem (command_timeout st) now) (command_runners st))"

definition health_problem :: "instant \<Rightarrow> runtime_state \<Rightarrow> health_problem option" where
  "health_problem now st = (case watchers_health_problem now st of
     Some p \<Rightarrow> Some p
   | None \<Rightarrow> command_runners_health_problem now st)"

definition is_healthy :: "instant \<Rightarrow> runtime_state \<Rightarrow> bool" where
  "is_healthy now st \<longleftrightarrow> health_problem now st = None"


section \<open>The operations as effects\<close>

text \<open>
  Every task shares the state through its mutex, so an execution of the daemon applies the
  calls below in some interleaving. Tasks emit them as effects; \<open>apply_op\<close> gives each its
  meaning.
\<close>

datatype rt_op =
  OpRegisterWatcher string
| OpRegisterRunner string
| OpMarkWatcher string watcher_phase
| OpWatcherProgress string
| OpMarkRunner string runner_phase
| OpCommandStarted string
| OpCommandFinished string command_outcome
| OpEvent
| OpCommandOutcome command_outcome
| OpCommandError

fun apply_op :: "rt_op \<Rightarrow> instant \<Rightarrow> runtime_state \<Rightarrow> runtime_state" where
  "apply_op (OpRegisterWatcher i) now st = register_watcher i now st"
| "apply_op (OpRegisterRunner i) now st = register_command_runner i now st"
| "apply_op (OpMarkWatcher i ph) now st = mark_watcher i ph now st"
| "apply_op (OpWatcherProgress i) now st = mark_watcher_progress i now st"
| "apply_op (OpMarkRunner i ph) now st = mark_command_runner i ph now st"
| "apply_op (OpCommandStarted i) now st = mark_command_started i now st"
| "apply_op (OpCommandFinished i oc) now st = mark_command_finished i oc now st"
| "apply_op OpEvent now st = mark_event st"
| "apply_op (OpCommandOutcome oc) now st = mark_command_outcome oc st"
| "apply_op OpCommandError now st = mark_command_error st"

fun apply_ops :: "(rt_op \<times> instant) list \<Rightarrow> runtime_state \<Rightarrow> runtime_state" where
  "apply_ops [] st = st"
| "apply_ops ((op, now) # ops) st = apply_ops ops (apply_op op now st)"

lemmas rt_op_defs =
  register_watcher_def register_command_runner_def mark_watcher_def mark_watcher_progress_def
  mark_command_runner_def mark_command_started_def mark_command_finished_def mark_event_def
  mark_command_outcome_def mark_command_error_def notify_status_changed_def Let_def

section \<open>Well-formedness\<close>

definition rt_wf :: "runtime_state \<Rightarrow> bool" where
  "rt_wf st \<longleftrightarrow> distinct (map fst (watchers st)) \<and> distinct (map fst (command_runners st))"

text \<open>The ids an operation is about.\<close>

fun op_watcher :: "rt_op \<Rightarrow> string set" where
  "op_watcher (OpRegisterWatcher i) = {i}"
| "op_watcher (OpMarkWatcher i ph) = {i}"
| "op_watcher _ = {}"

fun op_runner :: "rt_op \<Rightarrow> string set" where
  "op_runner (OpRegisterRunner i) = {i}"
| "op_runner (OpMarkRunner i ph) = {i}"
| "op_runner (OpCommandStarted i) = {i}"
| "op_runner (OpCommandFinished i oc) = {i}"
| "op_runner _ = {}"

lemma new_runtime_state_wf [mw_inv]: "rt_wf (new_runtime_state a s l w c)"
  by (simp add: rt_wf_def new_runtime_state_def)

lemma apply_op_wf [mw_inv]: "rt_wf st \<Longrightarrow> rt_wf (apply_op op now st)"
  by (cases op) (auto simp: rt_wf_def rt_op_defs distinct_update split: option.split)

lemma apply_ops_wf [mw_inv]: "rt_wf st \<Longrightarrow> rt_wf (apply_ops ops st)"
  by (induction ops st rule: apply_ops.induct) (simp_all add: mw_inv)

lemma apply_op_watcher_ids:
  "fst ` set (watchers (apply_op op now st)) = fst ` set (watchers st) \<union> op_watcher op"
  by (cases op)
     (auto simp: rt_op_defs update_conv' dom_map_of_conv_image_fst [symmetric]
       split: option.split)

lemma apply_op_runner_ids:
  "fst ` set (command_runners (apply_op op now st)) = fst ` set (command_runners st) \<union> op_runner op"
  by (cases op)
     (auto simp: rt_op_defs update_conv' dom_map_of_conv_image_fst [symmetric]
       split: option.split)

lemma apply_op_config [simp]:
  "total_accounts (apply_op op now st) = total_accounts st"
  "total_sources (apply_op op now st) = total_sources st"
  "total_command_lanes (apply_op op now st) = total_command_lanes st"
  "watcher_stale (apply_op op now st) = watcher_stale st"
  "command_timeout (apply_op op now st) = command_timeout st"
  by (cases op; simp add: rt_op_defs split: option.split)+

lemma apply_ops_config [simp]:
  "total_sources (apply_ops ops st) = total_sources st"
  "watcher_stale (apply_ops ops st) = watcher_stale st"
  by (induction ops st rule: apply_ops.induct) simp_all

section \<open>Status revision\<close>

lemma count_update:
  "length (filter (\<lambda>(i, r). P r) (AList.update i r al))
     + (case map_of al i of Some r0 \<Rightarrow> of_bool (P r0) | None \<Rightarrow> 0)
   = length (filter (\<lambda>(i, r). P r) al) + of_bool (P r)"
  by (induction al) (auto split: option.splits)

lemma running_count_update:
  "running_command_count (st\<lparr>command_runners := AList.update i r (command_runners st)\<rparr>)
     + of_bool (\<exists>e. map_of (command_runners st) i = Some e \<and> r_phase e = RRunning)
   = running_command_count st + of_bool (r_phase r = RRunning)"
  using count_update [of "\<lambda>r. r_phase r = RRunning" i r "command_runners st"]
  by (auto simp: running_command_count_def split: option.splits)

lemma running_entry_iff:
  "r_phase (runner_entry i now st) = RRunning
     \<longleftrightarrow> (\<exists>e. map_of (command_runners st) i = Some e \<and> r_phase e = RRunning)"
  by (auto simp: runner_entry_def split: option.split)

lemma status_message_cong:
  "\<lbrakk>total_accounts st' = total_accounts st; total_sources st' = total_sources st;
    running_command_count st' = running_command_count st;
    last_event_seen st' = last_event_seen st;
    last_command_success st' = last_command_success st\<rbrakk>
   \<Longrightarrow> status_message st' = status_message st"
  by (simp add: status_message_def)

lemma mark_command_runner_quiet:
  assumes "(r_phase (runner_entry i now st) = RRunning) = (ph = RRunning)"
  shows "status_message (mark_command_runner i ph now st) = status_message st"
proof (rule status_message_cong)
  let ?e = "runner_entry i now st"
  let ?r = "if ph \<noteq> RRunning
    then ?e\<lparr>r_phase := ph, r_last_progress := now, r_command_started := None\<rparr>
    else ?e\<lparr>r_phase := ph, r_last_progress := now\<rparr>"
  have eq: "mark_command_runner i ph now st
      = st\<lparr>command_runners := AList.update i ?r (command_runners st)\<rparr>"
    using assms by (simp add: mark_command_runner_def Let_def)
  show "running_command_count (mark_command_runner i ph now st) = running_command_count st"
    using running_count_update [where st = st and i = i and r = ?r] assms
    by (auto simp: eq running_entry_iff of_bool_def split: if_splits)
qed (use assms in \<open>simp_all add: mark_command_runner_def Let_def\<close>)

section \<open>Health\<close>

lemma find_map_None [simp]: "find_map f xs = None \<longleftrightarrow> (\<forall>x \<in> set xs. f x = None)"
  by (induction xs) (auto split: option.splits)

lemma find_map_Some: "find_map f xs = Some y \<Longrightarrow> \<exists>x \<in> set xs. f x = Some y"
  by (induction xs) (auto split: option.splits)

definition watcher_ok :: "duration \<Rightarrow> instant \<Rightarrow> watcher_status \<Rightarrow> bool" where
  "watcher_ok stale now w \<longleftrightarrow>
     w_phase w \<noteq> WCrashed \<and> w_phase w \<noteq> WStopped \<and> now - w_last_progress w \<le> stale"

definition runner_ok :: "duration \<Rightarrow> instant \<Rightarrow> runner_status \<Rightarrow> bool" where
  "runner_ok limit now r \<longleftrightarrow>
     r_phase r \<noteq> RCrashed \<and> r_phase r \<noteq> RStopped \<and>
     (\<forall>s. r_command_started r = Some s \<longrightarrow> now - s \<le> limit)"

lemma watcher_problem_None [simp]:
  "watcher_problem stale now p = None \<longleftrightarrow> watcher_ok stale now (snd p)"
  by (cases p) (auto simp: watcher_problem_def watcher_ok_def elapsed_def Let_def)

lemma runner_problem_None [simp]:
  "runner_problem limit now p = None \<longleftrightarrow> runner_ok limit now (snd p)"
  by (cases p) (auto simp: runner_problem_def runner_ok_def elapsed_def Let_def split: option.split)

lemma is_healthy_iff:
  "is_healthy now st \<longleftrightarrow>
     length (watchers st) = total_sources st \<and>
     length (command_runners st) = total_command_lanes st \<and>
     (\<forall>p \<in> set (watchers st). watcher_ok (watcher_stale st) now (snd p)) \<and>
     (\<forall>p \<in> set (command_runners st). runner_ok (command_timeout st) now (snd p))"
proof -
  have "watchers_health_problem now st = None \<longleftrightarrow>
      length (watchers st) = total_sources st \<and>
      (\<forall>p \<in> set (watchers st). watcher_ok (watcher_stale st) now (snd p))"
    by (simp add: watchers_health_problem_def)
  moreover have "command_runners_health_problem now st = None \<longleftrightarrow>
      length (command_runners st) = total_command_lanes st \<and>
      (\<forall>p \<in> set (command_runners st). runner_ok (command_timeout st) now (snd p))"
    by (simp add: command_runners_health_problem_def)
  ultimately show ?thesis
    by (auto simp: is_healthy_def health_problem_def split: option.split)
qed

lemma apply_op_keeps_down:
  assumes "map_of (watchers st) i = Some w" "w_phase w \<in> {WCrashed, WStopped}"
    "i \<notin> op_watcher op"
  shows "\<exists>w'. map_of (watchers (apply_op op now st)) i = Some w' \<and> w_phase w' = w_phase w"
  using assms by (cases op) (auto simp: rt_op_defs update_conv' split: option.split)

lemma apply_ops_keeps_down:
  "\<lbrakk>map_of (watchers st) i = Some w; w_phase w \<in> {WCrashed, WStopped};
    \<forall>(op, t) \<in> set ops. i \<notin> op_watcher op\<rbrakk>
   \<Longrightarrow> \<exists>w'. map_of (watchers (apply_ops ops st)) i = Some w' \<and> w_phase w' = w_phase w"
proof (induction ops st arbitrary: w rule: apply_ops.induct)
  case (1 st)
  then show ?case by simp
next
  case (2 op now ops st)
  from apply_op_keeps_down [OF 2(2,3), of op now] 2(4) obtain w' where
    "map_of (watchers (apply_op op now st)) i = Some w'" "w_phase w' = w_phase w" by auto
  with 2(1) [of w'] 2(3,4) show ?case by auto
qed

section \<open>Health from the reports\<close>

definition newest_report :: "(rt_op \<Rightarrow> bool) \<Rightarrow> (rt_op \<times> instant) list \<Rightarrow> (rt_op \<times> instant) option" where
  "newest_report P ops = List.find (\<lambda>(op, t). P op) (rev ops)"

lemma newest_report_simps [simp]:
  "newest_report P [] = None" "newest_report P (ops @ [(op, t)]) = (if P op then Some (op, t) else newest_report P ops)"
  by (simp_all add: newest_report_def)

definition watchers_heard :: "(rt_op \<times> instant) list \<Rightarrow> string set" where
  "watchers_heard ops = (\<Union>(op, t) \<in> set ops. op_watcher op)"

definition lanes_heard :: "(rt_op \<times> instant) list \<Rightarrow> string set" where
  "lanes_heard ops = (\<Union>(op, t) \<in> set ops. op_runner op)"

text \<open>The last mark is not an end, and the last sign of life is recent.\<close>

definition watcher_alive :: "duration \<Rightarrow> instant \<Rightarrow> string \<Rightarrow> (rt_op \<times> instant) list \<Rightarrow> bool" where
  "watcher_alive stale now i ops \<longleftrightarrow>
     (case newest_report (\<lambda>op. i \<in> op_watcher op) ops of
        Some (OpMarkWatcher j ph, t) \<Rightarrow> ph \<noteq> WCrashed \<and> ph \<noteq> WStopped
      | _ \<Rightarrow> True) \<and>
     (case newest_report (\<lambda>op. i \<in> op_watcher op \<or> op = OpWatcherProgress i) ops of
        Some (op, t) \<Rightarrow> now - t \<le> stale
      | None \<Rightarrow> True)"

text \<open>The last mark is not an end, and no command has run too long. A repeated mark as running is no end.\<close>

definition lane_alive :: "duration \<Rightarrow> instant \<Rightarrow> string \<Rightarrow> (rt_op \<times> instant) list \<Rightarrow> bool" where
  "lane_alive limit now i ops \<longleftrightarrow>
     (case newest_report (\<lambda>op. i \<in> op_runner op) ops of
        Some (OpMarkRunner j ph, t) \<Rightarrow> ph \<noteq> RCrashed \<and> ph \<noteq> RStopped
      | _ \<Rightarrow> True) \<and>
     (case newest_report (\<lambda>op. i \<in> op_runner op \<and> op \<noteq> OpMarkRunner i RRunning) ops of
        Some (OpCommandStarted j, t) \<Rightarrow> now - t \<le> limit
      | _ \<Rightarrow> True)"

lemma apply_ops_snoc [simp]: "apply_ops (ops @ [(op, t)]) st = apply_op op t (apply_ops ops st)"
  by (induction ops st rule: apply_ops.induct) simp_all

lemma apply_ops_limits [simp]:
  "total_command_lanes (apply_ops ops st) = total_command_lanes st"
  "command_timeout (apply_ops ops st) = command_timeout st"
  by (induction ops st rule: apply_ops.induct) simp_all

lemma apply_ops_heard:
  "fst ` set (watchers (apply_ops ops st)) = fst ` set (watchers st) \<union> watchers_heard ops"
  "fst ` set (command_runners (apply_ops ops st)) = fst ` set (command_runners st) \<union> lanes_heard ops"
  by (induction ops st rule: apply_ops.induct)
     (auto simp: watchers_heard_def lanes_heard_def apply_op_watcher_ids apply_op_runner_ids)

text \<open>What the state keeps of a watcher or a lane, by the last reports about it.\<close>

definition mark_reported :: "watcher_status \<Rightarrow> rt_op \<Rightarrow> bool" where
  "mark_reported w op \<longleftrightarrow> w_phase w = (case op of OpMarkWatcher j ph \<Rightarrow> ph | _ \<Rightarrow> WStarting)"

lemma watcher_reported:
  assumes "watchers st = []"
  shows "case map_of (watchers (apply_ops ops st)) i of
      None \<Rightarrow> newest_report (\<lambda>op. i \<in> op_watcher op) ops = None
    | Some w \<Rightarrow> (\<exists>op t. newest_report (\<lambda>op. i \<in> op_watcher op) ops = Some (op, t) \<and> mark_reported w op) \<and>
        (w_phase w \<noteq> WCrashed \<and> w_phase w \<noteq> WStopped \<longrightarrow>
          (\<exists>op. newest_report (\<lambda>op. i \<in> op_watcher op \<or> op = OpWatcherProgress i) ops = Some (op, w_last_progress w)))"
proof (induction ops rule: rev_induct)
  case Nil
  then show ?case using assms by simp
next
  case (snoc x ops)
  obtain op t where x: "x = (op, t)" by fastforce
  show ?case
  proof (cases "i \<in> op_watcher op \<or> op = OpWatcherProgress i")
    case False
    then have "map_of (watchers (apply_op op t s)) i = map_of (watchers s) i" for s
      by (cases op) (auto simp: rt_op_defs update_conv' split: option.split)
    with snoc False show ?thesis by (simp add: x split: option.splits)
  next
    case True
    with snoc show ?thesis
      by (cases op) (auto simp: x rt_op_defs update_conv' mark_reported_def watcher_entry_def split: option.splits)
  qed
qed

definition runner_reported :: "runner_status \<Rightarrow> rt_op \<Rightarrow> bool" where
  "runner_reported r op \<longleftrightarrow> r_phase r = (case op of
     OpMarkRunner j ph \<Rightarrow> ph | OpCommandStarted j \<Rightarrow> RRunning | OpCommandFinished j oc \<Rightarrow> RIdle | _ \<Rightarrow> RStarting)"

definition command_reported :: "(rt_op \<times> instant) option \<Rightarrow> instant option" where
  "command_reported x = (case x of Some (OpCommandStarted j, t) \<Rightarrow> Some t | _ \<Rightarrow> None)"

lemma lane_reported:
  assumes "command_runners st = []"
  shows "case map_of (command_runners (apply_ops ops st)) i of
      None \<Rightarrow> newest_report (\<lambda>op. i \<in> op_runner op) ops = None \<and>
        newest_report (\<lambda>op. i \<in> op_runner op \<and> op \<noteq> OpMarkRunner i RRunning) ops = None
    | Some r \<Rightarrow> (\<exists>op t. newest_report (\<lambda>op. i \<in> op_runner op) ops = Some (op, t) \<and> runner_reported r op) \<and>
        r_command_started r = command_reported (newest_report (\<lambda>op. i \<in> op_runner op \<and> op \<noteq> OpMarkRunner i RRunning) ops)"
proof (induction ops rule: rev_induct)
  case Nil
  then show ?case using assms by simp
next
  case (snoc x ops)
  obtain op t where x: "x = (op, t)" by fastforce
  show ?case
  proof (cases "i \<in> op_runner op")
    case False
    then have "map_of (command_runners (apply_op op t s)) i = map_of (command_runners s) i" for s
      by (cases op) (auto simp: rt_op_defs update_conv' split: option.split)
    with snoc False show ?thesis by (simp add: x split: option.splits)
  next
    case True
    with snoc show ?thesis
      by (cases op)
         (auto simp: x rt_op_defs update_conv' runner_reported_def runner_entry_def command_reported_def split: option.splits)
  qed
qed

lemma watcher_ok_reported:
  assumes "watchers st = []" "map_of (watchers (apply_ops ops st)) i = Some w"
  shows "watcher_ok stale now w \<longleftrightarrow> watcher_alive stale now i ops"
proof -
  from watcher_reported [OF assms(1), where ops = ops and i = i] assms(2) obtain op t where
    l: "newest_report (\<lambda>op. i \<in> op_watcher op) ops = Some (op, t)" "mark_reported w op"
    and p: "w_phase w \<noteq> WCrashed \<and> w_phase w \<noteq> WStopped \<longrightarrow>
          (\<exists>op. newest_report (\<lambda>op. i \<in> op_watcher op \<or> op = OpWatcherProgress i) ops = Some (op, w_last_progress w))" by auto
  have "(case op of OpMarkWatcher j ph \<Rightarrow> ph \<noteq> WCrashed \<and> ph \<noteq> WStopped | _ \<Rightarrow> True)
      \<longleftrightarrow> w_phase w \<noteq> WCrashed \<and> w_phase w \<noteq> WStopped"
    using l(2) by (cases op) (simp_all add: mark_reported_def)
  with l(1) p show ?thesis
    by (auto simp: watcher_ok_def watcher_alive_def)
qed

lemma runner_ok_reported:
  assumes "command_runners st = []" "map_of (command_runners (apply_ops ops st)) i = Some r"
  shows "runner_ok limit now r \<longleftrightarrow> lane_alive limit now i ops"
proof -
  let ?l = "newest_report (\<lambda>op. i \<in> op_runner op \<and> op \<noteq> OpMarkRunner i RRunning) ops"
  from lane_reported [OF assms(1), where ops = ops and i = i] assms(2) obtain op t where
    l: "newest_report (\<lambda>op. i \<in> op_runner op) ops = Some (op, t)" "runner_reported r op"
    and c: "r_command_started r = command_reported ?l" by auto
  have "(case op of OpMarkRunner j ph \<Rightarrow> ph \<noteq> RCrashed \<and> ph \<noteq> RStopped | _ \<Rightarrow> True)
      \<longleftrightarrow> r_phase r \<noteq> RCrashed \<and> r_phase r \<noteq> RStopped"
    using l(2) by (cases op) (simp_all add: runner_reported_def)
  moreover have "(case ?l of Some (OpCommandStarted j, t) \<Rightarrow> now - t \<le> limit | _ \<Rightarrow> True)
      \<longleftrightarrow> (\<forall>s. r_command_started r = Some s \<longrightarrow> now - s \<le> limit)"
    by (simp add: c command_reported_def split: option.split rt_op.split)
  ultimately show ?thesis using l(1) by (auto simp: runner_ok_def lane_alive_def)
qed

lemma all_entries:
  assumes "distinct (map fst al)" "\<And>i x. map_of al i = Some x \<Longrightarrow> P x \<longleftrightarrow> Q i"
  shows "(\<forall>p \<in> set al. P (snd p)) \<longleftrightarrow> (\<forall>i \<in> fst ` set al. Q i)"
  using assms by auto

section \<open>Properties\<close>

text \<open>
  C21. Every call on the shared state that changes what \<^verbatim>\<open>status_message\<close> prints advances, by one,
  the status revision that the status task is subscribed to, with exactly one exception:
  registering a lane again while its command runs takes the command out of the count silently. The
  daemon registers each lane once, before any task runs.
\<close>

theorem status_change_is_notified:
  assumes "status_message (apply_op op now st) \<noteq> status_message st"
  shows "status_revision (apply_op op now st) =
    (if \<exists>i r. op = OpRegisterRunner i \<and> map_of (command_runners st) i = Some r \<and> r_phase r = RRunning
     then status_revision st else status_revision st + 1)"
proof (cases op)
  case (OpRegisterRunner i)
  have "\<exists>r. map_of (command_runners st) i = Some r \<and> r_phase r = RRunning"
  proof (rule ccontr)
    assume "\<not> ?thesis"
    then have "\<not> (\<exists>e. map_of (command_runners st) i = Some e \<and> r_phase e = RRunning)" .
    then have "running_command_count (apply_op op now st) = running_command_count st"
      using OpRegisterRunner running_count_update [where st = st and i = i and
          r = "\<lparr>r_phase = RStarting, r_last_progress = now, r_command_started = None\<rparr>"]
      by (simp only: apply_op.simps register_command_runner_def of_bool_eq if_False)
         (simp add: register_command_runner_def)
    then have "status_message (apply_op op now st) = status_message st"
      using OpRegisterRunner by (intro status_message_cong) (simp_all add: register_command_runner_def)
    with assms show False by simp
  qed
  with OpRegisterRunner show ?thesis by (simp add: register_command_runner_def)
next
  case (OpMarkRunner i ph)
  with assms mark_command_runner_quiet [of i now st ph]
  have "(r_phase (runner_entry i now st) = RRunning) \<noteq> (ph = RRunning)" by auto
  with OpMarkRunner show ?thesis
    by (auto simp: mark_command_runner_def Let_def notify_status_changed_def)
qed (use assms in \<open>auto simp: rt_op_defs status_message_def running_command_count_def
      split: option.splits if_splits\<close>)

text \<open>The exception: the count drops from one to zero, and the revision stays.\<close>

lemma registering_again_is_silent:
  "let st = apply_ops [(OpRegisterRunner ''l'', 0), (OpCommandStarted ''l'', 1)] (new_runtime_state 0 0 1 9 9) in
     status_message (apply_op (OpRegisterRunner ''l'') 2 st) \<noteq> status_message st \<and>
     status_revision (apply_op (OpRegisterRunner ''l'') 2 st) = status_revision st"
  by (simp add: rt_op_defs new_runtime_state_def status_message_def running_command_count_def runner_entry_def
      show_nat.simps Let_def)

lemma status_change_is_notified_witness:
  "status_revision (apply_op (OpCommandStarted ''l'') 5 (new_runtime_state 0 0 1 9 9)) = 1"
  using status_change_is_notified [of "OpCommandStarted ''l''" 5 "new_runtime_state 0 0 1 9 9"]
  by (simp add: rt_op_defs new_runtime_state_def status_message_def running_command_count_def
      runner_entry_def)

text \<open>
  C22. The health check, read off the reports a fresh state has received: it passes exactly when as
  many watchers and lanes have been heard of as the configuration has, no watcher or lane was last
  marked stopped or crashed, the last sign of life of every watcher is within the stale limit, and
  no lane whose last report is the start of a command has been running longer than the command
  limit. There is one such limit for all lanes, the largest configured timeout: a command with a
  shorter timeout of its own may exceed it (the documents say each command's own timeout counts).
\<close>

theorem health_check_exact:
  "is_healthy now (apply_ops ops (new_runtime_state accounts sources lanes stale limit)) \<longleftrightarrow>
     card (watchers_heard ops) = sources \<and> card (lanes_heard ops) = lanes \<and>
     (\<forall>i \<in> watchers_heard ops. watcher_alive stale now i ops) \<and>
     (\<forall>i \<in> lanes_heard ops. lane_alive limit now i ops)"
proof -
  let ?new = "new_runtime_state accounts sources lanes stale limit"
  let ?run = "apply_ops ops ?new"
  have wf: "distinct (map fst (watchers ?run))" "distinct (map fst (command_runners ?run))"
    using apply_ops_wf [OF new_runtime_state_wf, of ops accounts sources lanes stale limit] by (simp_all add: rt_wf_def)
  have heard: "fst ` set (watchers ?run) = watchers_heard ops" "fst ` set (command_runners ?run) = lanes_heard ops"
    by (simp_all add: apply_ops_heard new_runtime_state_def)
  have num: "length (watchers ?run) = card (watchers_heard ops)" "length (command_runners ?run) = card (lanes_heard ops)"
    using distinct_card [OF wf(1)] distinct_card [OF wf(2)] heard by simp_all
  have "(\<forall>p \<in> set (watchers ?run). watcher_ok stale now (snd p)) \<longleftrightarrow> (\<forall>i \<in> watchers_heard ops. watcher_alive stale now i ops)"
    unfolding heard(1) [symmetric]
    by (rule all_entries [OF wf(1)]) (rule watcher_ok_reported, simp_all add: new_runtime_state_def)
  moreover have "(\<forall>p \<in> set (command_runners ?run). runner_ok limit now (snd p)) \<longleftrightarrow> (\<forall>i \<in> lanes_heard ops. lane_alive limit now i ops)"
    unfolding heard(2) [symmetric]
    by (rule all_entries [OF wf(2)]) (rule runner_ok_reported, simp_all add: new_runtime_state_def)
  ultimately show ?thesis by (simp add: is_healthy_iff num) (simp add: new_runtime_state_def)
qed

definition demo_reports :: "(rt_op \<times> instant) list" where
  "demo_reports = [(OpRegisterWatcher ''w'', 0), (OpRegisterRunner ''l'', 0), (OpWatcherProgress ''w'', 8),
     (OpMarkRunner ''l'' RIdle, 1), (OpCommandStarted ''l'', 2), (OpMarkRunner ''l'' RRunning, 4)]"

lemma health_check_exact_witness:
  "is_healthy 9 (apply_ops demo_reports (new_runtime_state 0 1 1 4 7)) \<and>
   \<not> is_healthy 10 (apply_ops demo_reports (new_runtime_state 0 1 1 4 7))"
proof -
  have "watchers_heard demo_reports = {''w''}" "lanes_heard demo_reports = {''l''}"
    by (simp_all add: demo_reports_def watchers_heard_def lanes_heard_def)
  then show ?thesis
    unfolding health_check_exact
    by (simp add: demo_reports_def watcher_alive_def lane_alive_def newest_report_def)
qed

text \<open>
  A watcher that has crashed or stopped keeps the daemon unhealthy, whatever the other
  tasks do afterwards and however often its own heartbeat reports progress, until that
  watcher itself is marked or registered again.
\<close>

lemma down_watcher_stays_unhealthy:
  assumes "map_of (watchers st) i = Some w" "w_phase w = WCrashed \<or> w_phase w = WStopped"
    and "\<forall>(op, t) \<in> set ops. op \<noteq> OpRegisterWatcher i \<and> (\<forall>ph. op \<noteq> OpMarkWatcher i ph)"
  shows "\<not> is_healthy now (apply_ops ops st)"
proof -
  have "i \<notin> op_watcher op" if "(op, t) \<in> set ops" for op t
    using assms(3) that by (cases op) auto
  then have "\<forall>(op, t) \<in> set ops. i \<notin> op_watcher op" by auto
  with apply_ops_keeps_down [OF assms(1)] assms(2) obtain w' where
    "map_of (watchers (apply_ops ops st)) i = Some w'" "w_phase w' = w_phase w" by auto
  then have "(i, w') \<in> set (watchers (apply_ops ops st))" "\<not> watcher_ok s now w'" for s
    using assms(2) by (auto simp: watcher_ok_def dest: map_of_SomeD)
  then show ?thesis by (force simp: is_healthy_iff)
qed

text \<open>
  The progress heartbeat of the sources that wait without traffic is frequent enough:
  its interval is positive, at most a minute, and a live watcher that reported progress is
  within its stale limit until a full second interval has passed without a heartbeat.
\<close>

lemma heartbeat_prevents_staleness:
  assumes "2 \<le> watcher_stale st"
    and "map_of (watchers st) i = Some w" "w_phase w \<noteq> WCrashed" "w_phase w \<noteq> WStopped"
    and "now \<le> t + 2 * watcher_heartbeat_interval st"
  shows "0 < watcher_heartbeat_interval st \<and> watcher_heartbeat_interval st \<le> secs 60 \<and>
    (\<exists>w'. map_of (watchers (mark_watcher_progress i t st)) i = Some w' \<and>
       watcher_problem (watcher_stale st) now (i, w') = None)"
proof -
  have half: "0 < watcher_stale st div 2" using assms(1) by simp
  then have hb: "watcher_heartbeat_interval st = min (watcher_stale st div 2) (secs 60)"
    by (simp add: watcher_heartbeat_interval_def)
  then have "2 * watcher_heartbeat_interval st \<le> watcher_stale st" by simp
  with assms(5) have "now - t \<le> watcher_stale st" by simp
  with assms(2-4) have "\<exists>w'. map_of (watchers (mark_watcher_progress i t st)) i = Some w' \<and>
       watcher_problem (watcher_stale st) now (i, w') = None"
    by (simp add: mark_watcher_progress_def update_conv' watcher_ok_def)
  with half hb show ?thesis by (simp add: secs_def)
qed

end
