(* ===== verification/Configuration.thy ===== *)
theory Configuration
  imports Runtime_State
begin

text \<open>
  The configuration (\<^verbatim>\<open>src/src/config.rs\<close>): the deserialised structs with their defaults and
  accessors, validation with every rejection as a value of \<open>config_error\<close>, and the derived
  counts. TOML decoding belongs to the \<^verbatim>\<open>toml\<close> crate and is the parameter of
  \<open>config_parse\<close>. A \<^verbatim>\<open>u64\<close>, \<^verbatim>\<open>u32\<close>, \<^verbatim>\<open>u16\<close> or \<^verbatim>\<open>usize\<close> field keeps its width.
\<close>

section \<open>The structs\<close>

datatype output_mode = Silent | FailureTail | Tail | Debug | Journal

record output_policy =
  op_mode :: output_mode
  op_max_bytes :: usize
  op_tail_lines :: usize

datatype auth_method = Xoauth2Cmd | PasswordCmd | Password

fun show_auth_method :: "auth_method \<Rightarrow> string" where
  "show_auth_method Xoauth2Cmd = ''xoauth2_cmd''"
| "show_auth_method PasswordCmd = ''password_cmd''"
| "show_auth_method Password = ''password''"

text \<open>A secret is opaque to logging: \<^verbatim>\<open>Debug\<close> prints a fixed text, only \<open>expose_secret\<close> reads it.\<close>

datatype secret_string = Secret string

fun expose_secret :: "secret_string \<Rightarrow> string" where
  "expose_secret (Secret s) = s"

fun debug_secret :: "secret_string \<Rightarrow> string" where
  "debug_secret (Secret s) = ''[REDACTED]''"

record mailbox_config =
  mb_name :: string
  mb_on_notify :: string
  mb_debounce_seconds :: "u64 option"

record account_config =
  ac_name :: string
  ac_host :: string
  ac_port :: "u16 option"
  ac_username :: string
  ac_auth :: auth_method
  ac_xoauth2_cmd :: "string option"
  ac_password_cmd :: "string option"
  ac_password :: "secret_string option"
  ac_insecure_plaintext :: bool
  ac_danger_accept_invalid_certs :: bool
  ac_mailboxes :: "mailbox_config list"

record command_config =
  cc_name :: string
  cc_lane :: "string option"
  cc_cmd :: string
  cc_timeout_seconds :: "u64 option"
  cc_min_interval_seconds :: "u64 option"
  cc_output_mode :: "output_mode option"
  cc_output_max_bytes :: "usize option"
  cc_output_tail_lines :: "usize option"

record imap_idle_source =
  ii_name :: string
  ii_account :: string
  ii_mailbox :: string
  ii_on_event :: string
  ii_run_on_startup :: bool
  ii_debounce_seconds :: "u64 option"

record gmail_source =
  gm_name :: string
  gm_on_event :: string
  gm_token_cmd :: string
  gm_label_ids :: "string list"
  gm_run_on_startup :: bool
  gm_debounce_seconds :: "u64 option"
  gm_poll_interval_seconds :: "u64 option"
  gm_api_timeout_seconds :: "u64 option"
  gm_history_page_size :: "u32 option"

record fs_source =
  fs_name :: string
  fs_watch_paths :: "string list"
  fs_recursive :: "bool option"
  fs_state_cmd :: "string option"
  fs_on_change :: string
  fs_run_on_startup :: bool
  fs_debounce_seconds :: "u64 option"
  fs_max_debounce_seconds :: "u64 option"

record resume_source =
  sr_name :: string
  sr_on_resume :: string
  sr_settle_seconds :: "u64 option"

datatype source_config =
  ImapIdle imap_idle_source
| GmailApiPoll gmail_source
| FsState fs_source
| SystemResume resume_source

record config =
  default_debounce_seconds :: "u64 option"
  default_max_debounce_seconds :: "u64 option"
  capture_command_output_opt :: "bool option"
  log_command_output_opt :: "bool option"
  auth_helper_timeout_seconds :: "u64 option"
  auth_helper_max_output_bytes_opt :: "usize option"
  command_timeout_seconds :: "u64 option"
  command_output_max_bytes_opt :: "usize option"
  command_output_tail_lines_opt :: "usize option"
  connect_timeout_seconds :: "u64 option"
  imap_operation_timeout_seconds :: "u64 option"
  min_command_interval_seconds :: "u64 option"
  watcher_stale_seconds :: "u64 option"
  idle_refresh_seconds :: "u64 option"
  accounts :: "account_config list"
  commands :: "command_config list"
  sources :: "source_config list"

section \<open>Defaults and accessors\<close>

definition unwrap_or :: "'a option \<Rightarrow> 'a \<Rightarrow> 'a" where
  "unwrap_or x d = (case x of Some v \<Rightarrow> v | None \<Rightarrow> d)"

lemma unwrap_or_simps [simp]: "unwrap_or (Some v) d = v" "unwrap_or None d = d"
  by (simp_all add: unwrap_or_def)

definition DEFAULT_DEBOUNCE_SECONDS :: u64 where "DEFAULT_DEBOUNCE_SECONDS = 10"
definition DEFAULT_MAX_DEBOUNCE_SECONDS :: u64 where "DEFAULT_MAX_DEBOUNCE_SECONDS = 60"
definition DEFAULT_IMAPS_PORT :: u16 where "DEFAULT_IMAPS_PORT = 993"
definition DEFAULT_IDLE_REFRESH_SECONDS :: u64 where "DEFAULT_IDLE_REFRESH_SECONDS = 29 * 60"
definition DEFAULT_WATCHER_STALE_SECONDS :: u64 where "DEFAULT_WATCHER_STALE_SECONDS = 60 * 60"
definition DEFAULT_AUTH_HELPER_TIMEOUT_SECONDS :: u64 where "DEFAULT_AUTH_HELPER_TIMEOUT_SECONDS = 30"
definition DEFAULT_AUTH_HELPER_MAX_OUTPUT_BYTES :: usize where
  "DEFAULT_AUTH_HELPER_MAX_OUTPUT_BYTES = 65536"
definition DEFAULT_COMMAND_TIMEOUT_SECONDS :: u64 where "DEFAULT_COMMAND_TIMEOUT_SECONDS = 300"
definition DEFAULT_CONNECT_TIMEOUT_SECONDS :: u64 where "DEFAULT_CONNECT_TIMEOUT_SECONDS = 30"
definition DEFAULT_IMAP_OPERATION_TIMEOUT_SECONDS :: u64 where
  "DEFAULT_IMAP_OPERATION_TIMEOUT_SECONDS = 60"
definition DEFAULT_MIN_COMMAND_INTERVAL_SECONDS :: u64 where "DEFAULT_MIN_COMMAND_INTERVAL_SECONDS = 60"
definition DEFAULT_SYSTEM_RESUME_SETTLE_SECONDS :: u64 where "DEFAULT_SYSTEM_RESUME_SETTLE_SECONDS = 15"
definition DEFAULT_GMAIL_API_POLL_INTERVAL_SECONDS :: u64 where
  "DEFAULT_GMAIL_API_POLL_INTERVAL_SECONDS = 60"
definition DEFAULT_GMAIL_API_TIMEOUT_SECONDS :: u64 where "DEFAULT_GMAIL_API_TIMEOUT_SECONDS = 60"
definition DEFAULT_GMAIL_API_HISTORY_PAGE_SIZE :: u32 where "DEFAULT_GMAIL_API_HISTORY_PAGE_SIZE = 100"
definition DEFAULT_COMMAND_OUTPUT_MAX_BYTES :: usize where "DEFAULT_COMMAND_OUTPUT_MAX_BYTES = 1048576"
definition DEFAULT_COMMAND_OUTPUT_TAIL_LINES :: usize where "DEFAULT_COMMAND_OUTPUT_TAIL_LINES = 100"

definition default_debounce :: "config \<Rightarrow> duration" where
  "default_debounce c = from_secs (unwrap_or (default_debounce_seconds c) DEFAULT_DEBOUNCE_SECONDS)"

definition default_max_debounce :: "config \<Rightarrow> duration" where
  "default_max_debounce c =
     from_secs (unwrap_or (default_max_debounce_seconds c) DEFAULT_MAX_DEBOUNCE_SECONDS)"

definition idle_refresh :: "config \<Rightarrow> duration" where
  "idle_refresh c = from_secs (unwrap_or (idle_refresh_seconds c) DEFAULT_IDLE_REFRESH_SECONDS)"

definition config_watcher_stale :: "config \<Rightarrow> duration" where
  "config_watcher_stale c =
     from_secs (unwrap_or (watcher_stale_seconds c) DEFAULT_WATCHER_STALE_SECONDS)"

definition auth_helper_timeout :: "config \<Rightarrow> duration" where
  "auth_helper_timeout c =
     from_secs (unwrap_or (auth_helper_timeout_seconds c) DEFAULT_AUTH_HELPER_TIMEOUT_SECONDS)"

definition auth_helper_max_output_bytes :: "config \<Rightarrow> usize" where
  "auth_helper_max_output_bytes c =
     unwrap_or (auth_helper_max_output_bytes_opt c) DEFAULT_AUTH_HELPER_MAX_OUTPUT_BYTES"

definition config_command_timeout :: "config \<Rightarrow> duration" where
  "config_command_timeout c =
     from_secs (unwrap_or (command_timeout_seconds c) DEFAULT_COMMAND_TIMEOUT_SECONDS)"

definition command_output_max_bytes :: "config \<Rightarrow> usize" where
  "command_output_max_bytes c =
     unwrap_or (command_output_max_bytes_opt c) DEFAULT_COMMAND_OUTPUT_MAX_BYTES"

definition command_output_tail_lines :: "config \<Rightarrow> usize" where
  "command_output_tail_lines c =
     unwrap_or (command_output_tail_lines_opt c) DEFAULT_COMMAND_OUTPUT_TAIL_LINES"

text \<open>\<^verbatim>\<open>a.or(b)\<close>\<close>

definition option_or :: "'a option \<Rightarrow> 'a option \<Rightarrow> 'a option" where
  "option_or a b = (case a of Some v \<Rightarrow> Some v | None \<Rightarrow> b)"

definition default_command_output_mode :: "config \<Rightarrow> output_mode" where
  "default_command_output_mode c =
     (case option_or (capture_command_output_opt c) (log_command_output_opt c) of
        Some False \<Rightarrow> Silent
      | Some True \<Rightarrow> FailureTail
      | None \<Rightarrow> FailureTail)"

definition command_output_policy :: "config \<Rightarrow> output_policy" where
  "command_output_policy c = \<lparr>op_mode = default_command_output_mode c,
     op_max_bytes = command_output_max_bytes c, op_tail_lines = command_output_tail_lines c\<rparr>"

definition connect_timeout :: "config \<Rightarrow> duration" where
  "connect_timeout c =
     from_secs (unwrap_or (connect_timeout_seconds c) DEFAULT_CONNECT_TIMEOUT_SECONDS)"

definition imap_operation_timeout :: "config \<Rightarrow> duration" where
  "imap_operation_timeout c =
     from_secs (unwrap_or (imap_operation_timeout_seconds c) DEFAULT_IMAP_OPERATION_TIMEOUT_SECONDS)"

definition min_command_interval :: "config \<Rightarrow> duration" where
  "min_command_interval c =
     from_secs (unwrap_or (min_command_interval_seconds c) DEFAULT_MIN_COMMAND_INTERVAL_SECONDS)"

definition capture_command_output :: "config \<Rightarrow> bool" where
  "capture_command_output c =
     unwrap_or (option_or (capture_command_output_opt c) (log_command_output_opt c)) False"

definition legacy_source_name :: "string \<Rightarrow> string \<Rightarrow> string" where
  "legacy_source_name account mailbox = account @ ''/'' @ mailbox"

definition mailbox_count :: "config \<Rightarrow> nat" where
  "mailbox_count c = sum_list (map (\<lambda>a. length (ac_mailboxes a)) (accounts c))"

definition source_count :: "config \<Rightarrow> nat" where
  "source_count c = mailbox_count c + length (sources c)"

definition command_count :: "config \<Rightarrow> nat" where
  "command_count c = mailbox_count c + length (commands c)"

definition lane_name :: "command_config \<Rightarrow> string" where
  "lane_name cc = unwrap_or (cc_lane cc) (cc_name cc)"

definition legacy_names :: "config \<Rightarrow> string list" where
  "legacy_names c = concat (map (\<lambda>a. map (\<lambda>m. legacy_source_name (ac_name a) (mb_name m))
     (ac_mailboxes a)) (accounts c))"

definition command_lane_count :: "config \<Rightarrow> nat" where
  "command_lane_count c = card (set (legacy_names c) \<union> set (map lane_name (commands c)))"

definition port :: "account_config \<Rightarrow> u16" where
  "port a = unwrap_or (ac_port a) DEFAULT_IMAPS_PORT"

definition debounce_or_default :: "u64 option \<Rightarrow> config \<Rightarrow> duration" where
  "debounce_or_default d c = unwrap_or (map_option from_secs d) (default_debounce c)"

definition mailbox_debounce :: "mailbox_config \<Rightarrow> config \<Rightarrow> duration" where
  "mailbox_debounce m c = debounce_or_default (mb_debounce_seconds m) c"

definition cc_timeout :: "command_config \<Rightarrow> config \<Rightarrow> duration" where
  "cc_timeout cc c = unwrap_or (map_option from_secs (cc_timeout_seconds cc)) (config_command_timeout c)"

definition cc_min_interval :: "command_config \<Rightarrow> config \<Rightarrow> duration" where
  "cc_min_interval cc c =
     unwrap_or (map_option from_secs (cc_min_interval_seconds cc)) (min_command_interval c)"

definition cc_output_policy :: "command_config \<Rightarrow> config \<Rightarrow> output_policy" where
  "cc_output_policy cc c = (let default = command_output_policy c in
     \<lparr>op_mode = unwrap_or (cc_output_mode cc) (op_mode default),
      op_max_bytes = unwrap_or (cc_output_max_bytes cc) (op_max_bytes default),
      op_tail_lines = unwrap_or (cc_output_tail_lines cc) (op_tail_lines default)\<rparr>)"

fun source_name :: "source_config \<Rightarrow> string" where
  "source_name (ImapIdle s) = ii_name s"
| "source_name (GmailApiPoll s) = gm_name s"
| "source_name (FsState s) = fs_name s"
| "source_name (SystemResume s) = sr_name s"

definition imap_source_debounce :: "imap_idle_source \<Rightarrow> config \<Rightarrow> duration" where
  "imap_source_debounce s c = debounce_or_default (ii_debounce_seconds s) c"

definition gmail_source_debounce :: "gmail_source \<Rightarrow> config \<Rightarrow> duration" where
  "gmail_source_debounce s c = debounce_or_default (gm_debounce_seconds s) c"

definition poll_interval :: "gmail_source \<Rightarrow> duration" where
  "poll_interval s =
     from_secs (unwrap_or (gm_poll_interval_seconds s) DEFAULT_GMAIL_API_POLL_INTERVAL_SECONDS)"

definition api_timeout :: "gmail_source \<Rightarrow> duration" where
  "api_timeout s = from_secs (unwrap_or (gm_api_timeout_seconds s) DEFAULT_GMAIL_API_TIMEOUT_SECONDS)"

definition history_page_size :: "gmail_source \<Rightarrow> u32" where
  "history_page_size s = unwrap_or (gm_history_page_size s) DEFAULT_GMAIL_API_HISTORY_PAGE_SIZE"

definition recursive_watch :: "fs_source \<Rightarrow> bool" where
  "recursive_watch s = unwrap_or (fs_recursive s) False"

definition fs_source_debounce :: "fs_source \<Rightarrow> config \<Rightarrow> duration" where
  "fs_source_debounce s c = debounce_or_default (fs_debounce_seconds s) c"

definition fs_source_max_debounce :: "fs_source \<Rightarrow> config \<Rightarrow> duration" where
  "fs_source_max_debounce s c =
     unwrap_or (map_option from_secs (fs_max_debounce_seconds s)) (default_max_debounce c)"

definition resume_settle :: "resume_source \<Rightarrow> duration" where
  "resume_settle s = unwrap_or (map_option from_secs (sr_settle_seconds s))
     (from_secs DEFAULT_SYSTEM_RESUME_SETTLE_SECONDS)"


section \<open>Loading\<close>

text \<open>\<^verbatim>\<open>line_column\<close>: the position of a byte offset, counted in Unicode scalar values.\<close>

definition scalar_start :: "char \<Rightarrow> bool" where
  "scalar_start c \<longleftrightarrow> \<not> cont_byte c"

fun line_column_from :: "string \<Rightarrow> nat \<Rightarrow> nat \<Rightarrow> nat \<Rightarrow> nat \<Rightarrow> nat \<times> nat" where
  "line_column_from [] index byte_index line column = (line, column)"
| "line_column_from (ch # rest) index byte_index line column =
     (if \<not> scalar_start ch then line_column_from rest (Suc index) byte_index line column
      else if byte_index \<le> index then (line, column)
      else if ch = LF then line_column_from rest (Suc index) byte_index (line + 1) 1
      else line_column_from rest (Suc index) byte_index line (column + 1))"

definition line_column :: "string \<Rightarrow> nat \<Rightarrow> nat \<times> nat" where
  "line_column contents byte_index = line_column_from contents 0 byte_index 1 1"

section \<open>Validation\<close>

datatype config_error =
  ReadError string
| ParseError string "(nat \<times> nat) option"
| NoSource
| ZeroSeconds string
| ZeroBytes string
| ZeroCount string
| BothOutputOptions
| IdleRefreshTooSmall u64
| WatcherStaleTooSmall u64 u64
| EmptyField string
| HasCrLf string
| DuplicateAccount string
| InvalidPort string
| PasswordMissing string
| AuthFieldMissing string auth_method string
| AuthFieldUnrelated string auth_method string
| LegacyCollision string
| DuplicateSource string
| DuplicateMailbox string string
| DuplicateCommand string
| UnknownAccount string string
| UnknownCommand string string
| PollIntervalTooSmall string u64
| PageSizeTooBig string u32
| NoWatchPaths string
| EmptyWatchPath string

definition validate_nonempty :: "string \<Rightarrow> string \<Rightarrow> (config_error, unit) result" where
  "validate_nonempty field value = ensure (\<not> blank value) (EmptyField field)"

definition validate_command_reference ::
  "string \<Rightarrow> string \<Rightarrow> string set \<Rightarrow> (config_error, unit) result" where
  "validate_command_reference field command command_names =
     ensure (command \<in> command_names) (UnknownCommand field command)"

definition validate_no_crlf :: "string \<Rightarrow> string \<Rightarrow> (config_error, unit) result" where
  "validate_no_crlf field value = ensure (\<not> list_ex is_crlf value) (HasCrLf field)"

definition validate_nonzero_seconds :: "string \<Rightarrow> u64 \<Rightarrow> (config_error, unit) result" where
  "validate_nonzero_seconds field value = ensure (value \<noteq> 0) (ZeroSeconds field)"

definition validate_nonzero_bytes :: "string \<Rightarrow> usize \<Rightarrow> (config_error, unit) result" where
  "validate_nonzero_bytes field value = ensure (value \<noteq> 0) (ZeroBytes field)"

definition validate_nonzero_count :: "string \<Rightarrow> usize \<Rightarrow> (config_error, unit) result" where
  "validate_nonzero_count field value = ensure (value \<noteq> 0) (ZeroCount field)"

definition require_cmd ::
  "string option \<Rightarrow> string \<Rightarrow> string \<Rightarrow> auth_method \<Rightarrow> (config_error, unit) result" where
  "require_cmd value field account auth = (case value of
     Some v \<Rightarrow> ensure (\<not> blank v) (AuthFieldMissing account auth field)
   | None \<Rightarrow> Inl (AuthFieldMissing account auth field))"

definition forbid_field ::
  "'a option \<Rightarrow> string \<Rightarrow> string \<Rightarrow> auth_method \<Rightarrow> (config_error, unit) result" where
  "forbid_field value field account auth =
     ensure (value = None) (AuthFieldUnrelated account auth field)"

text \<open>\<^verbatim>\<open>if let Some(v) = opt { check(v)?; }\<close>\<close>

definition if_some :: "'a option \<Rightarrow> ('a \<Rightarrow> ('e, unit) result) \<Rightarrow> ('e, unit) result" where
  "if_some opt check = (case opt of Some v \<Rightarrow> check v | None \<Rightarrow> Inr ())"

definition validate_auth :: "account_config \<Rightarrow> (config_error, unit) result" where
  "validate_auth a = (case ac_auth a of
     Xoauth2Cmd \<Rightarrow> first_error
       [require_cmd (ac_xoauth2_cmd a) ''xoauth2_cmd'' (ac_name a) (ac_auth a),
        forbid_field (ac_password_cmd a) ''password_cmd'' (ac_name a) (ac_auth a),
        forbid_field (ac_password a) ''password'' (ac_name a) (ac_auth a)]
   | PasswordCmd \<Rightarrow> first_error
       [require_cmd (ac_password_cmd a) ''password_cmd'' (ac_name a) (ac_auth a),
        forbid_field (ac_xoauth2_cmd a) ''xoauth2_cmd'' (ac_name a) (ac_auth a),
        forbid_field (ac_password a) ''password'' (ac_name a) (ac_auth a)]
   | Password \<Rightarrow> (case ac_password a of
        None \<Rightarrow> Inl (PasswordMissing (ac_name a))
      | Some password \<Rightarrow> first_error
          [validate_no_crlf ''direct password'' (expose_secret password),
           forbid_field (ac_xoauth2_cmd a) ''xoauth2_cmd'' (ac_name a) (ac_auth a),
           forbid_field (ac_password_cmd a) ''password_cmd'' (ac_name a) (ac_auth a)]))"

text \<open>The \<^verbatim>\<open>HashSet\<close>s the loops thread are sets; \<^verbatim>\<open>insert\<close> fails on a member.\<close>

fun validate_commands_from ::
  "string set \<Rightarrow> command_config list \<Rightarrow> (config_error, string set) result" where
  "validate_commands_from names [] = Inr names"
| "validate_commands_from names (cc # rest) = and_then (first_error
     [validate_nonempty ''command name'' (cc_name cc),
      validate_nonempty ''command cmd'' (cc_cmd cc),
      if_some (cc_lane cc) (validate_nonempty ''command lane''),
      if_some (cc_timeout_seconds cc) (validate_nonzero_seconds ''command timeout_seconds''),
      if_some (cc_output_max_bytes cc) (validate_nonzero_bytes ''command output_max_bytes''),
      if_some (cc_output_tail_lines cc) (validate_nonzero_count ''command output_tail_lines''),
      ensure (cc_name cc \<notin> names) (DuplicateCommand (cc_name cc))])
     (\<lambda>_. validate_commands_from (insert (cc_name cc) names) rest)"

definition validate_commands :: "config \<Rightarrow> (config_error, string set) result" where
  "validate_commands c = validate_commands_from {} (commands c)"

fun validate_mailboxes ::
  "string set \<Rightarrow> account_config \<Rightarrow> string set \<Rightarrow> string set \<Rightarrow> mailbox_config list
     \<Rightarrow> (config_error, string set) result" where
  "validate_mailboxes command_names a source_names mailbox_names [] = Inr source_names"
| "validate_mailboxes command_names a source_names mailbox_names (m # rest) =
     (let source = legacy_source_name (ac_name a) (mb_name m) in and_then (first_error
       [validate_nonempty ''mailbox name'' (mb_name m),
        validate_no_crlf ''mailbox name'' (mb_name m),
        validate_nonempty ''mailbox on_notify'' (mb_on_notify m),
        ensure (source \<notin> command_names) (LegacyCollision source),
        ensure (source \<notin> source_names) (DuplicateSource source),
        ensure (mb_name m \<notin> mailbox_names) (DuplicateMailbox (ac_name a) (mb_name m))])
      (\<lambda>_. validate_mailboxes command_names a (insert source source_names)
             (insert (mb_name m) mailbox_names) rest))"

fun validate_accounts ::
  "string set \<Rightarrow> string set \<Rightarrow> string set \<Rightarrow> account_config list
     \<Rightarrow> (config_error, string set \<times> string set) result" where
  "validate_accounts command_names account_names source_names [] = Inr (account_names, source_names)"
| "validate_accounts command_names account_names source_names (a # rest) = and_then (first_error
     [validate_nonempty ''account name'' (ac_name a),
      validate_nonempty ''account host'' (ac_host a),
      validate_nonempty ''account username'' (ac_username a),
      validate_no_crlf ''account username'' (ac_username a),
      ensure (ac_name a \<notin> account_names) (DuplicateAccount (ac_name a)),
      ensure (port a \<noteq> 0) (InvalidPort (ac_name a)),
      validate_auth a])
     (\<lambda>_. and_then (validate_mailboxes command_names a source_names {} (ac_mailboxes a))
       (\<lambda>source_names'.
          validate_accounts command_names (insert (ac_name a) account_names) source_names' rest))"

fun validate_source_kind ::
  "string set \<Rightarrow> string set \<Rightarrow> source_config \<Rightarrow> (config_error, unit) result" where
  "validate_source_kind account_names command_names (ImapIdle s) = first_error
     [validate_nonempty ''source account'' (ii_account s),
      validate_nonempty ''source mailbox'' (ii_mailbox s),
      validate_no_crlf ''source mailbox'' (ii_mailbox s),
      validate_nonempty ''source on_event'' (ii_on_event s),
      ensure (ii_account s \<in> account_names) (UnknownAccount (ii_name s) (ii_account s)),
      validate_command_reference ''on_event'' (ii_on_event s) command_names]"
| "validate_source_kind account_names command_names (GmailApiPoll s) = first_error
     ([validate_nonempty ''source on_event'' (gm_on_event s),
       validate_nonempty ''source gmail_token_cmd'' (gm_token_cmd s),
       validate_command_reference ''on_event'' (gm_on_event s) command_names]
      @ concat (map (\<lambda>l. [validate_nonempty ''source label_ids'' l,
                          validate_no_crlf ''source label_ids'' l]) (gm_label_ids s))
      @ [if_some (gm_poll_interval_seconds s) (\<lambda>p. first_error
           [validate_nonzero_seconds ''source poll_interval_seconds'' p,
            ensure (10 \<le> p) (PollIntervalTooSmall (gm_name s) p)]),
         if_some (gm_api_timeout_seconds s) (validate_nonzero_seconds ''source api_timeout_seconds''),
         if_some (gm_history_page_size s) (\<lambda>n. first_error
           [validate_nonzero_count ''source history_page_size'' (ucast n),
            ensure (n \<le> 500) (PageSizeTooBig (gm_name s) n)])])"
| "validate_source_kind account_names command_names (FsState s) = first_error
     ([validate_nonempty ''source on_change'' (fs_on_change s),
       validate_command_reference ''on_change'' (fs_on_change s) command_names,
       ensure (fs_watch_paths s \<noteq> []) (NoWatchPaths (fs_name s))]
      @ map (\<lambda>p. ensure (p \<noteq> []) (EmptyWatchPath (fs_name s))) (fs_watch_paths s)
      @ [if_some (fs_state_cmd s) (validate_nonempty ''source state_cmd''),
         if_some (fs_max_debounce_seconds s)
           (validate_nonzero_seconds ''source max_debounce_seconds'')])"
| "validate_source_kind account_names command_names (SystemResume s) = first_error
     [validate_nonempty ''source on_resume'' (sr_on_resume s),
      validate_command_reference ''on_resume'' (sr_on_resume s) command_names]"

fun validate_sources ::
  "string set \<Rightarrow> string set \<Rightarrow> string set \<Rightarrow> source_config list \<Rightarrow> (config_error, unit) result" where
  "validate_sources account_names command_names source_names [] = Inr ()"
| "validate_sources account_names command_names source_names (s # rest) = and_then (first_error
     [validate_nonempty ''source name'' (source_name s),
      ensure (source_name s \<notin> source_names) (DuplicateSource (source_name s)),
      validate_source_kind account_names command_names s])
     (\<lambda>_. validate_sources account_names command_names (insert (source_name s) source_names) rest)"

definition validate_globals :: "config \<Rightarrow> (config_error, unit) result" where
  "validate_globals c = (let
       refresh = unwrap_or (idle_refresh_seconds c) DEFAULT_IDLE_REFRESH_SECONDS;
       stale = unwrap_or (watcher_stale_seconds c) DEFAULT_WATCHER_STALE_SECONDS;
       minimum_watcher_stale = saturating_mul64 refresh 2
     in first_error
      [ensure (source_count c \<noteq> 0) NoSource,
       validate_nonzero_seconds ''default_max_debounce_seconds''
         (unwrap_or (default_max_debounce_seconds c) DEFAULT_MAX_DEBOUNCE_SECONDS),
       validate_nonzero_seconds ''auth_helper_timeout_seconds''
         (unwrap_or (auth_helper_timeout_seconds c) DEFAULT_AUTH_HELPER_TIMEOUT_SECONDS),
       validate_nonzero_bytes ''auth_helper_max_output_bytes''
         (unwrap_or (auth_helper_max_output_bytes_opt c) DEFAULT_AUTH_HELPER_MAX_OUTPUT_BYTES),
       validate_nonzero_seconds ''command_timeout_seconds''
         (unwrap_or (command_timeout_seconds c) DEFAULT_COMMAND_TIMEOUT_SECONDS),
       validate_nonzero_bytes ''command_output_max_bytes''
         (unwrap_or (command_output_max_bytes_opt c) DEFAULT_COMMAND_OUTPUT_MAX_BYTES),
       validate_nonzero_count ''command_output_tail_lines''
         (unwrap_or (command_output_tail_lines_opt c) DEFAULT_COMMAND_OUTPUT_TAIL_LINES),
       validate_nonzero_seconds ''connect_timeout_seconds''
         (unwrap_or (connect_timeout_seconds c) DEFAULT_CONNECT_TIMEOUT_SECONDS),
       validate_nonzero_seconds ''imap_operation_timeout_seconds''
         (unwrap_or (imap_operation_timeout_seconds c) DEFAULT_IMAP_OPERATION_TIMEOUT_SECONDS),
       ensure (\<not> (capture_command_output_opt c \<noteq> None \<and> log_command_output_opt c \<noteq> None))
         BothOutputOptions,
       validate_nonzero_seconds ''idle_refresh_seconds'' refresh,
       ensure (60 \<le> refresh) (IdleRefreshTooSmall refresh),
       validate_nonzero_seconds ''watcher_stale_seconds'' stale,
       ensure (minimum_watcher_stale \<le> stale) (WatcherStaleTooSmall minimum_watcher_stale stale)])"

definition validate :: "config \<Rightarrow> (config_error, unit) result" where
  "validate c =
     and_then (validate_globals c) (\<lambda>_.
     and_then (validate_commands c) (\<lambda>command_names.
     and_then (validate_accounts command_names {} {} (accounts c)) (\<lambda>(account_names, source_names).
     validate_sources account_names command_names source_names (sources c))))"

text \<open>
  \<^verbatim>\<open>Config::parse_str\<close> and \<^verbatim>\<open>Config::load\<close>: \<open>from_str\<close> is the TOML decoder, which returns the
  byte offset of an error when it knows one.
\<close>

definition parse_toml ::
  "(string \<Rightarrow> (nat option, config) result) \<Rightarrow> string \<Rightarrow> string \<Rightarrow> (config_error, config) result" where
  "parse_toml from_str path contents = (case from_str contents of
     Inl start \<Rightarrow> Inl (ParseError path (map_option (line_column contents) start))
   | Inr c \<Rightarrow> Inr c)"

definition config_parse ::
  "(string \<Rightarrow> (nat option, config) result) \<Rightarrow> string \<Rightarrow> string \<Rightarrow> (config_error, config) result" where
  "config_parse from_str path contents =
     and_then (parse_toml from_str path contents) (\<lambda>c. and_then (validate c) (\<lambda>_. Inr c))"

definition config_load ::
  "(string \<Rightarrow> (nat option, config) result) \<Rightarrow> (string \<Rightarrow> string option) \<Rightarrow> string
     \<Rightarrow> (config_error, config) result" where
  "config_load from_str read_file path = (case read_file path of
     None \<Rightarrow> Inl (ReadError path)
   | Some contents \<Rightarrow> config_parse from_str path contents)"

text \<open>How the position of a parse error is shown.\<close>

fun show_parse_location :: "(nat \<times> nat) option \<Rightarrow> string" where
  "show_parse_location (Some (line, column)) = '' at line '' @ show_nat line @ '', column '' @ show_nat column"
| "show_parse_location None = []"

section \<open>Warnings\<close>

datatype config_warning =
  NoGlobalDebounce
| NoCommandCooldown
| LogOutputDeprecated
| CaptureOutputDeprecated
| DirectPassword string
| PlaintextImap string
| CertificatesUnverified string
| NoMailboxDebounce string string
| NoSourceDebounce string
| RecursiveWatch string
| NoResumeSettle string

definition warn_if :: "bool \<Rightarrow> config_warning \<Rightarrow> config_warning list" where
  "warn_if b w = (if b then [w] else [])"

definition account_warnings :: "account_config \<Rightarrow> config_warning list" where
  "account_warnings a =
     warn_if (ac_auth a = Password) (DirectPassword (ac_name a)) @
     warn_if (ac_insecure_plaintext a) (PlaintextImap (ac_name a)) @
     warn_if (ac_danger_accept_invalid_certs a) (CertificatesUnverified (ac_name a)) @
     concat (map (\<lambda>m. warn_if (mb_debounce_seconds m = Some 0) (NoMailboxDebounce (ac_name a) (mb_name m)))
       (ac_mailboxes a))"

fun source_warnings :: "source_config \<Rightarrow> config_warning list" where
  "source_warnings (ImapIdle s) = warn_if (ii_debounce_seconds s = Some 0) (NoSourceDebounce (ii_name s))"
| "source_warnings (GmailApiPoll s) = warn_if (gm_debounce_seconds s = Some 0) (NoSourceDebounce (gm_name s))"
| "source_warnings (FsState s) = warn_if (fs_debounce_seconds s = Some 0) (NoSourceDebounce (fs_name s)) @
     warn_if (recursive_watch s) (RecursiveWatch (fs_name s))"
| "source_warnings (SystemResume s) = warn_if (sr_settle_seconds s = Some 0) (NoResumeSettle (sr_name s))"

definition warn_for_insecure_options :: "config \<Rightarrow> config_warning list" where
  "warn_for_insecure_options c =
     warn_if (default_debounce_seconds c = Some 0) NoGlobalDebounce @
     warn_if (min_command_interval_seconds c = Some 0) NoCommandCooldown @
     warn_if (log_command_output_opt c \<noteq> None) LogOutputDeprecated @
     warn_if (capture_command_output_opt c \<noteq> None) CaptureOutputDeprecated @
     concat (map account_warnings (accounts c)) @ concat (map source_warnings (sources c))"

text \<open>An account that sends its password or mail in clear, or trusts any certificate, is named.\<close>

lemma insecure_account_warned:
  assumes "a \<in> set (accounts c)"
    "ac_insecure_plaintext a \<or> ac_danger_accept_invalid_certs a \<or> ac_auth a = Password"
  shows "\<exists>w \<in> set (warn_for_insecure_options c).
    w \<in> {DirectPassword (ac_name a), PlaintextImap (ac_name a), CertificatesUnverified (ac_name a)}"
proof -
  have "\<exists>w \<in> set (account_warnings a).
      w \<in> {DirectPassword (ac_name a), PlaintextImap (ac_name a), CertificatesUnverified (ac_name a)}"
    using assms(2) by (auto simp: account_warnings_def warn_if_def)
  moreover have "set (account_warnings a) \<subseteq> set (warn_for_insecure_options c)"
    using assms(1) by (auto simp: warn_for_insecure_options_def)
  ultimately show ?thesis by blast
qed

section \<open>What a valid configuration is\<close>

definition opt_ok :: "('a \<Rightarrow> bool) \<Rightarrow> 'a option \<Rightarrow> bool" where
  "opt_ok P x \<longleftrightarrow> (\<forall>v. x = Some v \<longrightarrow> P v)"

definition no_crlf :: "string \<Rightarrow> bool" where
  "no_crlf s \<longleftrightarrow> CR \<notin> set s \<and> LF \<notin> set s"

definition command_ok :: "command_config \<Rightarrow> bool" where
  "command_ok cc \<longleftrightarrow> \<not> blank (cc_name cc) \<and> \<not> blank (cc_cmd cc) \<and>
     opt_ok (\<lambda>l. \<not> blank l) (cc_lane cc) \<and> cc_timeout_seconds cc \<noteq> Some 0 \<and>
     cc_output_max_bytes cc \<noteq> Some 0 \<and> cc_output_tail_lines cc \<noteq> Some 0"

definition auth_ok :: "account_config \<Rightarrow> bool" where
  "auth_ok a \<longleftrightarrow>
     (ac_auth a = Xoauth2Cmd \<longrightarrow> (\<exists>v. ac_xoauth2_cmd a = Some v \<and> \<not> blank v) \<and>
        ac_password_cmd a = None \<and> ac_password a = None) \<and>
     (ac_auth a = PasswordCmd \<longrightarrow> (\<exists>v. ac_password_cmd a = Some v \<and> \<not> blank v) \<and>
        ac_xoauth2_cmd a = None \<and> ac_password a = None) \<and>
     (ac_auth a = Password \<longrightarrow> (\<exists>p. ac_password a = Some p \<and> no_crlf (expose_secret p)) \<and>
        ac_xoauth2_cmd a = None \<and> ac_password_cmd a = None)"

definition mailbox_ok :: "mailbox_config \<Rightarrow> bool" where
  "mailbox_ok m \<longleftrightarrow> \<not> blank (mb_name m) \<and> no_crlf (mb_name m) \<and> \<not> blank (mb_on_notify m)"

definition account_ok :: "account_config \<Rightarrow> bool" where
  "account_ok a \<longleftrightarrow> \<not> blank (ac_name a) \<and> \<not> blank (ac_host a) \<and> \<not> blank (ac_username a) \<and>
     no_crlf (ac_username a) \<and> port a \<noteq> 0 \<and> auth_ok a \<and> list_all mailbox_ok (ac_mailboxes a)"

fun source_command :: "source_config \<Rightarrow> string" where
  "source_command (ImapIdle s) = ii_on_event s"
| "source_command (GmailApiPoll s) = gm_on_event s"
| "source_command (FsState s) = fs_on_change s"
| "source_command (SystemResume s) = sr_on_resume s"

fun source_ok :: "string set \<Rightarrow> source_config \<Rightarrow> bool" where
  "source_ok account_names (ImapIdle s) \<longleftrightarrow> \<not> blank (ii_account s) \<and> \<not> blank (ii_mailbox s) \<and>
     no_crlf (ii_mailbox s) \<and> ii_account s \<in> account_names"
| "source_ok account_names (GmailApiPoll s) \<longleftrightarrow> \<not> blank (gm_token_cmd s) \<and>
     (\<forall>l \<in> set (gm_label_ids s). \<not> blank l \<and> no_crlf l) \<and>
     opt_ok (\<lambda>p. 10 \<le> p) (gm_poll_interval_seconds s) \<and> gm_api_timeout_seconds s \<noteq> Some 0 \<and>
     opt_ok (\<lambda>n. 1 \<le> n \<and> n \<le> 500) (gm_history_page_size s)"
| "source_ok account_names (FsState s) \<longleftrightarrow> fs_watch_paths s \<noteq> [] \<and> [] \<notin> set (fs_watch_paths s) \<and>
     opt_ok (\<lambda>c. \<not> blank c) (fs_state_cmd s) \<and> fs_max_debounce_seconds s \<noteq> Some 0"
| "source_ok account_names (SystemResume s) \<longleftrightarrow> True"

definition globals_ok :: "config \<Rightarrow> bool" where
  "globals_ok c \<longleftrightarrow> source_count c \<noteq> 0 \<and>
     default_max_debounce_seconds c \<noteq> Some 0 \<and> auth_helper_timeout_seconds c \<noteq> Some 0 \<and>
     auth_helper_max_output_bytes_opt c \<noteq> Some 0 \<and> command_timeout_seconds c \<noteq> Some 0 \<and>
     command_output_max_bytes_opt c \<noteq> Some 0 \<and> command_output_tail_lines_opt c \<noteq> Some 0 \<and>
     connect_timeout_seconds c \<noteq> Some 0 \<and> imap_operation_timeout_seconds c \<noteq> Some 0 \<and>
     (capture_command_output_opt c = None \<or> log_command_output_opt c = None) \<and>
     secs 60 \<le> idle_refresh c \<and>
     (2 * idle_refresh c \<le> config_watcher_stale c \<or> config_watcher_stale c = from_secs (- 1))"

text \<open>Every name that identifies something at run time is unambiguous, every reference resolves.\<close>

definition config_ok :: "config \<Rightarrow> bool" where
  "config_ok c \<longleftrightarrow> globals_ok c \<and>
     list_all command_ok (commands c) \<and> list_all account_ok (accounts c) \<and>
     distinct (map cc_name (commands c)) \<and> distinct (map ac_name (accounts c)) \<and>
     distinct (legacy_names c @ map source_name (sources c)) \<and>
     set (legacy_names c) \<inter> set (map cc_name (commands c)) = {} \<and>
     (\<forall>s \<in> set (sources c). \<not> blank (source_name s) \<and> \<not> blank (source_command s) \<and>
        source_command s \<in> set (map cc_name (commands c)) \<and>
        source_ok (set (map ac_name (accounts c))) s)"

end
