(* ===== verification/Configuration_Valid.thy ===== *)
theory Configuration_Valid
  imports Configuration
begin

text \<open>
  Correctness of \<open>validate\<close>: it accepts exactly the configurations of \<open>config_ok\<close>, a
  declarative description without order or accumulators, and what follows for the run-time
  names (commands, lanes, watchers) the daemon builds from a valid configuration.
\<close>

lemma list_ex_crlf [simp]: "list_ex is_crlf s \<longleftrightarrow> \<not> no_crlf s"
  by (auto simp: list_ex_iff no_crlf_def is_crlf_def)

lemma if_some_Inr [simp]: "if_some x f = Inr u \<longleftrightarrow> (\<forall>v. x = Some v \<longrightarrow> f v = Inr ())"
  by (auto simp: if_some_def split: option.split)

lemmas check_defs =
  validate_nonempty_def validate_command_reference_def validate_no_crlf_def
  validate_nonzero_seconds_def validate_nonzero_bytes_def validate_nonzero_count_def

lemma require_cmd_Inr [simp]:
  "require_cmd v f a m = Inr u \<longleftrightarrow> (\<exists>c. v = Some c \<and> \<not> blank c)"
  by (auto simp: require_cmd_def split: option.split)

lemma forbid_field_Inr [simp]: "forbid_field v f a m = Inr u \<longleftrightarrow> v = None"
  by (simp add: forbid_field_def)

lemma validate_auth_iff [simp]: "validate_auth a = Inr u \<longleftrightarrow> auth_ok a"
  by (cases "ac_auth a") (auto simp: validate_auth_def auth_ok_def check_defs split: option.split)

lemma validate_commands_from_iff:
  "validate_commands_from names ccs = Inr names' \<longleftrightarrow>
     list_all command_ok ccs \<and> distinct (map cc_name ccs) \<and>
     set (map cc_name ccs) \<inter> names = {} \<and> names' = names \<union> set (map cc_name ccs)"
proof (induction ccs arbitrary: names)
  case Nil
  then show ?case by auto
next
  case (Cons cc ccs)
  have "validate_commands_from names (cc # ccs) = Inr names' \<longleftrightarrow>
     command_ok cc \<and> cc_name cc \<notin> names \<and>
     validate_commands_from (insert (cc_name cc) names) ccs = Inr names'"
    by (auto simp: check_defs command_ok_def opt_ok_def)
  with Cons.IH [of "insert (cc_name cc) names"] show ?case by auto
qed

lemma legacy_source_name_inj [simp]:
  "legacy_source_name a m = legacy_source_name a m' \<longleftrightarrow> m = m'"
  by (simp add: legacy_source_name_def)

definition mailbox_sources :: "account_config \<Rightarrow> mailbox_config list \<Rightarrow> string list" where
  "mailbox_sources a ms = map (\<lambda>m. legacy_source_name (ac_name a) (mb_name m)) ms"

lemma mailbox_sources_simps [simp]:
  "mailbox_sources a [] = []"
  "mailbox_sources a (m # ms) = legacy_source_name (ac_name a) (mb_name m) # mailbox_sources a ms"
  by (simp_all add: mailbox_sources_def)

lemma mailbox_names_fresh:
  "legacy_source_name (ac_name a) n \<in> set (mailbox_sources a ms) \<longleftrightarrow> n \<in> set (map mb_name ms)"
  by (auto simp: mailbox_sources_def)

lemma validate_mailboxes_iff:
  "validate_mailboxes cn a sn mn ms = Inr sn' \<longleftrightarrow>
     list_all mailbox_ok ms \<and> distinct (mailbox_sources a ms) \<and>
     set (mailbox_sources a ms) \<inter> (cn \<union> sn) = {} \<and> set (map mb_name ms) \<inter> mn = {} \<and>
     sn' = sn \<union> set (mailbox_sources a ms)"
proof (induction ms arbitrary: sn mn)
  case Nil
  then show ?case by auto
next
  case (Cons m ms)
  let ?s = "legacy_source_name (ac_name a) (mb_name m)"
  have "validate_mailboxes cn a sn mn (m # ms) = Inr sn' \<longleftrightarrow>
     mailbox_ok m \<and> ?s \<notin> cn \<and> ?s \<notin> sn \<and> mb_name m \<notin> mn \<and>
     validate_mailboxes cn a (insert ?s sn) (insert (mb_name m) mn) ms = Inr sn'"
    by (auto simp: check_defs mailbox_ok_def Let_def)
  moreover have "?s \<notin> set (mailbox_sources a ms) \<longleftrightarrow> mb_name m \<notin> set (map mb_name ms)"
    by (simp only: mailbox_names_fresh)
  ultimately show ?case using Cons.IH [of "insert ?s sn" "insert (mb_name m) mn"] by auto
qed

definition account_sources :: "account_config list \<Rightarrow> string list" where
  "account_sources as = concat (map (\<lambda>a. mailbox_sources a (ac_mailboxes a)) as)"

lemma account_sources_simps [simp]:
  "account_sources [] = []"
  "account_sources (a # as) = mailbox_sources a (ac_mailboxes a) @ account_sources as"
  by (simp_all add: account_sources_def)

lemma legacy_names_eq: "legacy_names c = account_sources (accounts c)"
  by (simp add: legacy_names_def account_sources_def mailbox_sources_def)

definition account_head_ok :: "account_config \<Rightarrow> bool" where
  "account_head_ok a \<longleftrightarrow> \<not> blank (ac_name a) \<and> \<not> blank (ac_host a) \<and>
     \<not> blank (ac_username a) \<and> no_crlf (ac_username a) \<and> port a \<noteq> 0 \<and> auth_ok a"

lemma account_ok_split: "account_ok a \<longleftrightarrow> account_head_ok a \<and> list_all mailbox_ok (ac_mailboxes a)"
  by (auto simp: account_ok_def account_head_ok_def)

lemma fresh_sets_step:
  "(A \<and> x \<notin> an \<and> dM \<and> M \<inter> (cn \<union> sn) = {} \<and> L \<and> dN \<and> N \<inter> insert x an = {} \<and> dS \<and>
      S \<inter> (cn \<union> (sn \<union> M)) = {} \<and> an' = insert x an \<union> N \<and> sn' = sn \<union> M \<union> S)
   \<longleftrightarrow> ((A \<and> L) \<and> (x \<notin> N \<and> dN) \<and> insert x N \<inter> an = {} \<and> (dM \<and> dS \<and> M \<inter> S = {}) \<and>
      (M \<union> S) \<inter> (cn \<union> sn) = {} \<and> an' = an \<union> insert x N \<and> sn' = sn \<union> (M \<union> S))"
proof -
  have "insert x an \<union> N = an \<union> insert x N" "sn \<union> M \<union> S = sn \<union> (M \<union> S)" by auto
  moreover have "N \<inter> insert x an = {} \<longleftrightarrow> x \<notin> N \<and> N \<inter> an = {}"
    "insert x N \<inter> an = {} \<longleftrightarrow> x \<notin> an \<and> N \<inter> an = {}"
    "S \<inter> (cn \<union> (sn \<union> M)) = {} \<longleftrightarrow> S \<inter> (cn \<union> sn) = {} \<and> M \<inter> S = {}"
    "(M \<union> S) \<inter> (cn \<union> sn) = {} \<longleftrightarrow> M \<inter> (cn \<union> sn) = {} \<and> S \<inter> (cn \<union> sn) = {}" by auto
  ultimately show ?thesis by (simp only: conj_ac)
qed

lemma validate_accounts_iff:
  "validate_accounts cn an sn as = Inr (an', sn') \<longleftrightarrow>
     list_all account_ok as \<and> distinct (map ac_name as) \<and> set (map ac_name as) \<inter> an = {} \<and>
     distinct (account_sources as) \<and> set (account_sources as) \<inter> (cn \<union> sn) = {} \<and>
     an' = an \<union> set (map ac_name as) \<and> sn' = sn \<union> set (account_sources as)"
proof (induction as arbitrary: an sn)
  case Nil
  then show ?case by auto
next
  case (Cons a as)
  let ?ms = "mailbox_sources a (ac_mailboxes a)"
  have "validate_accounts cn an sn (a # as) = Inr (an', sn') \<longleftrightarrow>
     account_head_ok a \<and> ac_name a \<notin> an \<and>
     (\<exists>sn1. validate_mailboxes cn a sn {} (ac_mailboxes a) = Inr sn1 \<and>
        validate_accounts cn (insert (ac_name a) an) sn1 as = Inr (an', sn'))"
    by (simp add: check_defs account_head_ok_def conj_ac del: first_error.simps)
  also have "\<dots> \<longleftrightarrow> account_ok a \<and> ac_name a \<notin> an \<and> distinct ?ms \<and> set ?ms \<inter> (cn \<union> sn) = {} \<and>
     validate_accounts cn (insert (ac_name a) an) (sn \<union> set ?ms) as = Inr (an', sn')"
    by (simp add: validate_mailboxes_iff account_ok_split) blast
  finally show ?case
    unfolding Cons.IH [of "insert (ac_name a) an" "sn \<union> set ?ms"] fresh_sets_step
    by (simp only: list.pred_inject list.simps distinct.simps account_sources_simps
        distinct_append set_append)
qed

lemma page_size_word: "ucast n = (0::u64) \<longleftrightarrow> n = 0" for n :: u32
proof -
  have "unat n < 2 ^ 64" using unsigned_less [of n, where ?'a = nat] by simp
  then have "take_bit 64 (unat n) = unat n" by (simp add: take_bit_nat_eq_self_iff)
  then show ?thesis by (simp add: unat_eq_0 [symmetric] unsigned_ucast_eq)
qed

lemma unwrap_default_nonzero: "d \<noteq> 0 \<Longrightarrow> unwrap_or x d \<noteq> 0 \<longleftrightarrow> x \<noteq> Some 0"
  by (cases x) auto

lemma from_secs_le: "from_secs a \<le> from_secs b \<longleftrightarrow> a \<le> b"
  by (simp add: from_secs_def word_le_nat_alt)

lemma refresh_bound: "secs 60 \<le> from_secs r \<longleftrightarrow> 60 \<le> r"
  by (simp add: from_secs_def secs_def word_le_nat_alt)

lemma stale_bound:
  "2 * from_secs r \<le> from_secs s \<or> from_secs s = from_secs (- 1) \<longleftrightarrow> saturating_mul64 r 2 \<le> s"
proof -
  have s: "unat s \<le> 2 ^ 64 - 1" using unsigned_less [of s, where ?'a = nat] by simp
  have m: "unat (- 1 :: u64) = 2 ^ 64 - 1" by (simp add: unsigned_minus_1_eq_mask mask_eq_exp_minus_1)
  have "2 * from_secs r \<le> from_secs s \<longleftrightarrow> 2 * unat r \<le> unat s" by (simp add: from_secs_def)
  moreover have "from_secs s = from_secs (- 1) \<longleftrightarrow> unat s = 2 ^ 64 - 1"
    by (simp add: from_secs_def m)
  moreover have "saturating_mul64 r 2 \<le> s \<longleftrightarrow> min (unat r * 2) (2 ^ 64 - 1) \<le> unat s"
    unfolding word_le_nat_alt unat_saturating_mul64 by simp
  moreover have "min (unat r * 2) (2 ^ 64 - 1) \<le> unat s
      \<longleftrightarrow> 2 * unat r \<le> unat s \<or> unat s = 2 ^ 64 - 1"
    using s by (auto simp: min_def)
  ultimately show ?thesis by blast
qed

lemma validate_globals_iff: "validate_globals c = Inr u \<longleftrightarrow> globals_ok c"
proof -
  let ?r = "unwrap_or (idle_refresh_seconds c) DEFAULT_IDLE_REFRESH_SECONDS"
  let ?s = "unwrap_or (watcher_stale_seconds c) DEFAULT_WATCHER_STALE_SECONDS"
  have r: "60 \<le> ?r \<Longrightarrow> ?r \<noteq> 0" by auto
  have s: "?s \<noteq> 0" if "60 \<le> ?r" "saturating_mul64 ?r 2 \<le> ?s"
  proof
    assume "?s = 0"
    with that stale_bound [of ?r ?s] refresh_bound [of ?r] show False
      by (auto simp: from_secs_def secs_def unat_eq_0)
  qed
  have rs: "?r \<noteq> 0 \<and> 60 \<le> ?r \<and> ?s \<noteq> 0 \<and> saturating_mul64 ?r 2 \<le> ?s
    \<longleftrightarrow> 60 \<le> ?r \<and> saturating_mul64 ?r 2 \<le> ?s" using r s by blast
  have opts: "\<not> (capture_command_output_opt c \<noteq> None \<and> log_command_output_opt c \<noteq> None)
     \<longleftrightarrow> capture_command_output_opt c = None \<or> log_command_output_opt c = None" by simp
  have nz: "unwrap_or x DEFAULT_MAX_DEBOUNCE_SECONDS \<noteq> 0 \<longleftrightarrow> x \<noteq> Some 0"
    "unwrap_or x DEFAULT_AUTH_HELPER_TIMEOUT_SECONDS \<noteq> 0 \<longleftrightarrow> x \<noteq> Some 0"
    "unwrap_or y DEFAULT_AUTH_HELPER_MAX_OUTPUT_BYTES \<noteq> 0 \<longleftrightarrow> y \<noteq> Some 0"
    "unwrap_or x DEFAULT_COMMAND_TIMEOUT_SECONDS \<noteq> 0 \<longleftrightarrow> x \<noteq> Some 0"
    "unwrap_or y DEFAULT_COMMAND_OUTPUT_MAX_BYTES \<noteq> 0 \<longleftrightarrow> y \<noteq> Some 0"
    "unwrap_or y DEFAULT_COMMAND_OUTPUT_TAIL_LINES \<noteq> 0 \<longleftrightarrow> y \<noteq> Some 0"
    "unwrap_or x DEFAULT_CONNECT_TIMEOUT_SECONDS \<noteq> 0 \<longleftrightarrow> x \<noteq> Some 0"
    "unwrap_or x DEFAULT_IMAP_OPERATION_TIMEOUT_SECONDS \<noteq> 0 \<longleftrightarrow> x \<noteq> Some 0" for x y
    by (rule unwrap_default_nonzero; simp add: DEFAULT_MAX_DEBOUNCE_SECONDS_def
        DEFAULT_AUTH_HELPER_TIMEOUT_SECONDS_def DEFAULT_AUTH_HELPER_MAX_OUTPUT_BYTES_def
        DEFAULT_COMMAND_TIMEOUT_SECONDS_def DEFAULT_COMMAND_OUTPUT_MAX_BYTES_def
        DEFAULT_COMMAND_OUTPUT_TAIL_LINES_def DEFAULT_CONNECT_TIMEOUT_SECONDS_def
        DEFAULT_IMAP_OPERATION_TIMEOUT_SECONDS_def)+
  have "validate_globals c = Inr u \<longleftrightarrow> source_count c \<noteq> 0 \<and>
     default_max_debounce_seconds c \<noteq> Some 0 \<and> auth_helper_timeout_seconds c \<noteq> Some 0 \<and>
     auth_helper_max_output_bytes_opt c \<noteq> Some 0 \<and> command_timeout_seconds c \<noteq> Some 0 \<and>
     command_output_max_bytes_opt c \<noteq> Some 0 \<and> command_output_tail_lines_opt c \<noteq> Some 0 \<and>
     connect_timeout_seconds c \<noteq> Some 0 \<and> imap_operation_timeout_seconds c \<noteq> Some 0 \<and>
     (capture_command_output_opt c = None \<or> log_command_output_opt c = None) \<and>
     ?r \<noteq> 0 \<and> 60 \<le> ?r \<and> ?s \<noteq> 0 \<and> saturating_mul64 ?r 2 \<le> ?s"
    unfolding validate_globals_def Let_def check_defs first_error_Inr
    by (simp only: list.set ball_simps insert_iff ensure_Inr nz opts simp_thms)
  then show ?thesis
    unfolding rs globals_ok_def idle_refresh_def config_watcher_stale_def stale_bound refresh_bound .
qed

lemma poll_check_Inr:
  "first_error [validate_nonzero_seconds f p, ensure (10 \<le> p) e] = Inr () \<longleftrightarrow> 10 \<le> p"
proof -
  have "10 \<le> p \<Longrightarrow> p \<noteq> 0" by auto
  then show ?thesis by (auto simp: check_defs)
qed

lemma page_check_Inr:
  "first_error [validate_nonzero_count f (ucast n), ensure (n \<le> 500) e] = Inr ()
     \<longleftrightarrow> 1 \<le> n \<and> n \<le> (500::u32)"
proof -
  have "n \<noteq> 0 \<longleftrightarrow> 1 \<le> n" by (simp add: word_le_nat_alt unat_eq_0 [symmetric] Suc_le_eq)
  then show ?thesis by (simp add: check_defs page_size_word)
qed

lemma validate_source_kind_iff:
  "validate_source_kind an cn s = Inr u \<longleftrightarrow>
     \<not> blank (source_command s) \<and> source_command s \<in> cn \<and> source_ok an s"
proof (cases s)
  case (GmailApiPoll g)
  have labels: "(\<forall>r \<in> set (concat (map (\<lambda>l. [validate_nonempty ''source label_ids'' l,
       validate_no_crlf ''source label_ids'' l]) ls)). r = Inr ())
     \<longleftrightarrow> (\<forall>l \<in> set ls. \<not> blank l \<and> no_crlf l)" for ls
    by (induction ls) (auto simp: check_defs)
  have nz: "validate_nonzero_seconds f p = Inr () \<longleftrightarrow> p \<noteq> 0" for f p by (simp add: check_defs)
  show ?thesis
    unfolding GmailApiPoll validate_source_kind.simps first_error_Inr set_append ball_Un labels
    unfolding list.set ball_simps insert_iff if_some_Inr poll_check_Inr page_check_Inr nz
    by (auto simp: check_defs opt_ok_def)
qed (auto simp: check_defs opt_ok_def ball_Un)

lemma validate_sources_iff:
  "validate_sources an cn sn ss = Inr u \<longleftrightarrow>
     distinct (map source_name ss) \<and> set (map source_name ss) \<inter> sn = {} \<and>
     (\<forall>s \<in> set ss. \<not> blank (source_name s) \<and> \<not> blank (source_command s) \<and>
        source_command s \<in> cn \<and> source_ok an s)"
proof (induction ss arbitrary: sn)
  case Nil
  then show ?case by simp
next
  case (Cons s ss)
  have "validate_sources an cn sn (s # ss) = Inr u \<longleftrightarrow>
     \<not> blank (source_name s) \<and> source_name s \<notin> sn \<and>
     (\<not> blank (source_command s) \<and> source_command s \<in> cn \<and> source_ok an s) \<and>
     validate_sources an cn (insert (source_name s) sn) ss = Inr u"
    by (auto simp: check_defs validate_source_kind_iff)
  with Cons.IH [of "insert (source_name s) sn"] show ?case by auto
qed

lemma validate_iff: "validate c = Inr u \<longleftrightarrow> config_ok c"
proof -
  have "validate c = Inr u \<longleftrightarrow> globals_ok c \<and>
     (list_all command_ok (commands c) \<and> distinct (map cc_name (commands c))) \<and>
     (list_all account_ok (accounts c) \<and> distinct (map ac_name (accounts c)) \<and>
      distinct (legacy_names c) \<and> set (legacy_names c) \<inter> set (map cc_name (commands c)) = {}) \<and>
     distinct (map source_name (sources c)) \<and>
     set (map source_name (sources c)) \<inter> set (legacy_names c) = {} \<and>
     (\<forall>s \<in> set (sources c). \<not> blank (source_name s) \<and> \<not> blank (source_command s) \<and>
        source_command s \<in> set (map cc_name (commands c)) \<and>
        source_ok (set (map ac_name (accounts c))) s)"
    unfolding validate_def
    by (auto simp: validate_globals_iff validate_commands_def validate_commands_from_iff
        validate_accounts_iff validate_sources_iff legacy_names_eq simp del: validate_sources.simps)
  then show ?thesis unfolding config_ok_def distinct_append by (simp only: conj_ac Int_commute)
qed

section \<open>Positions of parse errors\<close>

text \<open>The scalars after the last line feed of a text.\<close>

definition last_line :: "string \<Rightarrow> string" where
  "last_line s = rev (takeWhile (\<lambda>c. c \<noteq> LF) (rev s))"

lemma scalar_start_LF: "scalar_start LF"
  by (simp add: scalar_start_def cont_byte_def LF_def)

lemma last_line_snoc: "last_line (s @ [c]) = (if c = LF then [] else last_line s @ [c])"
  by (simp add: last_line_def)

lemma last_line_Cons:
  "last_line (c # s) = (if LF \<in> set s then last_line s else if c = LF then s else c # s)"
  by (induction s rule: rev_induct) (auto simp: last_line_snoc last_line_def)

lemma last_line_no_LF: "LF \<notin> set s \<Longrightarrow> last_line s = s"
  by (induction s rule: rev_induct) (auto simp: last_line_def)

lemma line_column_from_spec:
  "line_column_from s i n l c =
     (let p = take (n - i) s; lf = count_list p LF; k = length (filter scalar_start (last_line p))
      in (l + lf, if lf = 0 then c + k else 1 + k))"
proof (induction s arbitrary: i l c)
  case Nil
  then show ?case by (simp add: last_line_def)
next
  case (Cons ch s)
  show ?case
  proof (cases "n \<le> i")
    case True
    then have "line_column_from s (Suc i) n l c = (l, c)"
      unfolding Cons.IH by (simp add: last_line_def)
    with True show ?thesis by (simp add: last_line_def)
  next
    case False
    then obtain m where m: "n - i = Suc m" "n - Suc i = m" by (metis Suc_diff_Suc not_le)
    have LF0: "count_list p LF = 0 \<longleftrightarrow> LF \<notin> set p" for p :: string
      by (simp add: count_list_0_iff)
    show ?thesis
      using False scalar_start_LF
      by (auto simp: m Cons.IH Let_def last_line_Cons LF0 last_line_no_LF)
  qed
qed

section \<open>Properties\<close>

text \<open>
  C24. Validation is exact: \<open>validate\<close>, with its loops, accumulators and first-error order,
  accepts a configuration if and only if it satisfies the declarative description
  \<open>config_ok\<close> (bounds of the global settings, well-formed accounts and commands, unambiguous
  run-time names, references that resolve).
\<close>

theorem validate_exact: "validate c = Inr () \<longleftrightarrow> config_ok c"
  by (rule validate_iff)

text \<open>
  A parse error is reported where it is: for a byte offset \<open>n\<close>, \<open>line_column\<close> returns one
  plus the line feeds before it, and one plus the Unicode scalars between the last of them
  and the offset, also when the offset is past the end or inside a scalar.
\<close>

lemma line_column_exact:
  "line_column s n = (1 + count_list (take n s) LF,
     1 + length (filter scalar_start (last_line (take n s))))"
  by (simp add: line_column_def line_column_from_spec Let_def)

end
