(* ===== verification/Pending_Requests.thy ===== *)
theory Pending_Requests
  imports Runtime_State
begin

text \<open>
  The queue of a command lane (\<^verbatim>\<open>PendingRequests\<close> in \<^verbatim>\<open>src/src/lane.rs\<close>): the commands to run
  in arrival order, and per command the waiters whose requests one run will serve. The
  locale \<open>request_queue\<close> is its contract towards the lane: a first-in first-out list of
  commands in which a repeated request joins the entry already waiting. A waiter is the
  sending half of a lifecycle channel, identified by a number.
\<close>

type_synonym waiter = nat

section \<open>The data structure\<close>

record pending_requests =
  pr_order :: "string list"
  pr_waiters :: "(string \<times> waiter list) list"

definition pr_default :: pending_requests where
  "pr_default = \<lparr>pr_order = [], pr_waiters = []\<rparr>"

definition pr_is_empty :: "pending_requests \<Rightarrow> bool" where
  "pr_is_empty p \<longleftrightarrow> pr_waiters p = []"

definition pr_push :: "string \<Rightarrow> waiter \<Rightarrow> pending_requests \<Rightarrow> pending_requests" where
  "pr_push command lifecycle p = (case map_of (pr_waiters p) command of
     Some ws \<Rightarrow> p\<lparr>pr_waiters := AList.update command (ws @ [lifecycle]) (pr_waiters p)\<rparr>
   | None \<Rightarrow> p\<lparr>pr_order := pr_order p @ [command],
              pr_waiters := AList.update command [lifecycle] (pr_waiters p)\<rparr>)"

fun pop_from :: "string list \<Rightarrow> (string \<times> waiter list) list \<Rightarrow> string option \<times> string list" where
  "pop_from [] ws = (None, [])"
| "pop_from (command # order) ws =
     (if map_of ws command \<noteq> None then (Some command, order) else pop_from order ws)"

definition pop_next_command :: "pending_requests \<Rightarrow> string option \<times> pending_requests" where
  "pop_next_command p = (case pop_from (pr_order p) (pr_waiters p) of
     (r, order) \<Rightarrow> (r, p\<lparr>pr_order := order\<rparr>))"

definition take_waiters :: "string \<Rightarrow> pending_requests \<Rightarrow> waiter list \<times> pending_requests" where
  "take_waiters command p =
     ((case map_of (pr_waiters p) command of Some ws \<Rightarrow> ws | None \<Rightarrow> []),
      p\<lparr>pr_waiters := AList.delete command (pr_waiters p)\<rparr>)"

definition drain_requests :: "(string \<times> waiter) list \<Rightarrow> pending_requests \<Rightarrow> pending_requests" where
  "drain_requests requests p = fold (\<lambda>(c, w). pr_push c w) requests p"

section \<open>The contract\<close>

fun coalesce :: "string \<Rightarrow> waiter \<Rightarrow> (string \<times> waiter list) list \<Rightarrow> (string \<times> waiter list) list" where
  "coalesce c w [] = [(c, [w])]"
| "coalesce c w ((d, ws) # q) = (if c = d then (d, ws @ [w]) # q else (d, ws) # coalesce c w q)"

definition coalesce_all ::
  "(string \<times> waiter) list \<Rightarrow> (string \<times> waiter list) list \<Rightarrow> (string \<times> waiter list) list" where
  "coalesce_all requests q = fold (\<lambda>(c, w). coalesce c w) requests q"

definition queued :: "(string \<times> waiter list) list \<Rightarrow> waiter list" where
  "queued q = concat (map snd q)"

lemma coalesce_keys:
  "map fst (coalesce c w q) = (if c \<in> fst ` set q then map fst q else map fst q @ [c])"
  by (induction c w q rule: coalesce.induct) auto

lemma coalesce_distinct: "distinct (map fst q) \<Longrightarrow> distinct (map fst (coalesce c w q))"
  by (auto simp: coalesce_keys)

lemma mset_queued_coalesce: "mset (queued (coalesce c w q)) = add_mset w (mset (queued q))"
  by (induction c w q rule: coalesce.induct) (auto simp: queued_def)

lemma coalesce_all_distinct:
  "distinct (map fst q) \<Longrightarrow> distinct (map fst (coalesce_all rs q))"
  by (induction rs arbitrary: q) (auto simp: coalesce_all_def coalesce_distinct)

lemma mset_queued_coalesce_all:
  "mset (queued (coalesce_all rs q)) = mset (map snd rs) + mset (queued q)"
  by (induction rs arbitrary: q) (auto simp: coalesce_all_def mset_queued_coalesce)

lemma coalesce_all_keys:
  "fst ` set (coalesce_all rs q) = fst ` set q \<union> fst ` set rs"
proof (induction rs arbitrary: q)
  case (Cons r rs)
  have "fst ` set (coalesce c w q) = insert c (fst ` set q)" for c w
    using coalesce_keys [of c w q] by (metis Un_insert_right insert_absorb list.set_map set_append
        list.simps(15) set_empty sup_bot_right)
  with Cons show ?case by (cases r) (simp add: coalesce_all_def)
qed (simp add: coalesce_all_def)

locale request_queue =
  fixes empty :: 'q
    and is_empty :: "'q \<Rightarrow> bool"
    and push :: "string \<Rightarrow> waiter \<Rightarrow> 'q \<Rightarrow> 'q"
    and pop :: "'q \<Rightarrow> string option \<times> 'q"
    and take :: "string \<Rightarrow> 'q \<Rightarrow> waiter list \<times> 'q"
    and ok :: "'q \<Rightarrow> bool"
    and view :: "'q \<Rightarrow> (string \<times> waiter list) list"
  assumes ok_empty: "ok empty" and view_empty: "view empty = []"
    and is_empty_iff: "ok q \<Longrightarrow> is_empty q \<longleftrightarrow> view q = []"
    and view_distinct: "ok q \<Longrightarrow> distinct (map fst (view q))"
    and ok_push: "ok q \<Longrightarrow> ok (push c w q)"
    and view_push: "ok q \<Longrightarrow> view (push c w q) = coalesce c w (view q)"
    and pop_empty: "\<lbrakk>ok q; view q = []\<rbrakk> \<Longrightarrow> \<exists>q'. pop q = (None, q') \<and> ok q' \<and> view q' = []"
    and pop_take: "\<lbrakk>ok q; view q = (c, ws) # rest\<rbrakk>
      \<Longrightarrow> \<exists>q1 q2. pop q = (Some c, q1) \<and> take c q1 = (ws, q2) \<and> ok q2 \<and> view q2 = rest"
begin

lemma push_all_ok: "ok q \<Longrightarrow> ok (fold (\<lambda>(c, w). push c w) rs q)"
  by (induction rs arbitrary: q) (auto simp: ok_push)

lemma push_all_view: "ok q \<Longrightarrow> view (fold (\<lambda>(c, w). push c w) rs q) = coalesce_all rs (view q)"
  by (induction rs arbitrary: q) (auto simp: ok_push view_push coalesce_all_def)

text \<open>Popping and taking never loses or invents a waiter.\<close>

lemma pop_cases:
  assumes "ok q"
  obtains (none) q' where "pop q = (None, q')" "ok q'" "view q' = []" "view q = []"
  | (some) c ws q1 q2 where "pop q = (Some c, q1)" "take c q1 = (ws, q2)" "ok q2"
      "view q = (c, ws) # view q2"
proof (cases "view q")
  case Nil
  with pop_empty [OF assms] that(1) show ?thesis by blast
next
  case (Cons e rest)
  obtain c ws where "e = (c, ws)" by (cases e)
  with Cons pop_take [OF assms, of c ws rest] that(2) show ?thesis by auto
qed

end

section \<open>The lane's queue keeps the contract\<close>

definition pr_ok :: "pending_requests \<Rightarrow> bool" where
  "pr_ok p \<longleftrightarrow> distinct (pr_order p) \<and> distinct (map fst (pr_waiters p)) \<and>
     set (pr_order p) = fst ` set (pr_waiters p)"

definition pr_view :: "pending_requests \<Rightarrow> (string \<times> waiter list) list" where
  "pr_view p = map (\<lambda>c. (c, the (map_of (pr_waiters p) c))) (pr_order p)"

lemma coalesce_fresh: "c \<notin> fst ` set q \<Longrightarrow> coalesce c w q = q @ [(c, [w])]"
  by (induction c w q rule: coalesce.induct) auto

lemma coalesce_map:
  "\<lbrakk>distinct order; c \<in> set order\<rbrakk>
   \<Longrightarrow> coalesce c w (map (\<lambda>d. (d, f d)) order) = map (\<lambda>d. (d, if d = c then f d @ [w] else f d)) order"
  by (induction order) (auto intro!: map_cong)

lemma map_of_in_keys: "map_of xs c \<noteq> None \<longleftrightarrow> c \<in> fst ` set xs"
  by (simp add: map_of_eq_None_iff)

lemma pr_push_ok: "pr_ok p \<Longrightarrow> pr_ok (pr_push c w p)"
  using map_of_in_keys [of "pr_waiters p" c]
  by (auto simp: pr_ok_def pr_push_def distinct_update dom_update split: option.split)

lemma pr_push_view:
  assumes "pr_ok p"
  shows "pr_view (pr_push c w p) = coalesce c w (pr_view p)"
proof (cases "map_of (pr_waiters p) c")
  case None
  then have "c \<notin> set (pr_order p)" using assms map_of_in_keys [of "pr_waiters p" c]
    by (simp add: pr_ok_def)
  with None show ?thesis
    by (auto simp: pr_view_def pr_push_def update_conv' coalesce_fresh image_def)
next
  case (Some ws)
  then have "c \<in> set (pr_order p)" using assms map_of_in_keys [of "pr_waiters p" c]
    by (simp add: pr_ok_def)
  with Some assms show ?thesis
    by (auto simp: pr_view_def pr_push_def update_conv' coalesce_map pr_ok_def intro!: map_cong)
qed

lemma pop_from_present:
  "set order \<subseteq> fst ` set ws \<Longrightarrow> pop_from order ws =
     (case order of [] \<Rightarrow> (None, []) | c # rest \<Rightarrow> (Some c, rest))"
  using map_of_in_keys [of ws] by (cases order) auto

interpretation pq: request_queue pr_default pr_is_empty pr_push pop_next_command take_waiters pr_ok pr_view
proof unfold_locales
  show "pr_ok pr_default" "pr_view pr_default = []"
    by (simp_all add: pr_ok_def pr_view_def pr_default_def)
next
  fix q assume "pr_ok q"
  then show "pr_is_empty q \<longleftrightarrow> pr_view q = []"
    by (auto simp: pr_is_empty_def pr_view_def pr_ok_def)
  from \<open>pr_ok q\<close> show "distinct (map fst (pr_view q))"
    by (simp add: pr_ok_def pr_view_def o_def)
  fix c w
  from \<open>pr_ok q\<close> show "pr_ok (pr_push c w q)" by (rule pr_push_ok)
  from \<open>pr_ok q\<close> show "pr_view (pr_push c w q) = coalesce c w (pr_view q)" by (rule pr_push_view)
next
  fix q assume "pr_ok q" "pr_view q = []"
  then show "\<exists>q'. pop_next_command q = (None, q') \<and> pr_ok q' \<and> pr_view q' = []"
    by (auto simp: pop_next_command_def pr_ok_def pr_view_def)
next
  fix q c ws rest
  assume ok: "pr_ok q" and view: "pr_view q = (c, ws) # rest"
  from view obtain order where order: "pr_order q = c # order"
    and ws: "ws = the (map_of (pr_waiters q) c)"
    and rest: "rest = map (\<lambda>d. (d, the (map_of (pr_waiters q) d))) order"
    by (auto simp: pr_view_def)
  let ?q2 = "q\<lparr>pr_order := order, pr_waiters := AList.delete c (pr_waiters q)\<rparr>"
  have c: "c \<in> fst ` set (pr_waiters q)" "c \<notin> set order" "distinct order"
    using ok order by (auto simp: pr_ok_def)
  then obtain vs where vs: "map_of (pr_waiters q) c = Some vs"
    using map_of_in_keys [of "pr_waiters q" c] by auto
  have "pop_next_command q = (Some c, q\<lparr>pr_order := order\<rparr>)"
    using vs by (simp add: pop_next_command_def order)
  moreover have "take_waiters c (q\<lparr>pr_order := order\<rparr>) = (ws, ?q2)"
    using vs ws by (simp add: take_waiters_def)
  moreover have "pr_ok ?q2"
  proof -
    have keys: "map fst (AList.delete c (pr_waiters q)) = removeAll c (map fst (pr_waiters q))"
      by (rule delete_keys)
    then have "fst ` set (AList.delete c (pr_waiters q)) = fst ` set (pr_waiters q) - {c}"
      by (metis list.set_map set_removeAll)
    moreover have "distinct (map fst (AList.delete c (pr_waiters q)))"
      using ok by (simp add: keys pr_ok_def distinct_removeAll)
    ultimately show ?thesis using ok order c by (auto simp: pr_ok_def)
  qed
  moreover have "pr_view ?q2 = rest"
    using c(2) by (auto simp: pr_view_def rest delete_conv' intro!: map_cong)
  ultimately show "\<exists>q1 q2. pop_next_command q = (Some c, q1) \<and> take_waiters c q1 = (ws, q2)
      \<and> pr_ok q2 \<and> pr_view q2 = rest" by blast
qed

lemma drain_requests_ok [mw_inv]: "pr_ok p \<Longrightarrow> pr_ok (drain_requests rs p)"
  unfolding drain_requests_def by (rule pq.push_all_ok)

lemma drain_requests_view: "pr_ok p \<Longrightarrow> pr_view (drain_requests rs p) = coalesce_all rs (pr_view p)"
  unfolding drain_requests_def by (rule pq.push_all_view)

lemma pop_next_shrinks:
  "pop_next_command p = (Some c, p') \<Longrightarrow> length (pr_order p') < length (pr_order p)"
proof -
  have "pop_from order ws = (Some c, rest) \<Longrightarrow> length rest < length order" for order rest ws
    by (induction order) (auto split: if_splits)
  then show "pop_next_command p = (Some c, p') \<Longrightarrow> length (pr_order p') < length (pr_order p)"
    by (auto simp: pop_next_command_def split: prod.splits)
qed

lemma take_waiters_order [simp]: "pr_order (snd (take_waiters c p)) = pr_order p"
  by (simp add: take_waiters_def)

end
