(* ===== verification/Command_Lane.thy ===== *)
theory Command_Lane
  imports Pending_Requests
begin

text \<open>
  The command lane (\<^verbatim>\<open>src/src/lane.rs\<close>): one task that owns a receiver of command requests,
  runs one command at a time, coalesces requests that arrive meanwhile, keeps a minimum
  interval between runs of a command, and tells every waiter when its run started and how
  it ended. The executor is a trait object, so what a run returns is an observation.
\<close>

section \<open>Reports and triggers\<close>

datatype command_run_report =
  ReportOutcome command_outcome
| ReportError string
| ReportCancelled

fun report_success :: "command_run_report \<Rightarrow> bool" where
  "report_success (ReportOutcome oc) = success oc"
| "report_success (ReportError e) = False"
| "report_success ReportCancelled = False"

fun report_description :: "command_run_report \<Rightarrow> string" where
  "report_description (ReportOutcome oc) = outcome_description oc"
| "report_description (ReportError e) = ''could not run: '' @ e"
| "report_description ReportCancelled = ''cancelled by shutdown''"

datatype command_lifecycle = Started | Finished command_run_report

datatype trigger_error = LaneStopped | CompletionLost

text \<open>\<open>await_trigger_finished\<close> over the events the lifecycle channel delivers before it closes.\<close>

fun await_trigger_finished :: "command_lifecycle list \<Rightarrow> (trigger_error, command_run_report) result" where
  "await_trigger_finished [] = Inl CompletionLost"
| "await_trigger_finished (Finished report # rest) = Inr report"
| "await_trigger_finished (Started # rest) = await_trigger_finished rest"

text \<open>
  \<^verbatim>\<open>CommandTrigger\<close>: starting it sends a request for its command with a fresh lifecycle
  sender; a closed request channel is \<open>LaneStopped\<close>.
\<close>

record command_trigger =
  ct_command :: string
  ct_source :: string

definition trigger_start ::
  "command_trigger \<Rightarrow> waiter \<Rightarrow> bool \<Rightarrow> (trigger_error, string \<times> waiter) result" where
  "trigger_start t lifecycle lane_open =
     (if lane_open then Inr (ct_command t, lifecycle) else Inl LaneStopped)"

definition trigger_run ::
  "command_trigger \<Rightarrow> waiter \<Rightarrow> bool \<Rightarrow> command_lifecycle list
     \<Rightarrow> (trigger_error, command_run_report) result" where
  "trigger_run t lifecycle lane_open events =
     and_then (trigger_start t lifecycle lane_open) (\<lambda>_. await_trigger_finished events)"

section \<open>The lane task\<close>

record lane_command =
  lc_name :: string
  lc_min_interval :: duration

record lane_config =
  ln_lane :: string
  ln_commands :: "string \<rightharpoonup> lane_command"
  ln_has_state :: bool

text \<open>\<^verbatim>\<open>CommandLaneRunner::new\<close> collects the commands into a map by name; a later one wins.\<close>

definition new_lane :: "string \<Rightarrow> lane_command list \<Rightarrow> bool \<Rightarrow> lane_config" where
  "new_lane lane cmds has_state = \<lparr>ln_lane = lane,
     ln_commands = map_of (rev (map (\<lambda>c. (lc_name c, c)) cmds)), ln_has_state = has_state\<rparr>"

text \<open>
  Suspension points: before the first statement, the idle \<open>select!\<close>, the cooldown \<open>select!\<close>
  with the waiters already taken, and the command run. \<open>LSpinning\<close> is the outer loop going
  round with a non-empty queue it cannot pop; \<open>LPanicked\<close> an overflowing \<^verbatim>\<open>Instant\<close>, of the lane
  or of the executor it awaits: the unwinding drops the run, whose child is killed on drop
  (\<open>RunAborted\<close>), and with it the waiters.
\<close>

datatype lane_pc =
  LInit
| LIdle
| LCooling lane_command "waiter list" instant
| LRunning lane_command "waiter list"
| LStopped
| LPanicked
| LSpinning

record lane_state =
  l_pc :: lane_pc
  l_pending :: pending_requests
  l_last_finished :: "string \<rightharpoonup> instant"

datatype lane_input =
  LBoot instant
| LShutdown watch_change instant
| LRequest "(string \<times> waiter) option" instant
| LTimer instant
| LDone "(string, command_outcome) result" instant "(string \<times> waiter) list" bool
| LExecutorPanics

datatype lane_output =
  LMark rt_op instant
| WaiterStarted waiter
| WaiterFinished waiter command_run_report
| RunCommand string instant
| CommandDone string instant
| RunAborted string

definition lane_init :: lane_state where
  "lane_init = \<lparr>l_pc = LInit, l_pending = pr_default, l_last_finished = Map.empty\<rparr>"

definition lane_mark :: "lane_config \<Rightarrow> rt_op \<Rightarrow> instant \<Rightarrow> lane_output list" where
  "lane_mark cfg op now = (if ln_has_state cfg then [LMark op now] else [])"

definition start_waiters :: "waiter list \<Rightarrow> lane_output list" where
  "start_waiters ws = map WaiterStarted ws"

definition finish_waiters :: "waiter list \<Rightarrow> command_run_report \<Rightarrow> lane_output list" where
  "finish_waiters ws report = map (\<lambda>w. WaiterFinished w report) ws"

definition cancel_pending :: "pending_requests \<Rightarrow> lane_output list" where
  "cancel_pending p = concat (map (\<lambda>(c, ws). finish_waiters ws ReportCancelled) (pr_waiters p))"

text \<open>The part of \<open>wait_for_min_interval\<close> before its first await.\<close>

datatype interval_wait = ReadyNow | WaitUntil instant | IntervalOverflow

definition interval_wait :: "lane_command \<Rightarrow> (string \<rightharpoonup> instant) \<Rightarrow> instant \<Rightarrow> interval_wait" where
  "interval_wait cmd last_finished now = (case last_finished (lc_name cmd) of
     None \<Rightarrow> ReadyNow
   | Some finished \<Rightarrow>
       if lc_min_interval cmd = 0 then ReadyNow
       else (case instant_add finished (lc_min_interval cmd) of
          None \<Rightarrow> IntervalOverflow
        | Some run_at \<Rightarrow> if run_at \<le> now then ReadyNow else WaitUntil run_at))"

text \<open>\<open>start_waiters\<close> and \<open>run_command\<close> up to the executor's await.\<close>

definition begin_run ::
  "lane_config \<Rightarrow> lane_command \<Rightarrow> waiter list \<Rightarrow> instant \<Rightarrow> lane_state \<Rightarrow> lane_state \<times> lane_output list" where
  "begin_run cfg cmd ws now s =
     (s\<lparr>l_pc := LRunning cmd ws\<rparr>,
      start_waiters ws @ lane_mark cfg (OpCommandStarted (ln_lane cfg)) now
        @ [RunCommand (lc_name cmd) now])"

text \<open>The effects of \<open>run_command\<close> once the executor returned.\<close>

definition record_report :: "lane_config \<Rightarrow> command_run_report \<Rightarrow> instant \<Rightarrow> lane_output list" where
  "record_report cfg report now = (case report of
     ReportOutcome oc \<Rightarrow> lane_mark cfg (OpCommandFinished (ln_lane cfg) oc) now
   | ReportError e \<Rightarrow> lane_mark cfg OpCommandError now
       @ lane_mark cfg (OpMarkRunner (ln_lane cfg) RIdle) now
   | ReportCancelled \<Rightarrow> lane_mark cfg (OpMarkRunner (ln_lane cfg) RIdle) now)"

text \<open>\<^verbatim>\<open>while let Some(command_name) = pending.pop_next_command()\<close> up to the next await.\<close>

function dispatch :: "lane_config \<Rightarrow> instant \<Rightarrow> lane_state \<Rightarrow> lane_state \<times> lane_output list" where
  "dispatch cfg now s = (case pop_next_command (l_pending s) of
     (None, p) \<Rightarrow>
       (s\<lparr>l_pc := (if pr_is_empty p then LIdle else LSpinning), l_pending := p\<rparr>, [])
   | (Some name, p) \<Rightarrow>
       (case take_waiters name p of (ws, p') \<Rightarrow>
          (case ln_commands cfg name of
             None \<Rightarrow>
               (case dispatch cfg now (s\<lparr>l_pending := p'\<rparr>) of (s', os) \<Rightarrow>
                  (s', finish_waiters ws (ReportError ''unknown command'') @ os))
           | Some cmd \<Rightarrow>
               (case interval_wait cmd (l_last_finished s) now of
                  ReadyNow \<Rightarrow> begin_run cfg cmd ws now (s\<lparr>l_pending := p'\<rparr>)
                | WaitUntil run_at \<Rightarrow>
                    (s\<lparr>l_pc := LCooling cmd ws run_at, l_pending := p'\<rparr>,
                     lane_mark cfg (OpMarkRunner (ln_lane cfg) RCoolingDown) now)
                | IntervalOverflow \<Rightarrow> (s\<lparr>l_pc := LPanicked, l_pending := p'\<rparr>, [])))))"
  by pat_completeness auto
termination
  by (relation "measure (\<lambda>(cfg, now, s). length (pr_order (l_pending s)))")
     (auto dest!: pop_next_shrinks [OF sym] simp: take_waiters_def)

declare dispatch.simps [simp del]

definition lane_stop :: "lane_state \<Rightarrow> lane_output list \<Rightarrow> lane_state \<times> lane_output list" where
  "lane_stop s os = (s\<lparr>l_pc := LStopped, l_pending := pr_default\<rparr>, os @ cancel_pending (l_pending s))"

fun lane_step :: "lane_config \<Rightarrow> (lane_state, lane_input, lane_output) machine" where
  "lane_step cfg s i = (case (l_pc s, i) of
     (LInit, LBoot now) \<Rightarrow>
       Some (s\<lparr>l_pc := LIdle\<rparr>, lane_mark cfg (OpMarkRunner (ln_lane cfg) RIdle) now)
   | (LIdle, LShutdown changed now) \<Rightarrow>
       Some (if asks_stop changed then lane_stop s [] else dispatch cfg now s)
   | (LIdle, LRequest None now) \<Rightarrow> Some (lane_stop s [])
   | (LIdle, LRequest (Some (c, w)) now) \<Rightarrow>
       Some (dispatch cfg now (s\<lparr>l_pending := pr_push c w (l_pending s)\<rparr>))
   | (LCooling cmd ws run_at, LTimer now) \<Rightarrow>
       if run_at \<le> now then Some (begin_run cfg cmd ws now s) else None
   | (LCooling cmd ws run_at, LShutdown changed now) \<Rightarrow>
       Some (if asks_stop changed then lane_stop s (finish_waiters ws ReportCancelled)
             else begin_run cfg cmd ws now s)
   | (LCooling cmd ws run_at, LRequest None now) \<Rightarrow>
       Some (lane_stop s (finish_waiters ws ReportCancelled))
   | (LCooling cmd ws run_at, LRequest (Some (c, w)) now) \<Rightarrow>
       Some (if c = lc_name cmd then (s\<lparr>l_pc := LCooling cmd (ws @ [w]) run_at\<rparr>, [])
             else (s\<lparr>l_pending := pr_push c w (l_pending s)\<rparr>, []))
   | (LRunning cmd ws, LDone result now requests stop) \<Rightarrow>
       (let report = (case result of Inr oc \<Rightarrow> ReportOutcome oc | Inl e \<Rightarrow> ReportError e);
            s' = s\<lparr>l_last_finished := (l_last_finished s)(lc_name cmd \<mapsto> now),
                   l_pending := drain_requests requests (l_pending s)\<rparr>;
            os = CommandDone (lc_name cmd) now # record_report cfg report now
                   @ finish_waiters ws report
        in Some (if stop then lane_stop s' os
                 else (case dispatch cfg now s' of (s'', os') \<Rightarrow> (s'', os @ os'))))
   | (LRunning cmd ws, LExecutorPanics) \<Rightarrow> Some (s\<lparr>l_pc := LPanicked\<rparr>, [RunAborted (lc_name cmd)])
   | _ \<Rightarrow> None)"

declare lane_step.simps [simp del]


section \<open>Waiters held and waiters answered\<close>

fun answered :: "lane_output list \<Rightarrow> waiter list" where
  "answered [] = []"
| "answered (WaiterFinished w r # os) = w # answered os"
| "answered (_ # os) = answered os"

fun accepted :: "lane_input list \<Rightarrow> waiter list" where
  "accepted [] = []"
| "accepted (LRequest (Some (c, w)) now # ins) = w # accepted ins"
| "accepted (LDone r now requests stop # ins) = map snd requests @ accepted ins"
| "accepted (_ # ins) = accepted ins"

fun pc_waiters :: "lane_pc \<Rightarrow> waiter list" where
  "pc_waiters (LCooling cmd ws t) = ws"
| "pc_waiters (LRunning cmd ws) = ws"
| "pc_waiters _ = []"

definition held :: "lane_state \<Rightarrow> waiter list" where
  "held s = pc_waiters (l_pc s) @ queued (pr_view (l_pending s))"

lemma answered_append [simp]: "answered (xs @ ys) = answered xs @ answered ys"
  by (induction xs rule: answered.induct) auto

lemma answered_parts [simp]:
  "answered (start_waiters ws) = []" "answered (finish_waiters ws r) = ws"
  "answered (lane_mark cfg op now) = []" "answered (record_report cfg r now) = []"
  by (induction ws)
     (auto simp: start_waiters_def finish_waiters_def lane_mark_def record_report_def
       split: command_run_report.split)

lemma mset_pr_view: "pr_ok p \<Longrightarrow> mset (pr_view p) = mset (pr_waiters p)"
proof -
  assume ok: "pr_ok p"
  have "set (pr_view p) = set (pr_waiters p)"
  proof (rule set_eqI, clarify)
    fix c ws
    have "(c, ws) \<in> set (pr_view p) \<longleftrightarrow> c \<in> fst ` set (pr_waiters p) \<and> ws = the (map_of (pr_waiters p) c)"
      using ok by (auto simp: pr_view_def pr_ok_def)
    also have "\<dots> \<longleftrightarrow> (c, ws) \<in> set (pr_waiters p)"
      using ok by (auto simp: pr_ok_def dest: map_of_is_SomeI) (force)
    finally show "(c, ws) \<in> set (pr_view p) \<longleftrightarrow> (c, ws) \<in> set (pr_waiters p)" .
  qed
  moreover have "distinct (pr_view p)" "distinct (pr_waiters p)"
    using ok by (auto simp: pr_view_def pr_ok_def distinct_map inj_on_def)
  ultimately show ?thesis by (simp add: set_eq_iff_mset_eq_distinct)
qed

lemma queued_mset_cong: "mset p = mset q \<Longrightarrow> mset (queued p) = mset (queued q)"
proof -
  have "mset (queued p) = (\<Sum>e \<in># mset p. mset (snd e))" for p
    by (induction p) (auto simp: queued_def)
  then show "mset p = mset q \<Longrightarrow> mset (queued p) = mset (queued q)" by simp
qed

lemma answered_cancel: "pr_ok p \<Longrightarrow> mset (answered (cancel_pending p)) = mset (queued (pr_view p))"
proof -
  have "answered (concat (map (\<lambda>(c, ws). finish_waiters ws ReportCancelled) q)) = queued q" for q
    by (induction q) (auto simp: queued_def)
  then show "pr_ok p \<Longrightarrow> mset (answered (cancel_pending p)) = mset (queued (pr_view p))"
    using queued_mset_cong [OF mset_pr_view [of p]] by (simp add: cancel_pending_def)
qed

lemma queued_default [simp]: "queued (pr_view pr_default) = []"
  by (simp add: pr_view_def pr_default_def queued_def)

section \<open>What dispatch does\<close>

definition lane_cfg_ok :: "lane_config \<Rightarrow> bool" where
  "lane_cfg_ok cfg \<longleftrightarrow> (\<forall>n cmd. ln_commands cfg n = Some cmd \<longrightarrow> lc_name cmd = n)"

lemma new_lane_ok: "lane_cfg_ok (new_lane lane cmds has_state)"
  by (auto simp: lane_cfg_ok_def new_lane_def dest!: map_of_SomeD)

text \<open>The states in which \<open>dispatch\<close> leaves the task.\<close>

definition settled :: "lane_config \<Rightarrow> lane_state \<Rightarrow> bool" where
  "settled cfg s \<longleftrightarrow> (case l_pc s of
     LIdle \<Rightarrow> pr_view (l_pending s) = []
   | LRunning cmd ws \<Rightarrow> ln_commands cfg (lc_name cmd) = Some cmd
   | LCooling cmd ws t \<Rightarrow> ln_commands cfg (lc_name cmd) = Some cmd \<and>
       (\<exists>f. l_last_finished s (lc_name cmd) = Some f \<and> t = f + lc_min_interval cmd)
   | LPanicked \<Rightarrow> True
   | _ \<Rightarrow> False)"

fun serial :: "string option \<Rightarrow> lane_output list \<Rightarrow> string option option" where
  "serial running [] = Some running"
| "serial running (RunCommand n t # os) = (if running = None then serial (Some n) os else None)"
| "serial running (CommandDone n t # os) = (if running = Some n then serial None os else None)"
| "serial running (RunAborted n # os) = (if running = Some n then serial None os else None)"
| "serial running (_ # os) = serial running os"

fun spaced :: "lane_config \<Rightarrow> (string \<rightharpoonup> instant) \<Rightarrow> lane_output list \<Rightarrow> bool" where
  "spaced cfg done [] \<longleftrightarrow> True"
| "spaced cfg done (CommandDone n t # os) \<longleftrightarrow> spaced cfg (done(n \<mapsto> t)) os"
| "spaced cfg done (RunCommand n t # os) \<longleftrightarrow>
     (\<forall>f cmd. done n = Some f \<and> ln_commands cfg n = Some cmd \<longrightarrow>
        lc_min_interval cmd = 0 \<or> f + lc_min_interval cmd \<le> t)
     \<and> spaced cfg done os"
| "spaced cfg done (_ # os) \<longleftrightarrow> spaced cfg done os"

fun done_at :: "(string \<rightharpoonup> instant) \<Rightarrow> lane_output list \<Rightarrow> (string \<rightharpoonup> instant)" where
  "done_at done [] = done"
| "done_at done (CommandDone n t # os) = done_at (done(n \<mapsto> t)) os"
| "done_at done (_ # os) = done_at done os"

definition running :: "lane_state \<Rightarrow> string option" where
  "running s = (case l_pc s of LRunning cmd ws \<Rightarrow> Some (lc_name cmd) | _ \<Rightarrow> None)"

lemma serial_append: "serial r (xs @ ys) = Option.bind (serial r xs) (\<lambda>r'. serial r' ys)"
  by (induction r xs rule: serial.induct) auto

lemma done_at_append [simp]: "done_at d (xs @ ys) = done_at (done_at d xs) ys"
proof (induction xs arbitrary: d)
  case (Cons x xs)
  then show ?case by (cases x) (simp_all only: append_Cons done_at.simps)
qed simp

lemma spaced_append [simp]:
  "spaced cfg d (xs @ ys) \<longleftrightarrow> spaced cfg d xs \<and> spaced cfg (done_at d xs) ys"
proof (induction xs arbitrary: d)
  case (Cons x xs)
  then show ?case by (cases x) (simp_all only: append_Cons done_at.simps spaced.simps conj_assoc)
qed simp

text \<open>Effects other than the start and the end of a command run.\<close>

fun plain :: "lane_output \<Rightarrow> bool" where
  "plain (RunCommand n t) = False"
| "plain (CommandDone n t) = False"
| "plain (RunAborted n) = False"
| "plain _ = True"

lemma plain_effects:
  assumes "list_all plain os"
  shows "serial r os = Some r" "spaced cfg d os" "done_at d os = d"
proof -
  have "serial r os = Some r \<and> spaced cfg d os \<and> done_at d os = d"
    using assms
  proof (induction os)
    case (Cons x xs)
    then show ?case by (cases x) auto
  qed simp
  then show "serial r os = Some r" "spaced cfg d os" "done_at d os = d" by auto
qed

lemma plain_parts [simp]:
  "list_all plain (start_waiters ws)" "list_all plain (finish_waiters ws r)"
  "list_all plain (lane_mark cfg op now)" "list_all plain (record_report cfg r now)"
  "list_all plain (cancel_pending p)"
  by (auto simp: list_all_iff start_waiters_def finish_waiters_def lane_mark_def record_report_def
      cancel_pending_def split: command_run_report.splits if_splits)

lemma dispatch_spec:
  assumes "pr_ok (l_pending s)" "lane_cfg_ok cfg" "dispatch cfg now s = (s', os)"
  shows "pr_ok (l_pending s') \<and> l_last_finished s' = l_last_finished s \<and> settled cfg s' \<and>
    (l_pc s' \<noteq> LPanicked \<longrightarrow>
       mset (answered os) + mset (held s') = mset (queued (pr_view (l_pending s)))) \<and>
    serial None os = Some (running s') \<and> spaced cfg (l_last_finished s) os \<and>
    done_at d os = d"
  using assms
proof (induction cfg now s arbitrary: s' os rule: dispatch.induct)
  case (1 cfg now s)
  from 1(2) show ?case
  proof (cases rule: pq.pop_cases)
    case (none q')
    then have "s' = s\<lparr>l_pc := LIdle, l_pending := q'\<rparr> \<and> os = []"
      using 1(4) pq.is_empty_iff [of q'] by (simp add: dispatch.simps [of cfg now s])
    with none show ?thesis
      by (simp add: settled_def held_def queued_def running_def)
  next
    case (some name ws q1 q2)
    let ?s2 = "s\<lparr>l_pending := q2\<rparr>"
    have q: "mset (queued (pr_view (l_pending s))) = mset ws + mset (queued (pr_view q2))"
      using some(4) by (simp add: queued_def)
    show ?thesis
    proof (cases "ln_commands cfg name")
      case None
      obtain s1 o1 where d: "dispatch cfg now ?s2 = (s1, o1)" by (cases "dispatch cfg now ?s2")
      have eq: "s' = s1" "os = finish_waiters ws (ReportError ''unknown command'') @ o1"
        using 1(4) some None d by (simp_all add: dispatch.simps [of cfg now s])
      have "pr_ok (l_pending ?s2)" using some by simp
      from 1(1) [OF some(1) [symmetric] refl some(2) [symmetric] None this 1(3) d] eq q
      show ?thesis by (simp add: serial_append plain_effects)
    next
      case (Some cmd)
      then have name: "lc_name cmd = name" using 1(3) by (simp add: lane_cfg_ok_def)
      note step = 1(4) [unfolded dispatch.simps [of cfg now s]]
      show ?thesis
      proof (cases "interval_wait cmd (l_last_finished s) now")
        case ReadyNow
        then have gap: "\<forall>f. l_last_finished s name = Some f
            \<longrightarrow> lc_min_interval cmd = 0 \<or> f + lc_min_interval cmd \<le> now"
          by (auto simp: interval_wait_def name split: option.splits if_splits)
        have "s' = s\<lparr>l_pending := q2, l_pc := LRunning cmd ws\<rparr>"
          "os = start_waiters ws @ lane_mark cfg (OpCommandStarted (ln_lane cfg)) now
             @ [RunCommand (lc_name cmd) now]"
          using step some Some ReadyNow by (simp_all add: begin_run_def)
        with some(3) Some name q gap show ?thesis
          by (simp add: settled_def held_def running_def serial_append plain_effects)
      next
        case (WaitUntil t)
        then have run_at: "\<exists>f. l_last_finished s name = Some f \<and> t = f + lc_min_interval cmd"
          by (auto simp: interval_wait_def name split: option.splits if_splits)
        have "s' = s\<lparr>l_pc := LCooling cmd ws t, l_pending := q2\<rparr>"
          "os = lane_mark cfg (OpMarkRunner (ln_lane cfg) RCoolingDown) now"
          using step some Some WaitUntil by simp_all
        with some(3) Some name q run_at show ?thesis
          by (simp add: settled_def held_def running_def plain_effects)
      next
        case IntervalOverflow
        have "s' = s\<lparr>l_pc := LPanicked, l_pending := q2\<rparr>" "os = []"
          using step some Some IntervalOverflow by simp_all
        with some(3) show ?thesis by (simp add: settled_def held_def running_def)
      qed
    qed
  qed
qed


section \<open>The step invariant\<close>

definition lane_inv :: "lane_config \<Rightarrow> lane_state \<Rightarrow> bool" where
  "lane_inv cfg s \<longleftrightarrow> pr_ok (l_pending s) \<and>
     (l_pc s = LInit \<longrightarrow> l_pending s = pr_default \<and> l_last_finished s = Map.empty) \<and>
     (l_pc s = LStopped \<longrightarrow> l_pending s = pr_default) \<and>
     (l_pc s \<noteq> LInit \<and> l_pc s \<noteq> LStopped \<longrightarrow> settled cfg s)"

lemma lane_init_inv: "lane_inv cfg lane_init"
  by (simp add: lane_inv_def lane_init_def pq.ok_empty)

text \<open>One step, with everything the properties need: invariant, waiters, overlap, spacing.\<close>

definition step_fact ::
  "lane_config \<Rightarrow> lane_state \<Rightarrow> lane_input \<Rightarrow> lane_state \<Rightarrow> lane_output list \<Rightarrow> bool" where
  "step_fact cfg s i s' os \<longleftrightarrow> lane_inv cfg s' \<and>
     (l_pc s' \<noteq> LPanicked \<longrightarrow>
        mset (answered os) + mset (held s') = mset (held s) + mset (accepted [i])) \<and>
     serial (running s) os = Some (running s') \<and>
     ((\<forall>ch now. i = LShutdown ch now \<longrightarrow> asks_stop ch) \<longrightarrow> spaced cfg (l_last_finished s) os) \<and>
     done_at (l_last_finished s) os = l_last_finished s'"

lemma dispatch_fact:
  assumes "pr_ok p" "lane_cfg_ok cfg"
    and "dispatch cfg now (s\<lparr>l_last_finished := d, l_pending := p\<rparr>) = (s', os)"
  shows "lane_inv cfg s' \<and>
     (l_pc s' \<noteq> LPanicked \<longrightarrow> mset (answered os) + mset (held s') = mset (queued (pr_view p))) \<and>
     serial None os = Some (running s') \<and> spaced cfg d os \<and> done_at d os = d \<and>
     l_last_finished s' = d"
  using dispatch_spec [OF _ assms(2,3), of d] assms(1)
  by (auto simp: lane_inv_def settled_def split: lane_pc.splits)

lemma stop_fact:
  assumes "pr_ok (l_pending s)" "lane_stop s os = (s', os')"
  shows "lane_inv cfg s' \<and> mset (answered os') = mset (answered os) + mset (queued (pr_view (l_pending s)))
     \<and> held s' = [] \<and> running s' = None \<and> l_last_finished s' = l_last_finished s
     \<and> os' = os @ cancel_pending (l_pending s)"
  using assms by (auto simp: lane_stop_def lane_inv_def pq.ok_empty answered_cancel held_def running_def)

lemma begin_run_fact:
  assumes "begin_run cfg cmd ws now s = (s', os)" "pr_ok (l_pending s)"
    "ln_commands cfg (lc_name cmd) = Some cmd"
  shows "lane_inv cfg s' \<and> answered os = [] \<and> held s' = ws @ queued (pr_view (l_pending s)) \<and>
     serial None os = Some (running s') \<and> done_at d os = d \<and> l_last_finished s' = l_last_finished s \<and>
     ((\<forall>f. d (lc_name cmd) = Some f \<longrightarrow> f + lc_min_interval cmd \<le> now) \<longrightarrow> spaced cfg d os)"
  using assms by (auto simp: begin_run_def lane_inv_def settled_def held_def running_def
      serial_append plain_effects)

lemma lane_step_fact:
  assumes cfg: "lane_cfg_ok cfg" and inv: "lane_inv cfg s" and step: "lane_step cfg s i = Some (s', os)"
  shows "step_fact cfg s i s' os"
proof (cases "l_pc s")
  case LInit
  with step obtain now where "i = LBoot now" "s' = s\<lparr>l_pc := LIdle\<rparr>"
    "os = lane_mark cfg (OpMarkRunner (ln_lane cfg) RIdle) now"
    by (cases i) (auto simp: lane_step.simps)
  with inv LInit show ?thesis
    by (auto simp: step_fact_def lane_inv_def settled_def held_def running_def plain_effects
        pq.ok_empty pq.view_empty)
next
  case LIdle
  have ok: "pr_ok (l_pending s)" and empty: "pr_view (l_pending s) = []"
    using inv LIdle by (auto simp: lane_inv_def settled_def)
  show ?thesis
  proof (cases i)
    case (LShutdown ch now)
    with step LIdle stop_fact [OF ok, where os = "[]" and s' = s' and os' = os and cfg = cfg]
      dispatch_fact [OF ok cfg, where now = now and s = s and d = "l_last_finished s" and s' = s' and os = os] empty
    show ?thesis
      by (auto simp: lane_step.simps step_fact_def held_def running_def queued_def plain_effects
          split: if_splits)
  next
    case (LRequest r now)
    show ?thesis
    proof (cases r)
      case None
      with step LIdle LRequest stop_fact [OF ok, where os = "[]" and s' = s' and os' = os and cfg = cfg] empty show ?thesis
        by (auto simp: lane_step.simps step_fact_def held_def running_def queued_def plain_effects)
    next
      case (Some cw)
      obtain c w where cw: "cw = (c, w)" by (cases cw)
      from step LIdle LRequest Some cw
        dispatch_fact [OF pr_push_ok [OF ok, of c w] cfg, where now = now and s = s and d = "l_last_finished s" and s' = s' and os = os]
        mset_queued_coalesce [of c w "pr_view (l_pending s)"] empty
      show ?thesis
        by (auto simp: lane_step.simps step_fact_def held_def running_def pr_push_view [OF ok] queued_def)
    qed
  qed (use step LIdle in \<open>simp_all add: lane_step.simps\<close>)
next
  case (LCooling cmd ws run_at)
  have ok: "pr_ok (l_pending s)" and cmd: "ln_commands cfg (lc_name cmd) = Some cmd"
    and at: "\<exists>f. l_last_finished s (lc_name cmd) = Some f \<and> run_at = f + lc_min_interval cmd"
    using inv LCooling by (auto simp: lane_inv_def settled_def)
  have held: "held s = ws @ queued (pr_view (l_pending s))" "running s = None"
    using LCooling by (simp_all add: held_def running_def)
  show ?thesis
  proof (cases i)
    case (LTimer now)
    with step LCooling have "begin_run cfg cmd ws now s = (s', os)" "run_at \<le> now"
      by (auto simp: lane_step.simps split: if_splits)
    with begin_run_fact [OF this(1) ok cmd, where d = "l_last_finished s"] at held LTimer show ?thesis
      by (auto simp: step_fact_def)
  next
    case (LShutdown ch now)
    with step LCooling stop_fact [OF ok, where os = "finish_waiters ws ReportCancelled" and s' = s' and os' = os and cfg = cfg]
      begin_run_fact [OF _ ok cmd, where ws = ws and now = now and s' = s' and os = os and d = "l_last_finished s"] held
    show ?thesis
      by (auto simp: lane_step.simps step_fact_def plain_effects split: if_splits)
  next
    case (LRequest r now)
    show ?thesis
    proof (cases r)
      case None
      with step LCooling LRequest stop_fact [OF ok, where os = "finish_waiters ws ReportCancelled" and s' = s' and os' = os and cfg = cfg] held
      show ?thesis by (auto simp: lane_step.simps step_fact_def plain_effects)
    next
      case (Some cw)
      obtain c w where cw: "cw = (c, w)" by (cases cw)
      from step LCooling LRequest Some cw
        mset_queued_coalesce [of c w "pr_view (l_pending s)"] inv pr_push_ok [OF ok, of c w]
      show ?thesis
        by (auto simp: lane_step.simps step_fact_def held_def running_def pr_push_view [OF ok]
            lane_inv_def settled_def plain_effects split: if_splits)
    qed
  qed (use step LCooling in \<open>simp_all add: lane_step.simps\<close>)
next
  case (LRunning cmd ws)
  have ok: "pr_ok (l_pending s)" using inv LRunning by (auto simp: lane_inv_def)
  show ?thesis
  proof (cases i)
    case (LDone result now requests stop)
    let ?report = "case result of Inr oc \<Rightarrow> ReportOutcome oc | Inl e \<Rightarrow> ReportError e"
    let ?p = "drain_requests requests (l_pending s)"
    let ?d = "(l_last_finished s)(lc_name cmd \<mapsto> now)"
    let ?s1 = "s\<lparr>l_last_finished := ?d, l_pending := ?p\<rparr>"
    let ?os = "CommandDone (lc_name cmd) now # record_report cfg ?report now @ finish_waiters ws ?report"
    have okp: "pr_ok ?p" using ok by (simp add: mw_inv)
    have q: "mset (queued (pr_view ?p)) = mset (map snd requests) + mset (queued (pr_view (l_pending s)))"
      by (simp add: drain_requests_view [OF ok] mset_queued_coalesce_all)
    obtain pos where pos: "pos = ?os" by blast
    have pre: "answered pos = ws" "serial (running s) pos = Some None"
      "spaced cfg (l_last_finished s) pos" "done_at (l_last_finished s) pos = ?d"
      using LRunning by (simp_all add: pos running_def serial_append plain_effects)
    have held: "held s = ws @ queued (pr_view (l_pending s))"
      using LRunning by (simp add: held_def)
    show ?thesis
    proof (cases stop)
      case True
      with step LRunning LDone have "lane_stop ?s1 pos = (s', os)"
        by (simp add: lane_step.simps Let_def pos)
      from stop_fact [OF _ this, where cfg = cfg] okp q pre held LDone show ?thesis
        by (auto simp: step_fact_def serial_append plain_effects)
    next
      case False
      obtain s2 o2 where d: "dispatch cfg now ?s1 = (s2, o2)" by (cases "dispatch cfg now ?s1")
      have eq: "s' = s2" "os = pos @ o2"
        using step LRunning LDone False d by (simp_all add: lane_step.simps Let_def pos)
      from dispatch_fact [OF okp cfg, where now = now and s = s and d = ?d and s' = s2 and os = o2] d q pre held LDone show ?thesis
        unfolding eq step_fact_def serial_append spaced_append answered_append done_at_append
        by auto
    qed
  next
    case LExecutorPanics
    with step LRunning ok show ?thesis
      by (auto simp: lane_step.simps step_fact_def lane_inv_def settled_def running_def)
  qed (use step LRunning in \<open>simp_all add: lane_step.simps\<close>)
qed (use step in \<open>cases i; simp add: lane_step.simps\<close>)+


section \<open>Whole runs\<close>

definition lane_final :: "lane_state \<Rightarrow> bool" where
  "lane_final s \<longleftrightarrow> l_pc s \<in> {LStopped, LPanicked, LSpinning}"

definition lane_history_inv :: "lane_config \<Rightarrow> lane_state \<Rightarrow> lane_output list \<Rightarrow> bool" where
  "lane_history_inv cfg s h \<longleftrightarrow> lane_inv cfg s \<and> serial None h = Some (running s) \<and>
     done_at Map.empty h = l_last_finished s"

lemma lane_final_stuck: "lane_final s \<Longrightarrow> lane_step cfg s i = None"
  by (auto simp: lane_final_def lane_step.simps)

interpretation lane: halting_machine "lane_step (new_lane lane cmds has_state)" lane_init
  "lane_history_inv (new_lane lane cmds has_state)" lane_final
  for lane cmds has_state
proof unfold_locales
  let ?cfg = "new_lane lane cmds has_state"
  show "lane_history_inv ?cfg lane_init []"
    using lane_init_inv [of ?cfg] by (simp add: lane_history_inv_def running_def lane_init_def)
  show "lane_history_inv ?cfg s' (h @ os)"
    if "lane_history_inv ?cfg s h" "lane_step ?cfg s i = Some (s', os)" for s h i s' os
    using that lane_step_fact [OF new_lane_ok, of lane cmds has_state s i s' os]
    by (auto simp: lane_history_inv_def step_fact_def serial_append)
  show "lane_step ?cfg s i = None" if "lane_final s" for s i
    using that by (rule lane_final_stuck)
qed

text \<open>Observations in which the shutdown channel only ever wakes the lane to stop it.\<close>

fun no_spurious_wake :: "lane_input \<Rightarrow> bool" where
  "no_spurious_wake (LShutdown ch now) = asks_stop ch"
| "no_spurious_wake _ = True"

definition lane_spaced_inv :: "lane_config \<Rightarrow> lane_state \<Rightarrow> lane_output list \<Rightarrow> bool" where
  "lane_spaced_inv cfg s h \<longleftrightarrow> lane_history_inv cfg s h \<and> spaced cfg Map.empty h"

interpretation strict_lane: step_machine
  "guarded no_spurious_wake (lane_step (new_lane lane cmds has_state))" lane_init
  "lane_spaced_inv (new_lane lane cmds has_state)"
  for lane cmds has_state
proof unfold_locales
  let ?cfg = "new_lane lane cmds has_state"
  show "lane_spaced_inv ?cfg lane_init []"
    using lane.inv_start [of lane cmds has_state] by (simp add: lane_spaced_inv_def)
  show "lane_spaced_inv ?cfg s' (h @ os)"
    if inv: "lane_spaced_inv ?cfg s h"
      and step: "guarded no_spurious_wake (lane_step ?cfg) s i = Some (s', os)" for s h i s' os
  proof -
    have "\<forall>ch now. i = LShutdown ch now \<longrightarrow> asks_stop ch" using step by auto
    with inv step lane_step_fact [OF new_lane_ok, of lane cmds has_state s i s' os]
      lane.inv_step [of lane cmds has_state s h i s' os]
    show ?thesis by (auto simp: lane_spaced_inv_def lane_history_inv_def step_fact_def)
  qed
qed

lemma accepted_Cons: "accepted (i # ins) = accepted [i] @ accepted ins"
proof (cases i)
  case (LRequest r now)
  then show ?thesis by (cases r) auto
qed auto

lemma lane_run_waiters:
  assumes "lane_cfg_ok cfg"
  shows "\<lbrakk>lane_inv cfg s; run_machine (lane_step cfg) s ins = Some (s', h); l_pc s' \<noteq> LPanicked\<rbrakk>
   \<Longrightarrow> mset (answered h) + mset (held s') = mset (held s) + mset (accepted ins)"
proof (induction ins arbitrary: s h)
  case Nil
  then show ?case by simp
next
  case (Cons i ins)
  from Cons.prems(2) obtain s1 o1 o2 where step: "lane_step cfg s i = Some (s1, o1)"
    and run: "run_machine (lane_step cfg) s1 ins = Some (s', o2)" and h: "h = o1 @ o2"
    by (auto split: option.splits)
  from lane_step_fact [OF assms Cons.prems(1) step] have fact: "step_fact cfg s i s1 o1" .
  have "l_pc s1 \<noteq> LPanicked"
  proof
    assume "l_pc s1 = LPanicked"
    with run have "s' = s1"
      by (cases ins) (auto simp: lane_final_stuck lane_final_def)
    with \<open>l_pc s1 = LPanicked\<close> Cons.prems(3) show False by simp
  qed
  moreover have "mset (answered o2) + mset (held s') = mset (held s1) + mset (accepted ins)"
    using Cons.IH [OF _ run Cons.prems(3)] fact by (simp add: step_fact_def)
  ultimately show ?case
    using fact unfolding h accepted_Cons [of i ins] step_fact_def
    by (simp add: union_assoc [symmetric]) (metis union_assoc union_commute)
qed

lemma held_stopped: "\<lbrakk>lane_inv cfg s; l_pc s = LStopped\<rbrakk> \<Longrightarrow> held s = []"
  by (simp add: held_def lane_inv_def)

lemma lane_run_inv:
  "run_machine (lane_step (new_lane lane cmds b)) lane_init ins = Some (s, h)
     \<Longrightarrow> lane_history_inv (new_lane lane cmds b) s h"
  by (rule lane.run_inv)

text \<open>The first arrivals of a request sequence, in order.\<close>

definition first_arrivals :: "(string \<times> waiter) list \<Rightarrow> string list" where
  "first_arrivals rs = rev (remdups (rev (map fst rs)))"

definition waiters_for :: "(string \<times> waiter) list \<Rightarrow> string \<Rightarrow> waiter list" where
  "waiters_for rs c = map snd (filter (\<lambda>r. fst r = c) rs)"

lemma first_arrivals_snoc:
  "first_arrivals (rs @ [(c, w)]) =
     (if c \<in> fst ` set rs then first_arrivals rs else first_arrivals rs @ [c])"
proof -
  have r: "remdups (c # xs) = (if c \<in> set xs then remdups xs else c # remdups xs)" for xs by simp
  show ?thesis by (simp add: first_arrivals_def)
qed


lemma waiters_for_simps [simp]:
  "waiters_for [] c = []"
  "waiters_for (rs @ [(d, w)]) c = (if d = c then waiters_for rs c @ [w] else waiters_for rs c)"
  by (simp_all add: waiters_for_def)

lemma waiters_for_none: "c \<notin> fst ` set rs \<Longrightarrow> waiters_for rs c = []"
  by (auto simp: waiters_for_def filter_empty_conv)

lemma coalesce_all_snoc: "coalesce_all (rs @ [(c, w)]) q = coalesce c w (coalesce_all rs q)"
  by (simp add: coalesce_all_def)

lemma first_arrivals_set: "set (first_arrivals rs) = fst ` set rs" "distinct (first_arrivals rs)"
  by (simp_all add: first_arrivals_def)

lemma coalesce_all_spec:
  "coalesce_all rs [] = map (\<lambda>c. (c, waiters_for rs c)) (first_arrivals rs)"
proof (induction rs rule: rev_induct)
  case Nil
  then show ?case by (simp add: coalesce_all_def first_arrivals_def)
next
  case (snoc r rs)
  obtain c w where r: "r = (c, w)" by (cases r)
  show ?case
  proof (cases "c \<in> fst ` set rs")
    case True
    then have "coalesce c w (map (\<lambda>d. (d, waiters_for rs d)) (first_arrivals rs))
       = map (\<lambda>d. (d, if d = c then waiters_for rs d @ [w] else waiters_for rs d)) (first_arrivals rs)"
      by (intro coalesce_map) (simp_all add: first_arrivals_set)
    with snoc True show ?thesis
      by (auto simp: r coalesce_all_snoc first_arrivals_snoc)
  next
    case False
    then have "coalesce c w (map (\<lambda>d. (d, waiters_for rs d)) (first_arrivals rs))
       = map (\<lambda>d. (d, waiters_for rs d)) (first_arrivals rs) @ [(c, [w])]"
      by (intro coalesce_fresh) (simp add: image_image first_arrivals_set)
    moreover have "\<forall>d \<in> set (first_arrivals rs). d \<noteq> c" using False by (auto simp: first_arrivals_set)
    ultimately show ?thesis
      using snoc False by (auto simp: r coalesce_all_snoc first_arrivals_snoc waiters_for_none)
  qed
qed

section \<open>Properties\<close>

text \<open>
  C5. No request a lane accepts is lost or answered twice: over any run that does not panic,
  the waiters answered so far together with those still held are exactly the waiters whose
  requests were received; when the lane has stopped, every one of them has been answered.
\<close>

theorem requests_answered_exactly_once:
  assumes "run_machine (lane_step (new_lane lane cmds b)) lane_init ins = Some (s, h)"
    and "l_pc s \<noteq> LPanicked"
  shows "mset (answered h) + mset (held s) = mset (accepted ins) \<and>
    (l_pc s = LStopped \<longrightarrow> mset (answered h) = mset (accepted ins))"
proof -
  have "mset (answered h) + mset (held s) = mset (held lane_init) + mset (accepted ins)"
    by (rule lane_run_waiters [OF new_lane_ok lane_init_inv assms])
  moreover have "held lane_init = []" by (simp add: held_def lane_init_def)
  moreover have "l_pc s = LStopped \<Longrightarrow> held s = []"
    using lane_run_inv [OF assms(1)] held_stopped by (auto simp: lane_history_inv_def)
  ultimately show ?thesis by auto
qed

definition demo_cmds :: "lane_command list" where
  "demo_cmds = [\<lparr>lc_name = ''a'', lc_min_interval = 5\<rparr>, \<lparr>lc_name = ''b'', lc_min_interval = 0\<rparr>]"

definition demo_outcome :: command_outcome where
  "demo_outcome = \<lparr>success = True, code = Some 0, signal = None, timed_out = False,
     cancelled = False, timeout = None, output_limit_exceeded = False, output_limit = None\<rparr>"

definition demo_inputs :: "lane_input list" where
  "demo_inputs = [LBoot 0, LRequest (Some (''a'', 1)) 10,
     LDone (Inr demo_outcome) 12 [(''a'', 2), (''b'', 3), (''a'', 4)] False,
     LTimer 17, LDone (Inl ''spawn'') 20 [] False, LDone (Inr demo_outcome) 21 [] True]"

lemmas lane_eval = lane_step.simps dispatch.simps lane_init_def pr_default_def pr_push_def
  pop_next_command_def take_waiters_def pr_is_empty_def drain_requests_def interval_wait_def
  begin_run_def lane_stop_def instant_add_def instant_limit_def Let_def

lemma demo_run:
  "\<exists>s h. run_machine (lane_step (new_lane ''l'' demo_cmds True)) lane_init demo_inputs = Some (s, h)
     \<and> l_pc s = LStopped"
proof -
  have "(case run_machine (lane_step (new_lane ''l'' demo_cmds True)) lane_init demo_inputs of
      Some (s, h) \<Rightarrow> l_pc s = LStopped | None \<Rightarrow> False)"
    by (simp add: demo_inputs_def lane_eval new_lane_def demo_cmds_def demo_outcome_def)
  then show ?thesis by (auto split: option.splits)
qed

lemma requests_answered_exactly_once_witness:
  "\<exists>s h. run_machine (lane_step (new_lane ''l'' demo_cmds True)) lane_init demo_inputs = Some (s, h)
     \<and> mset (answered h) = {#1, 2, 3, 4#}"
proof -
  obtain s h where "run_machine (lane_step (new_lane ''l'' demo_cmds True)) lane_init demo_inputs = Some (s, h)"
    "l_pc s = LStopped" using demo_run by blast
  with requests_answered_exactly_once [OF this(1)] show ?thesis
    by (auto simp: demo_inputs_def)
qed

text \<open>
  C18. Commands of one lane never overlap: in every reachable history the command starts and
  ends alternate, each end belonging to the command that started last, and the lane is at a
  run exactly when the history has an open one.
\<close>

theorem lane_runs_never_overlap:
  assumes "reaches (lane_step (new_lane lane cmds b)) lane_init s h"
  shows "serial None h = Some (running s)"
  using lane.reaches_inv [OF assms] by (simp add: lane_history_inv_def)

lemma lane_runs_never_overlap_witness:
  "\<exists>s h. run_machine (lane_step (new_lane ''l'' demo_cmds True)) lane_init demo_inputs = Some (s, h)
     \<and> serial None h = Some None"
proof -
  obtain s h where run: "run_machine (lane_step (new_lane ''l'' demo_cmds True)) lane_init demo_inputs = Some (s, h)"
    "l_pc s = LStopped" using demo_run by blast
  from lane_runs_never_overlap [OF run_reaches [OF run(1)]] run show ?thesis
    by (auto simp: running_def)
qed

text \<open>
  C17. The minimum interval holds: as long as the shutdown channel wakes the lane only to stop
  it, no command starts before its interval has passed since its own last run ended.
\<close>

theorem min_interval_respected:
  assumes "run_machine (lane_step (new_lane lane cmds b)) lane_init ins = Some (s, h)"
    and "\<forall>i \<in> set ins. no_spurious_wake i"
  shows "spaced (new_lane lane cmds b) Map.empty h"
  using strict_lane.run_inv [of lane cmds b ins s h] assms
  by (simp add: guarded_run lane_spaced_inv_def)

lemma min_interval_respected_witness:
  "\<exists>s h. run_machine (lane_step (new_lane ''l'' demo_cmds True)) lane_init demo_inputs = Some (s, h)
     \<and> spaced (new_lane ''l'' demo_cmds True) Map.empty h"
proof -
  obtain s h where run: "run_machine (lane_step (new_lane ''l'' demo_cmds True)) lane_init demo_inputs = Some (s, h)"
    using demo_run by blast
  from min_interval_respected [OF run] run show ?thesis by (simp add: demo_inputs_def)
qed

text \<open>
  C19. The queue refines its specification: whatever requests have arrived, the lane's two
  containers hold one entry per requested command, in the order of first arrival, with all
  the waiters of that command in the order of their requests.
\<close>

theorem pending_refines_first_arrivals:
  "pr_view (drain_requests rs pr_default) =
     map (\<lambda>c. (c, waiters_for rs c)) (first_arrivals rs)"
  by (simp add: drain_requests_view pq.ok_empty pq.view_empty coalesce_all_spec)

text \<open>The starts among some effects.\<close>

definition run_starts :: "lane_output list \<Rightarrow> lane_output list" where
  "run_starts os = filter (\<lambda>e. \<exists>n t. e = RunCommand n t) os"

lemma run_starts_parts [simp]:
  "run_starts (xs @ ys) = run_starts xs @ run_starts ys" "run_starts [] = []"
  "run_starts (RunCommand n t # os) = RunCommand n t # run_starts os"
  "run_starts (CommandDone n t # os) = run_starts os"
  by (simp_all add: run_starts_def)

lemma run_starts_plain [simp]: "list_all plain os \<Longrightarrow> run_starts os = []"
  by (induction os) (auto simp: run_starts_def)

text \<open>Requests for the command that cools down join its waiters.\<close>

lemma cooling_joins:
  "l_pc s = LCooling cmd ws u \<Longrightarrow>
     run_machine (lane_step cfg) s (map (\<lambda>(w, t). LRequest (Some (lc_name cmd, w)) t) late) =
       Some (s\<lparr>l_pc := LCooling cmd (ws @ map fst late) u\<rparr>, [])"
proof (induction late arbitrary: s ws)
  case (Cons x late)
  obtain w t where x: "x = (w, t)" by fastforce
  from Cons.IH [of "s\<lparr>l_pc := LCooling cmd (ws @ [w]) u\<rparr>" "ws @ [w]"] Cons.prems show ?case
    by (simp add: x lane_step.simps)
qed simp

text \<open>
  C20. Requests for a busy command become one follow-up run. With nothing queued before and the
  running command the first to be asked for again, all requests for it that arrived during its
  run, in a lane that is not stopped, give exactly one more run with all of them as its waiters: at
  once when the command has no minimum interval, and otherwise when the interval has passed, then
  also for the requests that arrived meanwhile. The requests for other commands stay queued in the
  order of their first arrival.
\<close>

theorem busy_requests_become_one_run:
  assumes "l_pc s = LRunning cmd ws" "pr_ok (l_pending s)" "pr_view (l_pending s) = []"
    and "ln_commands cfg (lc_name cmd) = Some cmd" "first_arrivals requests = lc_name cmd # others"
    and "now + lc_min_interval cmd \<le> later" "later < instant_limit"
  shows "\<exists>s1 o1. lane_step cfg s (LDone result now requests False) = Some (s1, o1) \<and>
    pr_view (l_pending s1) = map (\<lambda>d. (d, waiters_for requests d)) others \<and>
    (if lc_min_interval cmd = 0
     then l_pc s1 = LRunning cmd (waiters_for requests (lc_name cmd)) \<and> run_starts o1 = [RunCommand (lc_name cmd) now]
     else run_starts o1 = [] \<and>
       (\<exists>s2 o2. run_machine (lane_step cfg) s1
            (map (\<lambda>(w, t). LRequest (Some (lc_name cmd, w)) t) late @ [LTimer later]) = Some (s2, o2) \<and>
          l_pc s2 = LRunning cmd (waiters_for requests (lc_name cmd) @ map fst late) \<and>
          run_starts o2 = [RunCommand (lc_name cmd) later] \<and> l_pending s2 = l_pending s1))"
proof -
  let ?c = "lc_name cmd"
  let ?p = "drain_requests requests (l_pending s)"
  have "pr_view ?p = (?c, waiters_for requests ?c) # map (\<lambda>d. (d, waiters_for requests d)) others"
    by (simp add: drain_requests_view [OF assms(2)] assms(3,5) coalesce_all_spec)
  from pq.pop_take [OF drain_requests_ok [OF assms(2)] this] obtain q1 q2 where
    q: "pop_next_command ?p = (Some ?c, q1)" "take_waiters ?c q1 = (waiters_for requests ?c, q2)"
      "pr_view q2 = map (\<lambda>d. (d, waiters_for requests d)) others" by auto
  note step = lane_step.simps [of cfg s] dispatch.simps [of cfg now]
  show ?thesis
  proof (cases "lc_min_interval cmd = 0")
    case True
    then show ?thesis using assms(1,4) q by (simp add: step Let_def begin_run_def interval_wait_def)
  next
    case False
    let ?s1 = "s\<lparr>l_last_finished := (l_last_finished s)(?c \<mapsto> now), l_pending := q2,
      l_pc := LCooling cmd (waiters_for requests ?c) (now + lc_min_interval cmd)\<rparr>"
    have wait: "interval_wait cmd ((l_last_finished s)(?c \<mapsto> now)) now = WaitUntil (now + lc_min_interval cmd)"
      using assms(6,7) False by (simp add: interval_wait_def instant_add_def)
    have one: "\<exists>o1. lane_step cfg s (LDone result now requests False) = Some (?s1, o1) \<and> run_starts o1 = []"
      using assms(1,4) q wait by (simp add: step Let_def)
    have "run_machine (lane_step cfg) ?s1 (map (\<lambda>(w, t). LRequest (Some (?c, w)) t) late) =
        Some (?s1\<lparr>l_pc := LCooling cmd (waiters_for requests ?c @ map fst late) (now + lc_min_interval cmd)\<rparr>, [])"
      by (rule cooling_joins) simp
    then show ?thesis using one q(3) assms(6) False
      by (auto simp: run_append lane_step.simps begin_run_def)
  qed
qed

lemma busy_requests_become_one_run_witness:
  "\<exists>s1 s2 o1 o2. lane_step (new_lane ''l'' demo_cmds True)
     \<lparr>l_pc = LRunning \<lparr>lc_name = ''a'', lc_min_interval = 5\<rparr> [1], l_pending = pr_default,
      l_last_finished = Map.empty\<rparr> (LDone (Inl ''x'') 9 [(''a'', 2), (''b'', 3), (''a'', 4)] False) = Some (s1, o1)
     \<and> run_machine (lane_step (new_lane ''l'' demo_cmds True)) s1 [LRequest (Some (''a'', 6)) 12, LTimer 14] = Some (s2, o2)
     \<and> l_pc s2 = LRunning \<lparr>lc_name = ''a'', lc_min_interval = 5\<rparr> [2, 4, 6] \<and> pr_view (l_pending s1) = [(''b'', [3])]"
proof -
  let ?s = "\<lparr>l_pc = LRunning \<lparr>lc_name = ''a'', lc_min_interval = 5\<rparr> [1], l_pending = pr_default,
      l_last_finished = Map.empty\<rparr>" and ?rs = "[(''a'', 2), (''b'', 3), (''a'', 4)]"
  have "ln_commands (new_lane ''l'' demo_cmds True) ''a'' = Some \<lparr>lc_name = ''a'', lc_min_interval = 5\<rparr>"
    by (simp add: new_lane_def demo_cmds_def)
  moreover have "first_arrivals ?rs = [''a'', ''b'']" "waiters_for ?rs ''a'' = [2, 4]" "waiters_for ?rs ''b'' = [3]"
    by (simp_all add: first_arrivals_def waiters_for_def)
  ultimately show ?thesis
    using busy_requests_become_one_run [of ?s "\<lparr>lc_name = ''a'', lc_min_interval = 5\<rparr>" "[1]"
      "new_lane ''l'' demo_cmds True" ?rs "[''b'']" 9 14 "Inl ''x''" "[(6, 12)]"]
    by (auto simp: pq.ok_empty pq.view_empty instant_limit_def)
qed

text \<open>
  An interval the configuration accepts can crash a lane: with the largest interval TOML
  can express, the second request for a command overflows \<^verbatim>\<open>Instant + Duration\<close> once the
  first run ended a second or more after the clock's origin, and its waiter gets no answer.
\<close>

lemma huge_interval_panics:
  assumes "l_pc s = LIdle" "l_pending s = pr_default" "ln_commands cfg c = Some cmd" "lc_name cmd = c"
    and "lc_min_interval cmd = from_secs 9223372036854775807"
    and "l_last_finished s c = Some t" "secs 1 \<le> t"
  shows "\<exists>s'. lane_step cfg s (LRequest (Some (c, w)) now) = Some (s', []) \<and>
     l_pc s' = LPanicked \<and> held s' = []"
proof -
  have "interval_wait cmd (l_last_finished s) now = IntervalOverflow"
    using assms by (simp add: interval_wait_def from_secs_def secs_def instant_add_def instant_limit_def)
  moreover have "pr_view (pr_push c w pr_default) = [(c, [w])]"
    by (simp add: pq.view_push pq.ok_empty pq.view_empty)
  then obtain q1 q2 where "pop_next_command (pr_push c w pr_default) = (Some c, q1)"
    "take_waiters c q1 = ([w], q2)" "pr_view q2 = []"
    using pq.pop_take [OF pq.ok_push [OF pq.ok_empty], of c w c "[w]" "[]"] by auto
  ultimately show ?thesis
    using assms by (simp add: lane_step.simps dispatch.simps held_def queued_def)
qed

end
