(* ===== verification/Debouncer.thy ===== *)
theory Debouncer
  imports Command_Lane
begin

text \<open>
  The debouncer between a mailbox watcher and a command lane (\<^verbatim>\<open>src/src/debounce.rs\<close>): it
  collects notifications for a debounce time and a cooldown, submits one command for all of
  them, waits for its end and starts over when more notifications arrived meanwhile. The
  notification channel, the trigger and the clock are the environment; the number of
  notifications a \<^verbatim>\<open>try_recv\<close> loop finds is the observation \<open>DDrained\<close>.
\<close>

section \<open>The task\<close>

record debounce_config =
  db_debounce :: duration
  db_cooldown :: duration
  db_has_state :: bool

text \<open>\<open>DebounceRunner::new\<close>; the names it keeps are only logged.\<close>

definition new_debounce_runner :: "duration \<Rightarrow> duration \<Rightarrow> bool \<Rightarrow> debounce_config" where
  "new_debounce_runner debounce cooldown has_state =
     \<lparr>db_debounce = debounce, db_cooldown = cooldown, db_has_state = has_state\<rparr>"

datatype debounce_pc =
  DWait
| DDebouncing instant
| DDrainBefore
| DCooling instant
| DDrainCooled
| DStarting
| DRunning
| DDrainAfter
| DStopped

record debounce_state =
  d_pc :: debounce_pc
  d_last_finished :: "instant option"
  d_clock :: instant

datatype debounce_input =
  DShutdown watch_change
| DRecv "unit option"
| DTimer
| DDrained nat
| DStartResult "(trigger_error, unit) result"
| DFinished "(trigger_error, command_run_report) result"

datatype debounce_output =
  DMark rt_op
| TookEvent instant
| Submit instant
| RunOver instant
| RunAbandoned instant

definition debounce_init :: debounce_state where
  "debounce_init = \<lparr>d_pc = DWait, d_last_finished = None, d_clock = 0\<rparr>"

definition db_mark_event :: "debounce_config \<Rightarrow> instant \<Rightarrow> debounce_output list" where
  "db_mark_event cfg now = TookEvent now # (if db_has_state cfg then [DMark OpEvent] else [])"

definition drain_events :: "debounce_config \<Rightarrow> nat \<Rightarrow> instant \<Rightarrow> debounce_output list" where
  "drain_events cfg n now = concat (replicate n (db_mark_event cfg now))"

text \<open>
  \<open>sleep_or_shutdown\<close>: no suspension for a zero duration; otherwise until the timer fires, or
  the shutdown channel changes, which ends the sleep early and the task if it asks to stop.
\<close>

definition sleep_or_shutdown :: "duration \<Rightarrow> instant \<Rightarrow> (instant \<Rightarrow> debounce_pc) \<Rightarrow> debounce_pc \<Rightarrow> debounce_pc" where
  "sleep_or_shutdown d now sleeping awake = (if d = 0 then awake else sleeping (now + d))"

fun sleep_ends :: "instant \<Rightarrow> instant \<Rightarrow> debounce_pc \<Rightarrow> debounce_input \<Rightarrow> debounce_pc option" where
  "sleep_ends until now awake DTimer = (if until \<le> now then Some awake else None)"
| "sleep_ends until now awake (DShutdown changed) = Some (if asks_stop changed then DStopped else awake)"
| "sleep_ends until now awake _ = None"

text \<open>\<open>wait_for_cooldown\<close> up to its sleep; \<open>None\<close> when it does not sleep.\<close>

definition wait_for_cooldown :: "debounce_config \<Rightarrow> instant option \<Rightarrow> instant \<Rightarrow> instant option" where
  "wait_for_cooldown cfg last_finished now = (case last_finished of
     None \<Rightarrow> None
   | Some finished \<Rightarrow>
       if db_cooldown cfg = 0 then None
       else let el = elapsed now finished in
         if db_cooldown cfg \<le> el then None else Some (now + (db_cooldown cfg - el)))"

text \<open>\<open>run_once\<close>: entered by calling the trigger, left with its boolean result.\<close>

definition submit :: "debounce_state \<Rightarrow> instant \<Rightarrow> debounce_state \<times> debounce_output list" where
  "submit s now = (s\<lparr>d_pc := DStarting\<rparr>, [Submit now])"

datatype run_once_step = RunStays | RunReturns bool "debounce_output list"

fun run_once :: "debounce_pc \<Rightarrow> instant \<Rightarrow> debounce_input \<Rightarrow> run_once_step option" where
  "run_once DStarting now (DStartResult (Inr _)) = Some RunStays"
| "run_once DStarting now (DStartResult (Inl e)) = Some (RunReturns True [RunOver now])"
| "run_once DRunning now (DFinished result) = Some (RunReturns True [RunOver now])"
| "run_once pc now (DShutdown changed) = Some (RunReturns (\<not> asks_stop changed) [RunAbandoned now])"
| "run_once _ now _ = None"

definition enter_debounce :: "debounce_config \<Rightarrow> instant \<Rightarrow> debounce_state \<Rightarrow> debounce_state" where
  "enter_debounce cfg now s =
     s\<lparr>d_pc := sleep_or_shutdown (db_debounce cfg) now DDebouncing DDrainBefore\<rparr>"

fun debounce_at ::
  "debounce_config \<Rightarrow> instant \<Rightarrow> debounce_state \<Rightarrow> debounce_input
     \<Rightarrow> (debounce_state \<times> debounce_output list) option" where
  "debounce_at cfg now s i = (case d_pc s of
     DWait \<Rightarrow> (case i of
         DShutdown changed \<Rightarrow> Some (if asks_stop changed then s\<lparr>d_pc := DStopped\<rparr> else s, [])
       | DRecv None \<Rightarrow> Some (s\<lparr>d_pc := DStopped\<rparr>, [])
       | DRecv (Some _) \<Rightarrow> Some (enter_debounce cfg now s, db_mark_event cfg now)
       | _ \<Rightarrow> None)
   | DDebouncing until \<Rightarrow> map_option (\<lambda>pc. (s\<lparr>d_pc := pc\<rparr>, [])) (sleep_ends until now DDrainBefore i)
   | DDrainBefore \<Rightarrow> (case i of
         DDrained n \<Rightarrow> (case wait_for_cooldown cfg (d_last_finished s) now of
             None \<Rightarrow> (case submit s now of (s', os) \<Rightarrow> Some (s', drain_events cfg n now @ os))
           | Some until \<Rightarrow> Some (s\<lparr>d_pc := DCooling until\<rparr>, drain_events cfg n now))
       | _ \<Rightarrow> None)
   | DCooling until \<Rightarrow> map_option (\<lambda>pc. (s\<lparr>d_pc := pc\<rparr>, [])) (sleep_ends until now DDrainCooled i)
   | DDrainCooled \<Rightarrow> (case i of
         DDrained n \<Rightarrow> (case submit s now of (s', os) \<Rightarrow> Some (s', drain_events cfg n now @ os))
       | _ \<Rightarrow> None)
   | DDrainAfter \<Rightarrow> (case i of
         DDrained n \<Rightarrow> Some (if n = 0 then s\<lparr>d_pc := DWait\<rparr> else enter_debounce cfg now s,
                        drain_events cfg n now)
       | _ \<Rightarrow> None)
   | DStopped \<Rightarrow> None
   | pc \<Rightarrow> (case run_once pc now i of
         None \<Rightarrow> None
       | Some RunStays \<Rightarrow> Some (s\<lparr>d_pc := DRunning\<rparr>, [])
       | Some (RunReturns True os) \<Rightarrow>
           Some (s\<lparr>d_pc := DDrainAfter, d_last_finished := Some now\<rparr>, os)
       | Some (RunReturns False os) \<Rightarrow> Some (s\<lparr>d_pc := DStopped\<rparr>, os)))"

declare debounce_at.simps [simp del]

text \<open>An observation carries the time it is made; the monotonic clock never goes back.\<close>

fun debounce_step :: "debounce_config \<Rightarrow> (debounce_state, debounce_input \<times> instant, debounce_output) machine" where
  "debounce_step cfg s (i, now) =
     (if d_clock s \<le> now then debounce_at cfg now (s\<lparr>d_clock := now\<rparr>) i else None)"

section \<open>Invariant\<close>

text \<open>Notifications taken since the last submission, and the time of the first of them.\<close>

fun unserved :: "instant list \<Rightarrow> debounce_output list \<Rightarrow> instant list" where
  "unserved ts [] = ts"
| "unserved ts (TookEvent t # os) = unserved (ts @ [t]) os"
| "unserved ts (Submit t # os) = unserved [] os"
| "unserved ts (_ # os) = unserved ts os"

text \<open>
  What every submission of a history must satisfy: there is a notification it serves, no
  submission is open, the first notification is at least the debounce time old, and the last
  submission ended at least the cooldown ago (the last two for runs whose sleeps are not cut
  short).
\<close>

fun good_history ::
  "debounce_config \<Rightarrow> bool \<Rightarrow> instant list \<Rightarrow> bool \<Rightarrow> instant option \<Rightarrow> debounce_output list \<Rightarrow> bool" where
  "good_history cfg timed ts open_run fin [] \<longleftrightarrow> True"
| "good_history cfg timed ts open_run fin (TookEvent t # os) \<longleftrightarrow>
     good_history cfg timed (ts @ [t]) open_run fin os"
| "good_history cfg timed ts open_run fin (Submit t # os) \<longleftrightarrow>
     ts \<noteq> [] \<and> \<not> open_run \<and>
     (timed \<longrightarrow> hd ts + db_debounce cfg \<le> t \<and> (\<forall>f. fin = Some f \<longrightarrow> f + db_cooldown cfg \<le> t)) \<and>
     good_history cfg timed [] True fin os"
| "good_history cfg timed ts open_run fin (RunOver t # os) \<longleftrightarrow>
     open_run \<and> good_history cfg timed ts False (Some t) os"
| "good_history cfg timed ts open_run fin (RunAbandoned t # os) \<longleftrightarrow>
     open_run \<and> good_history cfg timed ts False (Some t) os"
| "good_history cfg timed ts open_run fin (DMark op # os) \<longleftrightarrow> good_history cfg timed ts open_run fin os"

fun open_after :: "bool \<Rightarrow> debounce_output list \<Rightarrow> bool" where
  "open_after b [] = b"
| "open_after b (Submit t # os) = open_after True os"
| "open_after b (RunOver t # os) = open_after False os"
| "open_after b (RunAbandoned t # os) = open_after False os"
| "open_after b (_ # os) = open_after b os"

fun over_at :: "instant option \<Rightarrow> debounce_output list \<Rightarrow> instant option" where
  "over_at l [] = l"
| "over_at l (RunOver t # os) = over_at (Some t) os"
| "over_at l (RunAbandoned t # os) = over_at (Some t) os"
| "over_at l (_ # os) = over_at l os"


lemma good_history_append:
  "good_history cfg b ts op fin (xs @ ys) \<longleftrightarrow> good_history cfg b ts op fin xs \<and>
     good_history cfg b (unserved ts xs) (open_after op xs) (over_at fin xs) ys"
  by (induction cfg b ts op fin xs rule: good_history.induct) auto

lemma unserved_append: "unserved ts (xs @ ys) = unserved (unserved ts xs) ys"
  by (induction ts xs rule: unserved.induct) auto

lemma open_after_append: "open_after b (xs @ ys) = open_after (open_after b xs) ys"
  by (induction b xs rule: open_after.induct) auto

lemma over_at_append: "over_at l (xs @ ys) = over_at (over_at l xs) ys"
  by (induction l xs rule: over_at.induct) auto

lemmas history_append = good_history_append unserved_append open_after_append over_at_append

lemma mark_event_history [simp]:
  "good_history cfg b ts op fin (db_mark_event cfg' now)"
  "unserved ts (db_mark_event cfg' now) = ts @ [now]"
  "open_after op (db_mark_event cfg' now) = op"
  "over_at fin (db_mark_event cfg' now) = fin"
  by (simp_all add: db_mark_event_def)

lemma drain_events_0 [simp]: "drain_events cfg 0 now = []"
  by (simp add: drain_events_def)

lemma drain_events_Suc: "drain_events cfg (Suc n) now = db_mark_event cfg now @ drain_events cfg n now"
  by (simp add: drain_events_def)

lemma drain_events_history [simp]:
  "good_history cfg b ts op fin (drain_events cfg' n now)"
  "unserved ts (drain_events cfg' n now) = ts @ replicate n now"
  "open_after op (drain_events cfg' n now) = op"
  "over_at fin (drain_events cfg' n now) = fin"
  by (induction n arbitrary: ts) (simp_all add: drain_events_Suc history_append)

text \<open>The first notification of the batch being collected is at least the debounce time old.\<close>

definition batch_due :: "debounce_config \<Rightarrow> instant list \<Rightarrow> instant \<Rightarrow> bool" where
  "batch_due cfg ts t \<longleftrightarrow> hd ts + db_debounce cfg \<le> t"

definition cooled_by :: "debounce_config \<Rightarrow> instant option \<Rightarrow> instant \<Rightarrow> bool" where
  "cooled_by cfg fin t \<longleftrightarrow> (\<forall>f. fin = Some f \<longrightarrow> f + db_cooldown cfg \<le> t)"

definition pc_inv :: "debounce_config \<Rightarrow> bool \<Rightarrow> debounce_state \<Rightarrow> instant list \<Rightarrow> bool" where
  "pc_inv cfg timed s ts \<longleftrightarrow> (case d_pc s of
     DDebouncing until \<Rightarrow> ts \<noteq> [] \<and> until = hd ts + db_debounce cfg
   | DDrainBefore \<Rightarrow> ts \<noteq> [] \<and> (timed \<longrightarrow> batch_due cfg ts (d_clock s))
   | DCooling until \<Rightarrow> ts \<noteq> [] \<and> (timed \<longrightarrow> batch_due cfg ts (d_clock s)) \<and>
       cooled_by cfg (d_last_finished s) until
   | DDrainCooled \<Rightarrow> ts \<noteq> [] \<and> (timed \<longrightarrow> batch_due cfg ts (d_clock s) \<and>
       cooled_by cfg (d_last_finished s) (d_clock s))
   | DStopped \<Rightarrow> True
   | _ \<Rightarrow> ts = [])"

definition run_open :: "debounce_pc \<Rightarrow> bool" where
  "run_open pc \<longleftrightarrow> pc = DStarting \<or> pc = DRunning"

definition debounce_inv :: "debounce_config \<Rightarrow> bool \<Rightarrow> debounce_state \<Rightarrow> debounce_output list \<Rightarrow> bool" where
  "debounce_inv cfg timed s h \<longleftrightarrow> good_history cfg timed [] False None h \<and>
     pc_inv cfg timed s (unserved [] h) \<and>
     (\<forall>f. d_last_finished s = Some f \<longrightarrow> f \<le> d_clock s) \<and>
     (d_pc s \<noteq> DStopped \<longrightarrow> open_after False h = run_open (d_pc s) \<and> over_at None h = d_last_finished s)"

lemma wait_for_cooldown_cases:
  "wait_for_cooldown cfg fin now = None \<Longrightarrow> \<forall>f. fin = Some f \<longrightarrow> f \<le> now \<Longrightarrow> cooled_by cfg fin now"
  "wait_for_cooldown cfg fin now = Some until \<Longrightarrow> \<forall>f. fin = Some f \<longrightarrow> f \<le> now
     \<Longrightarrow> cooled_by cfg fin until \<and> now \<le> until"
  by (auto simp: wait_for_cooldown_def cooled_by_def elapsed_def Let_def split: option.splits if_splits)

lemma enter_debounce_pc:
  "d_pc (enter_debounce cfg now s) =
     (if db_debounce cfg = 0 then DDrainBefore else DDebouncing (now + db_debounce cfg))"
  "d_clock (enter_debounce cfg now s) = d_clock s"
  "d_last_finished (enter_debounce cfg now s) = d_last_finished s"
  by (auto simp: enter_debounce_def sleep_or_shutdown_def)

text \<open>Observations that do not wake a sleep or a run except to stop the task.\<close>

fun no_false_wake :: "debounce_input \<times> instant \<Rightarrow> bool" where
  "no_false_wake (DShutdown changed, t) = asks_stop changed"
| "no_false_wake _ = True"

lemma debounce_inv_init: "debounce_inv cfg timed debounce_init []"
  by (simp add: debounce_inv_def debounce_init_def pc_inv_def run_open_def)

lemmas debounce_case = debounce_at.simps debounce_inv_def pc_inv_def run_open_def history_append
  batch_due_def cooled_by_def enter_debounce_pc submit_def

lemma sleep_ends_cases:
  assumes "sleep_ends until now awake i = Some pc"
  shows "pc = DStopped \<or> (pc = awake \<and> (until \<le> now \<or> \<not> no_false_wake (i, now)))"
  using assms by (cases i) (auto split: if_splits)

lemma run_once_cases:
  assumes "run_once pc now i = Some r"
  shows "run_open pc \<and> ((r = RunStays \<and> pc = DStarting) \<or> r = RunReturns True [RunOver now]
     \<or> (\<exists>b. r = RunReturns b [RunAbandoned now])) \<or> (\<exists>b. r = RunReturns b [RunAbandoned now])"
  using assms by (cases "(pc, now, i)" rule: run_once.cases) (auto simp: run_open_def)

lemma debounce_wait_inv:
  assumes "debounce_inv cfg timed s h" "d_clock s \<le> now" "d_pc s = DWait"
    and "debounce_at cfg now (s\<lparr>d_clock := now\<rparr>) i = Some (s', os)"
  shows "debounce_inv cfg timed s' (h @ os)"
  using assms
  by (cases i rule: debounce_input.exhaust) (auto simp: debounce_case split: option.splits if_splits)

lemma debounce_at_sleep:
  "d_pc s = DDebouncing until \<Longrightarrow> debounce_at cfg now s i = Some (s', os) \<Longrightarrow>
     \<exists>pc. sleep_ends until now DDrainBefore i = Some pc \<and> s' = s\<lparr>d_pc := pc\<rparr> \<and> os = []"
  "d_pc s = DCooling until \<Longrightarrow> debounce_at cfg now s i = Some (s', os) \<Longrightarrow>
     \<exists>pc. sleep_ends until now DDrainCooled i = Some pc \<and> s' = s\<lparr>d_pc := pc\<rparr> \<and> os = []"
  by (auto simp: debounce_at.simps)

lemma pc_inv_simps:
  "d_pc s = DDebouncing until \<Longrightarrow> pc_inv cfg timed s ts \<longleftrightarrow> ts \<noteq> [] \<and> until = hd ts + db_debounce cfg"
  "d_pc s = DDrainBefore \<Longrightarrow> pc_inv cfg timed s ts \<longleftrightarrow> ts \<noteq> [] \<and> (timed \<longrightarrow> batch_due cfg ts (d_clock s))"
  "d_pc s = DCooling until \<Longrightarrow> pc_inv cfg timed s ts \<longleftrightarrow> ts \<noteq> [] \<and>
     (timed \<longrightarrow> batch_due cfg ts (d_clock s)) \<and> cooled_by cfg (d_last_finished s) until"
  "d_pc s = DDrainCooled \<Longrightarrow> pc_inv cfg timed s ts \<longleftrightarrow> ts \<noteq> [] \<and>
     (timed \<longrightarrow> batch_due cfg ts (d_clock s) \<and> cooled_by cfg (d_last_finished s) (d_clock s))"
  "d_pc s = DStopped \<Longrightarrow> pc_inv cfg timed s ts"
  "d_pc s = DWait \<or> d_pc s = DStarting \<or> d_pc s = DRunning \<or> d_pc s = DDrainAfter
     \<Longrightarrow> pc_inv cfg timed s ts \<longleftrightarrow> ts = []"
  by (auto simp: pc_inv_def)

lemma run_open_simps [simp]:
  "run_open DWait = False" "run_open (DDebouncing u) = False" "run_open DDrainBefore = False"
  "run_open (DCooling u) = False" "run_open DDrainCooled = False" "run_open DStarting = True"
  "run_open DRunning = True" "run_open DDrainAfter = False" "run_open DStopped = False"
  by (simp_all add: run_open_def)

lemma due_mono:
  "batch_due cfg ts t \<Longrightarrow> t \<le> u \<Longrightarrow> batch_due cfg ts u"
  "cooled_by cfg l t \<Longrightarrow> t \<le> u \<Longrightarrow> cooled_by cfg l u"
  by (auto simp: batch_due_def cooled_by_def dest: order.trans)

text \<open>Steps that emit nothing keep everything but the condition of the new suspension point.\<close>

lemma debounce_inv_silent:
  assumes "debounce_inv cfg timed s h" "d_clock s \<le> now" "run_open (d_pc s) = run_open pc"
    and "d_pc s \<noteq> DStopped" "pc_inv cfg timed (s\<lparr>d_clock := now, d_pc := pc\<rparr>) (unserved [] h)"
  shows "debounce_inv cfg timed (s\<lparr>d_clock := now, d_pc := pc\<rparr>) h"
  using assms unfolding debounce_inv_def by (auto intro: order.trans)

lemma debounce_sleep_inv:
  assumes inv: "debounce_inv cfg timed s h" and now: "d_clock s \<le> now"
    and wake: "timed \<longrightarrow> no_false_wake (i, now)"
    and pc: "(d_pc s = DDebouncing until \<and> awake = DDrainBefore) \<or> (d_pc s = DCooling until \<and> awake = DDrainCooled)"
    and step: "debounce_at cfg now (s\<lparr>d_clock := now\<rparr>) i = Some (s', os)"
  shows "debounce_inv cfg timed s' (h @ os)"
proof -
  obtain pc' where ends: "sleep_ends until now awake i = Some pc'"
    and s': "s' = s\<lparr>d_clock := now, d_pc := pc'\<rparr>" "os = []"
    using pc debounce_at_sleep [OF _ step] by auto
  have old: "pc_inv cfg timed s (unserved [] h)" using inv by (simp add: debounce_inv_def)
  have due: "timed \<Longrightarrow> pc' \<noteq> DStopped \<Longrightarrow> until \<le> now" using sleep_ends_cases [OF ends] wake by blast
  have "pc_inv cfg timed (s\<lparr>d_clock := now, d_pc := pc'\<rparr>) (unserved [] h)"
  proof (cases "pc' = DStopped")
    case False
    then have "pc' = awake" using sleep_ends_cases [OF ends] by blast
    with pc old now due show ?thesis
      by (elim disjE) (auto simp: pc_inv_simps intro: due_mono, simp add: batch_due_def)
  qed (simp add: pc_inv_simps)
  moreover have "run_open (d_pc s) = run_open pc'" "d_pc s \<noteq> DStopped"
    using pc sleep_ends_cases [OF ends] by auto
  ultimately show ?thesis
    using debounce_inv_silent [OF inv now] by (simp add: s')
qed

text \<open>Steps that emit \<open>os\<close>: what the invariant asks of the new suspension point.\<close>

definition next_state :: "debounce_state \<Rightarrow> instant \<Rightarrow> debounce_pc \<Rightarrow> instant option \<Rightarrow> debounce_state" where
  "next_state s now pc fin = s\<lparr>d_clock := now, d_pc := pc, d_last_finished := fin\<rparr>"

lemma next_state_fields [simp]:
  "d_pc (next_state s now pc fin) = pc" "d_clock (next_state s now pc fin) = now"
  "d_last_finished (next_state s now pc fin) = fin"
  by (simp_all add: next_state_def)

lemma debounce_inv_emit:
  assumes "debounce_inv cfg timed s h" "d_clock s \<le> now" "d_pc s \<noteq> DStopped"
    and "good_history cfg timed (unserved [] h) (run_open (d_pc s)) (d_last_finished s) os"
    and "pc \<noteq> DStopped \<Longrightarrow> open_after (run_open (d_pc s)) os = run_open pc"
    and "pc \<noteq> DStopped \<Longrightarrow> over_at (d_last_finished s) os = fin"
    and "fin = d_last_finished s \<or> fin = Some now"
    and "pc_inv cfg timed (next_state s now pc fin) (unserved (unserved [] h) os)"
  shows "debounce_inv cfg timed (next_state s now pc fin) (h @ os)"
proof -
  have "\<forall>f. d_last_finished s = Some f \<longrightarrow> f \<le> now"
    using assms(1,2) by (auto simp: debounce_inv_def intro: order.trans)
  moreover have "open_after False h = run_open (d_pc s)" "over_at None h = d_last_finished s"
    "good_history cfg timed [] False None h"
    using assms(1,3) by (simp_all add: debounce_inv_def)
  ultimately show ?thesis
    using assms(4-) unfolding debounce_inv_def history_append by (elim disjE) simp_all
qed

lemma debounce_at_drain:
  assumes "d_pc s = DDrainBefore \<or> d_pc s = DDrainCooled \<or> d_pc s = DDrainAfter"
    and "debounce_at cfg now (s\<lparr>d_clock := now\<rparr>) i = Some (s', os)"
  shows "\<exists>n pc os2. i = DDrained n \<and> s' = next_state s now pc (d_last_finished s) \<and>
     os = drain_events cfg n now @ os2 \<and>
     (case d_pc s of
        DDrainBefore \<Rightarrow> (case wait_for_cooldown cfg (d_last_finished s) now of
            None \<Rightarrow> pc = DStarting \<and> os2 = [Submit now]
          | Some until \<Rightarrow> pc = DCooling until \<and> os2 = [])
      | DDrainCooled \<Rightarrow> pc = DStarting \<and> os2 = [Submit now]
      | _ \<Rightarrow> os2 = [] \<and> pc = (if n = 0 then DWait
            else if db_debounce cfg = 0 then DDrainBefore else DDebouncing (now + db_debounce cfg)))"
proof -
  obtain n where i: "i = DDrained n" using assms by (cases i) (auto simp: debounce_at.simps)
  from assms(1) show ?thesis
  proof (elim disjE)
    assume pc: "d_pc s = DDrainBefore"
    with assms(2) show ?thesis
      by (cases "wait_for_cooldown cfg (d_last_finished s) now")
         (simp_all add: i debounce_at.simps next_state_def submit_def)
  next
    assume pc: "d_pc s = DDrainCooled"
    with assms(2) show ?thesis by (simp add: i debounce_at.simps next_state_def submit_def)
  next
    assume pc: "d_pc s = DDrainAfter"
    with assms(2) show ?thesis
      by (cases "n = 0")
         (simp_all add: i debounce_at.simps next_state_def enter_debounce_def sleep_or_shutdown_def)
  qed
qed

lemma debounce_drain_inv:
  assumes inv: "debounce_inv cfg timed s h" and now: "d_clock s \<le> now"
    and pc: "d_pc s = DDrainBefore \<or> d_pc s = DDrainCooled \<or> d_pc s = DDrainAfter"
    and step: "debounce_at cfg now (s\<lparr>d_clock := now\<rparr>) i = Some (s', os)"
  shows "debounce_inv cfg timed s' (h @ os)"
proof -
  from debounce_at_drain [OF pc step] obtain n pc' os2 where
    s': "s' = next_state s now pc' (d_last_finished s)" "os = drain_events cfg n now @ os2" and
    after: "case d_pc s of
        DDrainBefore \<Rightarrow> (case wait_for_cooldown cfg (d_last_finished s) now of
            None \<Rightarrow> pc' = DStarting \<and> os2 = [Submit now]
          | Some until \<Rightarrow> pc' = DCooling until \<and> os2 = [])
      | DDrainCooled \<Rightarrow> pc' = DStarting \<and> os2 = [Submit now]
      | _ \<Rightarrow> os2 = [] \<and> pc' = (if n = 0 then DWait
            else if db_debounce cfg = 0 then DDrainBefore else DDebouncing (now + db_debounce cfg))"
    by blast
  have old: "pc_inv cfg timed s (unserved [] h)" using inv by (simp add: debounce_inv_def)
  have fin: "\<forall>f. d_last_finished s = Some f \<longrightarrow> f \<le> now"
    using inv now by (auto simp: debounce_inv_def intro: order.trans)
  note wait = wait_for_cooldown_cases [OF _ fin, where cfg = cfg]
  note emit = debounce_inv_emit [OF inv now]
  from pc show ?thesis
  proof (elim disjE)
    assume pc: "d_pc s = DDrainBefore"
    with old have ts: "unserved [] h \<noteq> []" "timed \<longrightarrow> batch_due cfg (unserved [] h) now"
      using due_mono(1) [OF _ now] by (auto simp: pc_inv_simps)
    show ?thesis
    proof (cases "wait_for_cooldown cfg (d_last_finished s) now")
      case None
      with after pc ts wait(1) show ?thesis unfolding s'
        by (intro emit) (simp_all add: pc_inv_simps history_append batch_due_def cooled_by_def)
    next
      case (Some until)
      with after pc ts wait(2) show ?thesis unfolding s'
        by (intro emit) (simp_all add: pc_inv_simps history_append batch_due_def)
    qed
  next
    assume pc: "d_pc s = DDrainCooled"
    with old have ts: "unserved [] h \<noteq> []" "timed \<longrightarrow> batch_due cfg (unserved [] h) now"
      "timed \<longrightarrow> cooled_by cfg (d_last_finished s) now"
      using due_mono(1) [OF _ now] due_mono(2) [OF _ now] by (auto simp: pc_inv_simps)
    with after pc show ?thesis unfolding s'
      by (intro emit) (simp_all add: pc_inv_simps history_append batch_due_def cooled_by_def)
  next
    assume pc: "d_pc s = DDrainAfter"
    with old have ts: "unserved [] h = []" by (simp add: pc_inv_simps)
    have hd: "n \<noteq> 0 \<Longrightarrow> hd (replicate n now) = now" by (cases n) simp_all
    with after pc ts show ?thesis unfolding s'
      by (intro emit; cases "n = 0"; cases "db_debounce cfg = 0")
         (simp_all add: pc_inv_simps history_append batch_due_def)
  qed
qed

lemma debounce_at_run:
  assumes "run_open (d_pc s)" "debounce_at cfg now (s\<lparr>d_clock := now\<rparr>) i = Some (s', os)"
  shows "(s' = next_state s now DRunning (d_last_finished s) \<and> os = []) \<or>
     (s' = next_state s now DDrainAfter (Some now) \<and> (os = [RunOver now] \<or> os = [RunAbandoned now])) \<or>
     (s' = next_state s now DStopped (d_last_finished s) \<and> os = [RunAbandoned now])"
proof -
  obtain r where r: "run_once (d_pc s) now i = Some r"
    and s': "(s', os) = (case r of RunStays \<Rightarrow> (s\<lparr>d_clock := now, d_pc := DRunning\<rparr>, [])
      | RunReturns b os \<Rightarrow> if b then (s\<lparr>d_clock := now, d_pc := DDrainAfter, d_last_finished := Some now\<rparr>, os)
          else (s\<lparr>d_clock := now, d_pc := DStopped\<rparr>, os))"
  proof (cases "run_once (d_pc s) now i")
    case None
    with assms show ?thesis by (auto simp: run_open_def debounce_at.simps)
  next
    case (Some r)
    with assms that [OF Some] show ?thesis
      by (cases r) (auto simp: run_open_def debounce_at.simps split: bool.splits)
  qed
  from run_once_cases [OF r] s' show ?thesis
    by (elim disjE conjE exE) (auto simp: next_state_def split: if_splits)
qed

lemma debounce_run_inv:
  assumes inv: "debounce_inv cfg timed s h" and now: "d_clock s \<le> now" and pc: "run_open (d_pc s)"
    and step: "debounce_at cfg now (s\<lparr>d_clock := now\<rparr>) i = Some (s', os)"
  shows "debounce_inv cfg timed s' (h @ os)"
proof -
  have ts: "unserved [] h = []" "d_pc s \<noteq> DStopped"
    using inv pc by (auto simp: debounce_inv_def run_open_def pc_inv_simps)
  note emit = debounce_inv_emit [OF inv now ts(2)]
  from debounce_at_run [OF pc step] show ?thesis
    by (elim disjE conjE; simp only:; intro emit) (simp_all add: ts pc pc_inv_simps)
qed

lemma debounce_step_inv:
  assumes "debounce_inv cfg timed s h" "timed \<longrightarrow> no_false_wake i"
    and "debounce_step cfg s i = Some (s', os)"
  shows "debounce_inv cfg timed s' (h @ os)"
proof -
  obtain x now where i: "i = (x, now)" by (cases i)
  have at: "d_clock s \<le> now" "debounce_at cfg now (s\<lparr>d_clock := now\<rparr>) x = Some (s', os)"
    using assms(3) by (auto simp: i split: if_splits)
  show ?thesis
  proof (cases "d_pc s")
    case DWait
    with debounce_wait_inv assms(1) at show ?thesis by blast
  next
    case DStopped
    with at show ?thesis by (simp add: debounce_at.simps)
  next
    case (DDebouncing until)
    with debounce_sleep_inv [OF assms(1) at(1) _ _ at(2)] assms(2) show ?thesis unfolding i by blast
  next
    case (DCooling until)
    with debounce_sleep_inv [OF assms(1) at(1) _ _ at(2)] assms(2) show ?thesis unfolding i by blast
  qed (use debounce_drain_inv [OF assms(1) at(1) _ at(2)] debounce_run_inv [OF assms(1) at(1) _ at(2)]
       in \<open>auto simp: run_open_def\<close>)
qed

definition debounce_final :: "debounce_state \<Rightarrow> bool" where
  "debounce_final s \<longleftrightarrow> d_pc s = DStopped"

interpretation db: halting_machine "debounce_step cfg" debounce_init "debounce_inv cfg False" debounce_final
  by unfold_locales
    (auto simp: debounce_inv_init debounce_final_def debounce_at.simps intro: debounce_step_inv)

interpretation timed_db: step_machine "guarded no_false_wake (debounce_step cfg)" debounce_init
  "debounce_inv cfg True"
  by unfold_locales (auto simp: debounce_inv_init intro: debounce_step_inv)

section \<open>Progress\<close>

text \<open>Observations that need nobody but the clock and the notification channel.\<close>

fun own_progress :: "debounce_input \<times> instant \<Rightarrow> bool" where
  "own_progress (DTimer, t) = True"
| "own_progress (DDrained n, t) = True"
| "own_progress _ = False"

definition collecting :: "debounce_pc \<Rightarrow> bool" where
  "collecting pc \<longleftrightarrow> (\<exists>u. pc = DDebouncing u) \<or> pc = DDrainBefore \<or> (\<exists>u. pc = DCooling u) \<or> pc = DDrainCooled"

definition can_submit :: "debounce_config \<Rightarrow> debounce_state \<Rightarrow> bool" where
  "can_submit cfg s \<longleftrightarrow> (\<exists>ins s' os t. (\<forall>i \<in> set ins. own_progress i) \<and>
     run_machine (debounce_step cfg) s ins = Some (s', os) \<and> Submit t \<in> set os \<and> d_pc s' = DStarting)"

lemma can_submit_step:
  assumes "debounce_step cfg s i = Some (sa, osa)" "own_progress i" "can_submit cfg sa"
  shows "can_submit cfg s"
proof -
  from assms(3) obtain ins s' os t where "\<forall>i \<in> set ins. own_progress i"
    "run_machine (debounce_step cfg) sa ins = Some (s', os)" "Submit t \<in> set os" "d_pc s' = DStarting"
    by (auto simp: can_submit_def)
  with assms(1,2) show ?thesis unfolding can_submit_def
    by (intro exI [of _ "i # ins"] exI [of _ s'] exI [of _ "osa @ os"] exI [of _ t]) auto
qed

lemma can_submit_now:
  assumes "debounce_step cfg s i = Some (sa, os)" "own_progress i" "Submit t \<in> set os" "d_pc sa = DStarting"
  shows "can_submit cfg s"
  using assms unfolding can_submit_def
  by (intro exI [of _ "[i]"] exI [of _ sa] exI [of _ os] exI [of _ t]) auto

lemma can_submit_cooled: "d_pc s = DDrainCooled \<Longrightarrow> can_submit cfg s"
  by (rule can_submit_now [where i = "(DDrained 0, d_clock s)" and t = "d_clock s"])
     (auto simp: debounce_at.simps submit_def)

lemma can_submit_cooling: "d_pc s = DCooling u \<Longrightarrow> can_submit cfg s"
  by (rule can_submit_step [where i = "(DTimer, max u (d_clock s))" and osa = "[]"
        and sa = "s\<lparr>d_clock := max u (d_clock s), d_pc := DDrainCooled\<rparr>"])
     (auto simp: debounce_at.simps intro: can_submit_cooled)

lemma can_submit_before:
  assumes pc: "d_pc s = DDrainBefore"
  shows "can_submit cfg s"
proof (cases "wait_for_cooldown cfg (d_last_finished s) (d_clock s)")
  case None
  show ?thesis
    by (rule can_submit_now [where i = "(DDrained 0, d_clock s)" and t = "d_clock s" and os = "[Submit (d_clock s)]"
        and sa = "s\<lparr>d_pc := DStarting\<rparr>"]) (simp_all add: pc None debounce_at.simps submit_def)
next
  case (Some u)
  show ?thesis
    by (rule can_submit_step [where i = "(DDrained 0, d_clock s)" and osa = "[]" and sa = "s\<lparr>d_pc := DCooling u\<rparr>"])
       (simp_all add: pc Some debounce_at.simps can_submit_cooling)
qed

lemma can_submit_debouncing: "d_pc s = DDebouncing u \<Longrightarrow> can_submit cfg s"
  by (rule can_submit_step [where i = "(DTimer, max u (d_clock s))" and osa = "[]"
        and sa = "s\<lparr>d_clock := max u (d_clock s), d_pc := DDrainBefore\<rparr>"])
     (auto simp: debounce_at.simps intro: can_submit_before)

lemma can_submit_collecting: "collecting (d_pc s) \<Longrightarrow> can_submit cfg s"
  unfolding collecting_def
  using can_submit_debouncing can_submit_before can_submit_cooling can_submit_cooled by blast

lemma unserved_collecting:
  assumes "debounce_inv cfg timed s h" "d_pc s \<noteq> DStopped"
  shows "unserved [] h \<noteq> [] \<longleftrightarrow> collecting (d_pc s)"
proof -
  have inv: "pc_inv cfg timed s (unserved [] h)" using assms by (simp add: debounce_inv_def)
  show ?thesis
    by (cases "d_pc s") (use inv assms(2) in \<open>simp_all add: pc_inv_simps collecting_def\<close>)
qed

section \<open>Properties\<close>

text \<open>
  C16. The debouncer never loses a notification: in every reachable state of a task that has not
  been stopped, either every notification it took was followed by a submission, or it is still
  collecting, and then its own timers and polls of the channel suffice to reach the next
  submission.
\<close>

theorem notifications_are_served:
  assumes "reaches (debounce_step cfg) debounce_init s h" "d_pc s \<noteq> DStopped"
  shows "unserved [] h = [] \<or> (collecting (d_pc s) \<and> can_submit cfg s)"
  using unserved_collecting [OF db.reaches_inv [OF assms(1)] assms(2)] can_submit_collecting by blast

definition demo_debounce :: debounce_config where
  "demo_debounce = \<lparr>db_debounce = 10, db_cooldown = 20, db_has_state = True\<rparr>"

definition demo_notifications :: "(debounce_input \<times> instant) list" where
  "demo_notifications = [(DRecv (Some ()), 1), (DTimer, 11), (DDrained 2, 11), (DStartResult (Inr ()), 12),
     (DFinished (Inr (ReportError ''x'')), 15), (DDrained 1, 15), (DTimer, 25), (DDrained 0, 25)]"

lemmas debounce_eval = demo_debounce_def demo_notifications_def debounce_init_def debounce_at.simps
  enter_debounce_def sleep_or_shutdown_def wait_for_cooldown_def submit_def elapsed_def drain_events_def
  db_mark_event_def Let_def numeral_eq_Suc

lemma demo_debounce_run:
  "\<exists>s h. run_machine (debounce_step demo_debounce) debounce_init demo_notifications = Some (s, h)
     \<and> d_pc s = DCooling 35 \<and> unserved [] h = [15]
     \<and> filter (\<lambda>e. \<exists>t. e = Submit t) h = [Submit 11]"
proof -
  have "(case run_machine (debounce_step demo_debounce) debounce_init demo_notifications of
      Some (s, h) \<Rightarrow> d_pc s = DCooling 35 \<and> unserved [] h = [15]
        \<and> filter (\<lambda>e. \<exists>t. e = Submit t) h = [Submit 11] | None \<Rightarrow> False)"
    by (simp add: debounce_eval)
  then show ?thesis by (auto split: option.splits)
qed

lemma notifications_are_served_witness:
  "\<exists>s h. reaches (debounce_step demo_debounce) debounce_init s h \<and> unserved [] h = [15]
     \<and> can_submit demo_debounce s"
proof -
  obtain s h where r: "run_machine (debounce_step demo_debounce) debounce_init demo_notifications = Some (s, h)"
    "d_pc s = DCooling 35" "unserved [] h = [15]" using demo_debounce_run by blast
  with notifications_are_served [OF run_reaches [OF r(1)]] run_reaches [OF r(1)] show ?thesis by auto
qed

text \<open>
  C23. Every submission is due: as long as the shutdown channel wakes the task only to stop it,
  each submission serves at least one new notification, the previous run is over, the oldest
  notification served waited the debounce time, and the cooldown since the last run has passed.
\<close>

theorem submissions_are_due:
  assumes "run_machine (debounce_step cfg) debounce_init ins = Some (s, h)"
    and "\<forall>i \<in> set ins. no_false_wake i"
  shows "good_history cfg True [] False None h"
  using timed_db.run_inv [of cfg ins s h] assms by (simp add: guarded_run debounce_inv_def)

lemma submissions_are_due_witness:
  "\<exists>s h. run_machine (debounce_step demo_debounce) debounce_init demo_notifications = Some (s, h)
     \<and> good_history demo_debounce True [] False None h \<and> Submit 11 \<in> set h"
proof -
  obtain s h where r: "run_machine (debounce_step demo_debounce) debounce_init demo_notifications = Some (s, h)"
    "filter (\<lambda>e. \<exists>t. e = Submit t) h = [Submit 11]" using demo_debounce_run by blast
  then have "Submit 11 \<in> set h" by (metis filter_is_subset list.set_intros(1) subsetD)
  with submissions_are_due [OF r(1)] r(1) show ?thesis by (auto simp: demo_notifications_def)
qed

end
