(* ===== verification/Shell_Process.thy ===== *)
theory Shell_Process
  imports Step_Machine
begin

text \<open>
  Running a shell command (\<^verbatim>\<open>src/src/process.rs\<close>): two reader tasks share one output limit,
  the supervisor polls the child against a deadline, the shutdown channel and the limit
  channel, terminates the process group with SIGTERM and SIGKILL, collects what the readers
  captured and classifies the run. The operating system (spawn, wait, kill, pipe reads) and
  the clock are the environment: every result they give is an observation.
\<close>

section \<open>Captured output\<close>

datatype stream_mode = ModeNull | ModeCapture | ModeInherit

datatype stream = Stdout | Stderr

record captured_output =
  co_stdout :: string
  co_stderr :: string
  co_stdout_truncated :: bool
  co_stderr_truncated :: bool

definition stdout_len :: "captured_output \<Rightarrow> nat" where
  "stdout_len c = length (co_stdout c)"

definition stderr_len :: "captured_output \<Rightarrow> nat" where
  "stderr_len c = length (co_stderr c)"

definition captured_any :: "captured_output \<Rightarrow> bool" where
  "captured_any c \<longleftrightarrow> \<not> (co_stdout c = [] \<and> co_stderr c = [])"

record pipe_limit_exceeded =
  ex_stream :: stream
  ex_limit :: usize
  ex_output :: string

record exit_status =
  es_code :: "int option"
  es_signal :: "int option"

definition exit_success :: "exit_status \<Rightarrow> bool" where
  "exit_success st \<longleftrightarrow> es_code st = Some 0"

text \<open>\<^verbatim>\<open>ShellOutput\<close> and \<^verbatim>\<open>OutputLimitExceeded\<close> carry the captured output with their own fields.\<close>

datatype shell_run =
  Completed exit_status captured_output
| TimedOut captured_output
| Cancelled captured_output
| OutputLimitExceeded stream usize captured_output

fun run_output :: "shell_run \<Rightarrow> captured_output" where
  "run_output (Completed st c) = c"
| "run_output (TimedOut c) = c"
| "run_output (Cancelled c) = c"
| "run_output (OutputLimitExceeded st l c) = c"

datatype shell_end =
  EndCompleted exit_status
| EndTimedOut
| EndCancelled
| EndExceeded pipe_limit_exceeded

datatype process_error = StartError string | WaitError string | OutputError string

section \<open>The pipe readers\<close>

definition saturating_sub64 :: "u64 \<Rightarrow> u64 \<Rightarrow> u64" where
  "saturating_sub64 a b = (if b \<le> a then a - b else 0)"

definition saturating_add64 :: "u64 \<Rightarrow> u64 \<Rightarrow> u64" where
  "saturating_add64 a b = (if unat a + unat b < 2 ^ 64 then a + b else - 1)"

text \<open>\<^verbatim>\<open>SharedOutputLimit::reserve\<close>: the bytes allowed and the new count.\<close>

definition reserve :: "usize \<Rightarrow> usize \<Rightarrow> usize \<Rightarrow> usize \<times> usize" where
  "reserve limit used requested =
     (let remaining = saturating_sub64 limit used;
          allowed = min remaining requested
      in (allowed, saturating_add64 used allowed))"

text \<open>What one read of the pipe gives; no bytes is the end of the stream.\<close>

datatype pipe_read = PipeBytes string | PipeIoError string | ReaderPanicked

datatype reader =
  Reading string
| ReadOk string
| ReadTooLarge pipe_limit_exceeded
| ReadIo string
| ReadLost

record pipes =
  pp_limit :: "usize option"
  pp_used :: usize
  pp_out :: "reader option"
  pp_err :: "reader option"
  pp_queue :: "pipe_limit_exceeded list"

definition READ_BUFFER :: nat where "READ_BUFFER = 8192"

text \<open>One round of \<open>read_pipe\<close>: the reader, the shared count and the messages sent.\<close>

fun read_pipe ::
  "usize option \<Rightarrow> usize \<Rightarrow> stream \<Rightarrow> string \<Rightarrow> pipe_read \<Rightarrow> reader \<times> usize \<times> pipe_limit_exceeded list" where
  "read_pipe limit used stream output (PipeIoError e) = (ReadIo e, used, [])"
| "read_pipe limit used stream output ReaderPanicked = (ReadLost, used, [])"
| "read_pipe limit used stream output (PipeBytes bytes) =
     (if bytes = [] then (ReadOk output, used, [])
      else (case limit of
          None \<Rightarrow> (Reading (output @ bytes), used, [])
        | Some l \<Rightarrow>
            (case reserve l used (of_nat (length bytes)) of (allowed, used') \<Rightarrow>
               let output' = output @ take (unat allowed) bytes in
               if unat allowed < length bytes
               then (let exceeded = \<lparr>ex_stream = stream, ex_limit = l, ex_output = output'\<rparr>
                     in (ReadTooLarge exceeded, used', [exceeded]))
               else (Reading output', used', []))))"

fun pipe_reader :: "pipes \<Rightarrow> stream \<Rightarrow> reader option" where
  "pipe_reader p Stdout = pp_out p"
| "pipe_reader p Stderr = pp_err p"

fun set_reader :: "stream \<Rightarrow> reader \<Rightarrow> pipes \<Rightarrow> pipes" where
  "set_reader Stdout r p = p\<lparr>pp_out := Some r\<rparr>"
| "set_reader Stderr r p = p\<lparr>pp_err := Some r\<rparr>"

definition pipes_step :: "pipes \<Rightarrow> stream \<Rightarrow> pipe_read \<Rightarrow> pipes option" where
  "pipes_step p stream ev = (case pipe_reader p stream of
     Some (Reading output) \<Rightarrow>
       if (case ev of PipeBytes bytes \<Rightarrow> length bytes \<le> READ_BUFFER | _ \<Rightarrow> True) then
         (case read_pipe (pp_limit p) (pp_used p) stream output ev of (r, used, sent) \<Rightarrow>
            Some (set_reader stream r (p\<lparr>pp_used := used, pp_queue := pp_queue p @ sent\<rparr>)))
       else None
   | _ \<Rightarrow> None)"

definition configure_stdio :: "usize option \<Rightarrow> stream_mode \<Rightarrow> stream_mode \<Rightarrow> pipes" where
  "configure_stdio limit out_mode err_mode = \<lparr>pp_limit = limit, pp_used = 0,
     pp_out = (if out_mode = ModeCapture then Some (Reading []) else None),
     pp_err = (if err_mode = ModeCapture then Some (Reading []) else None), pp_queue = []\<rparr>"

text \<open>
  \<open>collect_pipe\<close> and \<open>collect_captured_output\<close>; the outer \<open>None\<close> is a reader still to be
  awaited. Standard output is awaited first, and its failure ends the collection.
\<close>

datatype pipe_output = PipeData string | PipeTooLarge pipe_limit_exceeded

fun collect_pipe :: "reader option \<Rightarrow> (process_error, pipe_output) result option" where
  "collect_pipe None = Some (Inr (PipeData []))"
| "collect_pipe (Some (Reading output)) = None"
| "collect_pipe (Some (ReadOk output)) = Some (Inr (PipeData output))"
| "collect_pipe (Some (ReadTooLarge ex)) = Some (Inr (PipeTooLarge ex))"
| "collect_pipe (Some (ReadIo e)) = Some (Inl (OutputError e))"
| "collect_pipe (Some ReadLost) = Some (Inl (OutputError ''pipe reader task failed''))"

fun pipe_bytes :: "pipe_output \<Rightarrow> string" where
  "pipe_bytes (PipeData output) = output"
| "pipe_bytes (PipeTooLarge ex) = ex_output ex"

fun pipe_exceeded :: "pipe_output \<Rightarrow> pipe_limit_exceeded option" where
  "pipe_exceeded (PipeData output) = None"
| "pipe_exceeded (PipeTooLarge ex) = Some ex"

datatype collected = Captured captured_output | TooLarge pipe_limit_exceeded captured_output

definition captured_pipes :: "pipe_output \<Rightarrow> pipe_output \<Rightarrow> captured_output" where
  "captured_pipes out err = \<lparr>co_stdout = pipe_bytes out, co_stderr = pipe_bytes err,
     co_stdout_truncated = (pipe_exceeded out \<noteq> None),
     co_stderr_truncated = (pipe_exceeded err \<noteq> None)\<rparr>"

definition first_exceeded :: "pipe_output \<Rightarrow> pipe_output \<Rightarrow> pipe_limit_exceeded option" where
  "first_exceeded out err = (case pipe_exceeded out of Some ex \<Rightarrow> Some ex | None \<Rightarrow> pipe_exceeded err)"

definition collect_captured_output :: "pipes \<Rightarrow> (process_error, collected) result option" where
  "collect_captured_output p = (case collect_pipe (pp_out p) of
     None \<Rightarrow> None
   | Some (Inl e) \<Rightarrow> Some (Inl e)
   | Some (Inr out) \<Rightarrow> (case collect_pipe (pp_err p) of
        None \<Rightarrow> None
      | Some (Inl e) \<Rightarrow> Some (Inl e)
      | Some (Inr err) \<Rightarrow> Some (Inr (case first_exceeded out err of
            Some ex \<Rightarrow> TooLarge ex (captured_pipes out err)
          | None \<Rightarrow> Captured (captured_pipes out err)))))"

fun finish_shell_run :: "shell_end \<Rightarrow> collected \<Rightarrow> shell_run" where
  "finish_shell_run (EndExceeded first) (Captured c) = OutputLimitExceeded (ex_stream first) (ex_limit first) c"
| "finish_shell_run (EndExceeded first) (TooLarge _ c) = OutputLimitExceeded (ex_stream first) (ex_limit first) c"
| "finish_shell_run _ (TooLarge first c) = OutputLimitExceeded (ex_stream first) (ex_limit first) c"
| "finish_shell_run (EndCompleted st) (Captured c) = Completed st c"
| "finish_shell_run EndTimedOut (Captured c) = TimedOut c"
| "finish_shell_run EndCancelled (Captured c) = Cancelled c"

section \<open>The supervisor\<close>

definition TERMINATE_GRACE :: duration where "TERMINATE_GRACE = secs 2"
definition WAIT_POLL_INTERVAL :: duration where "WAIT_POLL_INTERVAL = 10000000"

definition SIGTERM :: int where "SIGTERM = 15"
definition SIGKILL :: int where "SIGKILL = 9"
definition ESRCH :: int where "ESRCH = 3"

record shell_config =
  sc_command :: string
  sc_stdout :: stream_mode
  sc_stderr :: stream_mode
  sc_timeout :: duration
  sc_limit :: "usize option"
  sc_shutdown :: bool

text \<open>\<^verbatim>\<open>run_shell_process\<close>: the two capture flags as stream modes.\<close>

definition run_shell_process ::
  "string \<Rightarrow> bool \<Rightarrow> bool \<Rightarrow> duration \<Rightarrow> usize option \<Rightarrow> bool \<Rightarrow> shell_config" where
  "run_shell_process command capture_stdout capture_stderr command_timeout output_limit shutdown =
     \<lparr>sc_command = command, sc_stdout = (if capture_stdout then ModeCapture else ModeNull),
      sc_stderr = (if capture_stderr then ModeCapture else ModeNull),
      sc_timeout = command_timeout, sc_limit = output_limit, sc_shutdown = shutdown\<rparr>"

text \<open>
  \<open>terminate_process_group\<close> suspends after each signal (its result is an observation) and in
  its two waits for the child.
\<close>

datatype term_pc = TermSignal | TermGrace instant | TermKill | TermWait | TermCleanup exit_status

datatype shell_pc =
  SSpawn
| SLoop
| STick instant
| STerm term_pc shell_end
| SCollecting exit_status
| SCollectEnd shell_end
| SDone "(process_error, shell_run) result"
| SPanicked

record shell_state =
  sh_pc :: shell_pc
  sh_pipes :: pipes
  sh_pgid :: "int option"
  sh_deadline :: instant
  sh_shutdown :: bool
  sh_limit_rx :: bool

datatype kill_result = KillOk | KillErrno int

datatype shell_input =
  InSpawn "(string, int option) result" instant
| InPipe stream pipe_read
| InTryWait "(string, exit_status option) result" bool instant
| InTick instant
| InShutdown watch_change
| InLimit
| InShutdownState "bool option"
| InDeadline instant
| InCollected
| InSignalled kill_result instant
| InExit "(string, exit_status) result"
| InGraceOver instant

datatype shell_output =
  Spawned string
| ReadBytes stream string
| Kill int int
| StartKill

definition shell_init :: "shell_config \<Rightarrow> shell_state" where
  "shell_init cfg = \<lparr>sh_pc = SSpawn,
     sh_pipes = configure_stdio (sc_limit cfg) (sc_stdout cfg) (sc_stderr cfg),
     sh_pgid = None, sh_deadline = 0, sh_shutdown = sc_shutdown cfg, sh_limit_rx = (sc_limit cfg \<noteq> None)\<rparr>"

text \<open>\<open>signal_process_group\<close>: the call made, and its result; a missing group counts as success.\<close>

definition signal_call :: "int option \<Rightarrow> int \<Rightarrow> shell_output list" where
  "signal_call pgid sig = (case pgid of
     None \<Rightarrow> [StartKill] | Some p \<Rightarrow> if p \<le> 0 then [] else [Kill (- p) sig])"

definition signal_result :: "int option \<Rightarrow> kill_result \<Rightarrow> (string, unit) result" where
  "signal_result pgid r = (case pgid of
     None \<Rightarrow> (case r of KillOk \<Rightarrow> Inr () | KillErrno n \<Rightarrow> Inl (show_int n))
   | Some p \<Rightarrow> if p \<le> 0 then Inr ()
       else (case r of KillOk \<Rightarrow> Inr ()
             | KillErrno n \<Rightarrow> if n = ESRCH then Inr () else Inl (show_int n)))"

definition terminate :: "shell_end \<Rightarrow> shell_state \<Rightarrow> shell_state \<times> shell_output list" where
  "terminate e s = (s\<lparr>sh_pc := STerm TermSignal e\<rparr>, signal_call (sh_pgid s) SIGTERM)"

definition shell_fail :: "process_error \<Rightarrow> shell_state \<Rightarrow> shell_state \<times> shell_output list" where
  "shell_fail e s = (s\<lparr>sh_pc := SDone (Inl e)\<rparr>, [])"

text \<open>The final \<^verbatim>\<open>SIGKILL\<close> is sent only to a group; without one the child has exited already.\<close>

definition term_cleanup :: "shell_end \<Rightarrow> exit_status \<Rightarrow> shell_state \<Rightarrow> shell_state \<times> shell_output list" where
  "term_cleanup e st s = (case sh_pgid s of
     None \<Rightarrow> (s\<lparr>sh_pc := SCollectEnd e\<rparr>, [])
   | Some p \<Rightarrow> (s\<lparr>sh_pc := STerm (TermCleanup st) e\<rparr>, signal_call (sh_pgid s) SIGKILL))"

fun terminate_process_group ::
  "term_pc \<Rightarrow> shell_end \<Rightarrow> shell_state \<Rightarrow> shell_input \<Rightarrow> (shell_state \<times> shell_output list) option" where
  "terminate_process_group TermSignal e s (InSignalled r now) = Some (case signal_result (sh_pgid s) r of
     Inl x \<Rightarrow> shell_fail (WaitError x) s
   | Inr _ \<Rightarrow> (s\<lparr>sh_pc := STerm (TermGrace (now + TERMINATE_GRACE)) e\<rparr>, []))"
| "terminate_process_group (TermGrace until) e s (InExit (Inl x)) = Some (shell_fail (WaitError x) s)"
| "terminate_process_group (TermGrace until) e s (InExit (Inr st)) = Some (term_cleanup e st s)"
| "terminate_process_group (TermGrace until) e s (InGraceOver now) =
     (if until \<le> now then Some (s\<lparr>sh_pc := STerm TermKill e\<rparr>, signal_call (sh_pgid s) SIGKILL) else None)"
| "terminate_process_group TermKill e s (InSignalled r now) = Some (case signal_result (sh_pgid s) r of
     Inl x \<Rightarrow> shell_fail (WaitError x) s
   | Inr _ \<Rightarrow> (s\<lparr>sh_pc := STerm TermWait e\<rparr>, []))"
| "terminate_process_group TermWait e s (InExit (Inl x)) = Some (shell_fail (WaitError x) s)"
| "terminate_process_group TermWait e s (InExit (Inr st)) = Some (term_cleanup e st s)"
| "terminate_process_group (TermCleanup st) e s (InSignalled r now) = Some (case signal_result (sh_pgid s) r of
     Inl x \<Rightarrow> shell_fail (WaitError x) s
   | Inr _ \<Rightarrow> (s\<lparr>sh_pc := SCollectEnd e\<rparr>, []))"
| "terminate_process_group _ _ _ _ = None"

text \<open>
  \<^verbatim>\<open>limit_rx.recv()\<close>: a queued message, or the end of the channel once no reader holds a
  sender any more.
\<close>

fun is_reading :: "reader option \<Rightarrow> bool" where
  "is_reading (Some (Reading output)) = True"
| "is_reading _ = False"

definition limit_recv :: "shell_state \<Rightarrow> (pipe_limit_exceeded option \<times> shell_state) option" where
  "limit_recv s = (if \<not> sh_limit_rx s then None
     else (case pp_queue (sh_pipes s) of
        ex # rest \<Rightarrow> Some (Some ex, s\<lparr>sh_pipes := (sh_pipes s)\<lparr>pp_queue := rest\<rparr>\<rparr>)
      | [] \<Rightarrow> if is_reading (pp_out (sh_pipes s)) \<or> is_reading (pp_err (sh_pipes s)) then None
              else Some (None, s\<lparr>sh_limit_rx := False\<rparr>)))"

fun wait_for_child :: "shell_state \<Rightarrow> shell_input \<Rightarrow> (shell_state \<times> shell_output list) option" where
  "wait_for_child s (InTryWait r stop now) = Some (case r of
     Inl x \<Rightarrow> shell_fail (WaitError x) s
   | Inr (Some st) \<Rightarrow> (s\<lparr>sh_pc := SCollecting st\<rparr>, [])
   | Inr None \<Rightarrow>
       if sh_shutdown s \<and> stop then terminate EndCancelled s
       else if sh_deadline s \<le> now then terminate EndTimedOut s
       else (s\<lparr>sh_pc := STick (now + min WAIT_POLL_INTERVAL (sh_deadline s - now))\<rparr>, []))"
| "wait_for_child s _ = None"

fun wait_tick :: "instant \<Rightarrow> shell_state \<Rightarrow> shell_input \<Rightarrow> (shell_state \<times> shell_output list) option" where
  "wait_tick until s (InTick now) = (if until \<le> now then Some (s\<lparr>sh_pc := SLoop\<rparr>, []) else None)"
| "wait_tick until s (InShutdown changed) =
     (if sh_shutdown s
      then Some (if asks_stop changed then terminate EndCancelled s else (s\<lparr>sh_pc := SLoop\<rparr>, []))
      else None)"
| "wait_tick until s InLimit = (case limit_recv s of
     None \<Rightarrow> None
   | Some (Some ex, s') \<Rightarrow> Some (terminate (EndExceeded ex) s')
   | Some (None, s') \<Rightarrow> Some (s'\<lparr>sh_pc := SLoop\<rparr>, []))"
| "wait_tick until s _ = None"

text \<open>
  The biased \<^verbatim>\<open>select!\<close> takes a finished collection before any other branch, and a limit
  message before the shutdown channel and the deadline.
\<close>

fun collect_after_child_exit ::
  "exit_status \<Rightarrow> shell_state \<Rightarrow> shell_input \<Rightarrow> (shell_state \<times> shell_output list) option" where
  "collect_after_child_exit st s InCollected = (case collect_captured_output (sh_pipes s) of
     None \<Rightarrow> None
   | Some (Inl e) \<Rightarrow> Some (shell_fail e s)
   | Some (Inr c) \<Rightarrow> Some (s\<lparr>sh_pc := SDone (Inr (finish_shell_run (EndCompleted st) c))\<rparr>, []))"
| "collect_after_child_exit st s InLimit =
     (if collect_captured_output (sh_pipes s) \<noteq> None then None
      else (case limit_recv s of
          None \<Rightarrow> None
        | Some (Some ex, s') \<Rightarrow> Some (terminate (EndExceeded ex) s')
        | Some (None, s') \<Rightarrow> Some (s', [])))"
| "collect_after_child_exit st s (InShutdownState v) =
     (if collect_captured_output (sh_pipes s) \<noteq> None \<or> limit_recv s \<noteq> None \<or> \<not> sh_shutdown s then None
      else Some (case v of
          Some True \<Rightarrow> terminate EndCancelled s
        | Some False \<Rightarrow> (s, [])
        | None \<Rightarrow> (s\<lparr>sh_shutdown := False\<rparr>, [])))"
| "collect_after_child_exit st s (InDeadline now) =
     (if collect_captured_output (sh_pipes s) \<noteq> None \<or> limit_recv s \<noteq> None \<or> now < sh_deadline s then None
      else Some (terminate EndTimedOut s))"
| "collect_after_child_exit st s _ = None"

fun collect_end :: "shell_end \<Rightarrow> shell_state \<Rightarrow> shell_input \<Rightarrow> (shell_state \<times> shell_output list) option" where
  "collect_end e s InCollected = (case collect_captured_output (sh_pipes s) of
     None \<Rightarrow> None
   | Some (Inl err) \<Rightarrow> Some (shell_fail err s)
   | Some (Inr c) \<Rightarrow> Some (s\<lparr>sh_pc := SDone (Inr (finish_shell_run e c))\<rparr>, []))"
| "collect_end e s _ = None"

text \<open>The whole run; the readers are tasks of their own and may read at any point after the spawn.\<close>

fun shell_spawn :: "shell_config \<Rightarrow> shell_state \<Rightarrow> shell_input \<Rightarrow> (shell_state \<times> shell_output list) option" where
  "shell_spawn cfg s (InSpawn (Inl x) now) = Some (shell_fail (StartError x) s)"
| "shell_spawn cfg s (InSpawn (Inr pid) now) = Some (case instant_add now (sc_timeout cfg) of
     None \<Rightarrow> (s\<lparr>sh_pc := SPanicked\<rparr>, [Spawned (sc_command cfg)])
   | Some deadline \<Rightarrow> (s\<lparr>sh_pc := SLoop, sh_pgid := pid, sh_deadline := deadline\<rparr>, [Spawned (sc_command cfg)]))"
| "shell_spawn cfg s _ = None"

fun shell_task :: "shell_config \<Rightarrow> shell_state \<Rightarrow> shell_input \<Rightarrow> (shell_state \<times> shell_output list) option" where
  "shell_task cfg s i = (case sh_pc s of
     SSpawn \<Rightarrow> shell_spawn cfg s i
   | SLoop \<Rightarrow> wait_for_child s i
   | STick until \<Rightarrow> wait_tick until s i
   | STerm t e \<Rightarrow> terminate_process_group t e s i
   | SCollecting st \<Rightarrow> collect_after_child_exit st s i
   | SCollectEnd e \<Rightarrow> collect_end e s i
   | _ \<Rightarrow> None)"

definition shell_live :: "shell_pc \<Rightarrow> bool" where
  "shell_live pc \<longleftrightarrow> (case pc of SSpawn \<Rightarrow> False | SDone r \<Rightarrow> False | SPanicked \<Rightarrow> False | _ \<Rightarrow> True)"

fun shell_step :: "shell_config \<Rightarrow> (shell_state, shell_input, shell_output) machine" where
  "shell_step cfg s (InPipe stream ev) =
     (if shell_live (sh_pc s)
      then map_option (\<lambda>p. (s\<lparr>sh_pipes := p\<rparr>,
             case ev of PipeBytes bytes \<Rightarrow> [ReadBytes stream bytes] | _ \<Rightarrow> []))
           (pipes_step (sh_pipes s) stream ev)
      else None)"
| "shell_step cfg s i = shell_task cfg s i"

declare shell_step.simps [simp del] shell_task.simps [simp del]

section \<open>The shared limit\<close>

fun delivered :: "stream \<Rightarrow> shell_output list \<Rightarrow> string" where
  "delivered stream [] = []"
| "delivered stream (ReadBytes stream' bytes # os) =
     (if stream' = stream then bytes @ delivered stream os else delivered stream os)"
| "delivered stream (_ # os) = delivered stream os"

lemma delivered_append [simp]: "delivered st (xs @ ys) = delivered st xs @ delivered st ys"
  by (induction st xs rule: delivered.induct) auto

fun content :: "reader option \<Rightarrow> string" where
  "content (Some (Reading output)) = output"
| "content (Some (ReadOk output)) = output"
| "content (Some (ReadTooLarge ex)) = ex_output ex"
| "content _ = []"

fun reader_clean :: "reader option \<Rightarrow> bool" where
  "reader_clean (Some (ReadIo e)) = False"
| "reader_clean (Some ReadLost) = False"
| "reader_clean _ = True"

text \<open>What holds of one reader: all it was delivered, or a proper prefix of it at the limit.\<close>

definition reader_ok :: "usize option \<Rightarrow> usize \<Rightarrow> stream \<Rightarrow> reader option \<Rightarrow> string \<Rightarrow> bool" where
  "reader_ok limit used stream r bytes \<longleftrightarrow> (case r of
     None \<Rightarrow> bytes = []
   | Some (Reading output) \<Rightarrow> output = bytes
   | Some (ReadOk output) \<Rightarrow> output = bytes
   | Some (ReadTooLarge ex) \<Rightarrow> ex_stream ex = stream \<and> limit = Some (ex_limit ex) \<and> used = ex_limit ex \<and>
       (\<exists>rest. bytes = ex_output ex @ rest \<and> rest \<noteq> [])
   | _ \<Rightarrow> True)"

definition pipes_ok :: "usize option \<Rightarrow> pipes \<Rightarrow> shell_output list \<Rightarrow> bool" where
  "pipes_ok limit p h \<longleftrightarrow> pp_limit p = limit \<and>
     (\<forall>st. reader_ok limit (pp_used p) st (pipe_reader p st) (delivered st h)) \<and>
     (\<forall>l. limit = Some l \<longrightarrow> pp_used p \<le> l \<and>
        length (content (pp_out p)) + length (content (pp_err p)) \<le> unat (pp_used p) \<and>
        (reader_clean (pp_out p) \<and> reader_clean (pp_err p) \<longrightarrow>
           length (content (pp_out p)) + length (content (pp_err p)) = unat (pp_used p))) \<and>
     (\<forall>ex \<in> set (pp_queue p). pipe_reader p (ex_stream ex) = Some (ReadTooLarge ex))"

lemma reserve_spec:
  assumes "used \<le> limit" "reserve limit used requested = (allowed, used')"
  shows "unat allowed = min (unat limit - unat used) (unat requested)"
    and "unat used' = unat used + unat allowed" and "used' \<le> limit"
    and "unat allowed < unat requested \<Longrightarrow> used' = limit"
proof -
  have ul: "unat used \<le> unat limit" using assms(1) by (simp add: word_le_nat_alt)
  have r: "unat (saturating_sub64 limit used) = unat limit - unat used"
    using assms(1) by (simp add: saturating_sub64_def unat_sub)
  have allowed: "allowed = min (limit - used) requested"
    using assms by (simp add: reserve_def Let_def saturating_sub64_def)
  then show a: "unat allowed = min (unat limit - unat used) (unat requested)"
    using assms(1) by (auto simp: min_def unat_sub word_le_nat_alt)
  have "unat limit < 2 ^ 64" using unsigned_less [of limit, where ?'a = nat] by simp
  then have sum: "unat used + unat allowed < 2 ^ 64" using a ul by simp
  then have "used' = used + allowed"
    using assms(2) by (auto simp: reserve_def Let_def saturating_add64_def)
  then show u: "unat used' = unat used + unat allowed"
    using sum by (simp add: unat_word_ariths)
  show "used' \<le> limit" unfolding word_le_nat_alt using u a ul by simp
  show "unat allowed < unat requested \<Longrightarrow> used' = limit"
    using u a ul by (intro word_unat_eq_iff [THEN iffD2]) simp
qed

lemma unat_length: "length bytes \<le> READ_BUFFER \<Longrightarrow> unat (of_nat (length bytes) :: usize) = length bytes"
  by (simp add: READ_BUFFER_def unat_of_nat take_bit_nat_eq_self_iff)

lemma read_bytes_spec:
  assumes "used \<le> l" "length bytes \<le> READ_BUFFER" "bytes \<noteq> []"
    and "read_pipe (Some l) used st output (PipeBytes bytes) = (r, used', sent)"
  shows "used \<le> used' \<and> used' \<le> l \<and>
     length (content (Some r)) + unat used = length output + unat used' \<and>
     ((r = Reading (output @ bytes) \<and> sent = []) \<or>
      (\<exists>ex k. r = ReadTooLarge ex \<and> sent = [ex] \<and> ex_stream ex = st \<and> ex_limit ex = l \<and> used' = l \<and>
         ex_output ex = output @ take k bytes \<and> k < length bytes))"
proof -
  obtain allowed u where res: "reserve l used (of_nat (length bytes)) = (allowed, u)"
    by (cases "reserve l used (of_nat (length bytes))")
  note spec = reserve_spec [OF assms(1) res, unfolded unat_length [OF assms(2)]]
  have mono: "used \<le> u" using spec(2) by (simp add: word_le_nat_alt)
  show ?thesis
  proof (cases "unat allowed < length bytes")
    case True
    let ?ex = "\<lparr>ex_stream = st, ex_limit = l, ex_output = output @ take (unat allowed) bytes\<rparr>"
    have out: "r = ReadTooLarge ?ex" "used' = u" "sent = [?ex]"
      using assms(3,4) True by (simp_all add: res Let_def)
    have "u = l" by (rule spec(4) [OF True])
    moreover have "length (content (Some r)) + unat used = length output + unat u"
      using spec(2) True by (simp add: out)
    moreover have "\<exists>ex k. r = ReadTooLarge ex \<and> sent = [ex] \<and> ex_stream ex = st \<and> ex_limit ex = l \<and> used' = l \<and>
         ex_output ex = output @ take k bytes \<and> k < length bytes"
      using True \<open>u = l\<close> by (intro exI [of _ ?ex] exI [of _ "unat allowed"]) (simp add: out)
    ultimately show ?thesis using mono spec(3) by (simp add: out(2))
  next
    case False
    with spec(1) have a: "unat allowed = length bytes" by simp
    have out: "r = Reading (output @ bytes)" "used' = u" "sent = []"
      using assms(3,4) False a by (simp_all add: res Let_def)
    show ?thesis using mono spec(2,3) a by (simp add: out)
  qed
qed

lemma reader_ok_mono:
  "\<lbrakk>reader_ok limit used st r bytes; \<And>l. limit = Some l \<Longrightarrow> used \<le> used' \<and> used' \<le> l\<rbrakk>
     \<Longrightarrow> reader_ok limit used' st r bytes"
  by (auto simp: reader_ok_def split: option.splits reader.splits dest: order.antisym)

lemma pipe_reader_set [simp]:
  "pipe_reader (set_reader st r p) st' = (if st' = st then Some r else pipe_reader p st')"
  "pp_limit (set_reader st r p) = pp_limit p" "pp_used (set_reader st r p) = pp_used p"
  "pp_queue (set_reader st r p) = pp_queue p"
  by (cases st; cases st'; simp)+

lemma pipe_reader_fields [simp]:
  "pipe_reader (p\<lparr>pp_used := u, pp_queue := q\<rparr>) st = pipe_reader p st"
  "pipe_reader (p\<lparr>pp_queue := q\<rparr>) st = pipe_reader p st"
  "pipe_reader (p\<lparr>pp_used := u\<rparr>) st = pipe_reader p st"
  by (cases st; simp)+

definition both :: "(stream \<Rightarrow> nat) \<Rightarrow> nat" where
  "both f = f Stdout + f Stderr"

lemma both_upd: "(\<And>st'. st' \<noteq> st \<Longrightarrow> f' st' = f st') \<Longrightarrow> f' st + x = f st + y \<Longrightarrow> both f' + x = both f + y"
  by (cases st) (auto simp: both_def)

lemma both_upd_le: "(\<And>st'. st' \<noteq> st \<Longrightarrow> f' st' = f st') \<Longrightarrow> f' st \<le> f st \<Longrightarrow> both f' \<le> both f"
  by (cases st) (auto simp: both_def)

text \<open>The accounting part of the invariant, symmetric in the two streams.\<close>

definition counted :: "usize \<Rightarrow> usize \<Rightarrow> (stream \<Rightarrow> reader option) \<Rightarrow> bool" where
  "counted l used rd \<longleftrightarrow> used \<le> l \<and> both (\<lambda>st. length (content (rd st))) \<le> unat used \<and>
     ((\<forall>st. reader_clean (rd st)) \<longrightarrow> both (\<lambda>st. length (content (rd st))) = unat used)"

lemma all_streams: "(\<forall>st. P st) \<longleftrightarrow> P Stdout \<and> P Stderr"
  by (metis stream.exhaust)

lemma pipes_ok_alt:
  "pipes_ok limit p h \<longleftrightarrow> pp_limit p = limit \<and>
     (\<forall>st. reader_ok limit (pp_used p) st (pipe_reader p st) (delivered st h)) \<and>
     (\<forall>l. limit = Some l \<longrightarrow> counted l (pp_used p) (pipe_reader p)) \<and>
     (\<forall>ex \<in> set (pp_queue p). pipe_reader p (ex_stream ex) = Some (ReadTooLarge ex))"
  by (simp add: pipes_ok_def counted_def both_def all_streams)

lemma counted_read:
  assumes "counted l used rd" "rd st = Some (Reading output)"
    and "used \<le> used'" "used' \<le> l" "length (content (Some r)) + unat used = length output + unat used'"
    and "rd' = (\<lambda>st'. if st' = st then Some r else rd st')"
  shows "counted l used' rd'"
proof -
  let ?n = "\<lambda>rd st. length (content (rd st))"
  have eq: "both (?n rd') + unat used = both (?n rd) + unat used'"
    by (rule both_upd [of st]) (use assms in auto)
  moreover have "both (?n rd) \<le> unat used" "(\<forall>st. reader_clean (rd st)) \<longrightarrow> both (?n rd) = unat used"
    using assms(1) by (auto simp: counted_def)
  moreover have "reader_clean (rd st')" if "\<forall>st. reader_clean (rd' st)" for st'
    using that [rule_format, of st'] assms(2,6) by (cases "st' = st") auto
  ultimately show ?thesis using assms(4) unfolding counted_def by auto
qed

lemma counted_end:
  assumes "counted l used rd" "rd st = Some (Reading output)" "r = ReadOk output \<or> \<not> reader_clean (Some r)"
    and "rd' = (\<lambda>st'. if st' = st then Some r else rd st')"
  shows "counted l used rd'"
proof (cases "r = ReadOk output")
  case True
  show ?thesis
    by (rule counted_read [OF assms(1,2) _ _ _ assms(4)]) (use True assms(1) in \<open>auto simp: counted_def\<close>)
next
  case False
  let ?n = "\<lambda>rd st. length (content (rd st))"
  have nc: "\<not> reader_clean (rd' st)" using False assms by auto
  then have "content (rd' st) = []" by (cases "rd' st" rule: reader_clean.cases) auto
  then have "both (?n rd') \<le> both (?n rd)" by (intro both_upd_le [of st]) (use assms(4) in auto)
  with nc assms(1) show ?thesis unfolding counted_def by auto
qed

fun read_bytes :: "pipe_read \<Rightarrow> string" where
  "read_bytes (PipeBytes bytes) = bytes"
| "read_bytes _ = []"

lemma read_ends:
  assumes "read_bytes ev = []" "read_pipe limit used st output ev = (r, used', sent)"
  shows "used' = used \<and> sent = [] \<and> (r = ReadOk output \<or> \<not> reader_clean (Some r))"
  using assms by (cases ev) auto

lemma read_unlimited:
  assumes "read_bytes ev \<noteq> []" "read_pipe None used st output ev = (r, used', sent)"
  shows "used' = used \<and> sent = [] \<and> r = Reading (output @ read_bytes ev)"
  using assms by (cases ev) auto

text \<open>One read keeps the reader's promise, whatever the limit.\<close>

lemma read_pipe_ok:
  assumes read: "read_pipe limit used st output ev = (r, used', sent)"
    and buf: "length (read_bytes ev) \<le> READ_BUFFER" and le: "\<And>l. limit = Some l \<Longrightarrow> used \<le> l"
  shows "reader_ok limit used' st (Some r) (output @ read_bytes ev) \<and>
    (\<forall>ex \<in> set sent. ex_stream ex = st \<and> r = ReadTooLarge ex)"
proof (cases "read_bytes ev = []")
  case True
  from read_ends [OF this read] show ?thesis
    using True by (cases r) (auto simp: reader_ok_def)
next
  case False
  then obtain bytes where ev: "ev = PipeBytes bytes" "bytes \<noteq> []" by (cases ev) auto
  show ?thesis
  proof (cases limit)
    case None
    with read_unlimited [OF False] read show ?thesis by (fastforce simp: reader_ok_def)
  next
    case (Some l)
    have *: "\<exists>rest. bytes = take k bytes @ rest \<and> rest \<noteq> []" if "k < length bytes" for k
      using that by (intro exI [of _ "drop k bytes"]) simp
    have "length bytes \<le> READ_BUFFER" using buf ev by simp
    from read_bytes_spec [OF le [OF Some] this ev(2) read [unfolded Some ev(1)]]
    show ?thesis using * unfolding Some ev(1) read_bytes.simps by (fastforce simp: reader_ok_def)
  qed
qed

lemma read_pipe_counted:
  assumes read: "read_pipe (Some l) used st output ev = (r, used', sent)"
    and buf: "length (read_bytes ev) \<le> READ_BUFFER" and cnt: "counted l used rd"
    and rd: "rd st = Some (Reading output)" and rd': "rd' = (\<lambda>st'. if st' = st then Some r else rd st')"
  shows "used \<le> used' \<and> used' \<le> l \<and> counted l used' rd'"
proof (cases "read_bytes ev = []")
  case True
  from read_ends [OF this read] counted_end [OF cnt rd _ rd'] cnt show ?thesis
    by (auto simp: counted_def)
next
  case False
  then obtain bytes where b: "ev = PipeBytes bytes" "bytes \<noteq> []" by (cases ev) auto
  have "used \<le> l" "length bytes \<le> READ_BUFFER" using cnt buf b by (simp_all add: counted_def)
  from read_bytes_spec [OF this b(2) read [unfolded b(1)]]
  show ?thesis using counted_read [OF cnt rd _ _ _ rd'] unfolding b(1) read_bytes.simps by blast
qed

definition read_effects :: "stream \<Rightarrow> pipe_read \<Rightarrow> shell_output list" where
  "read_effects st ev = (case ev of PipeBytes bytes \<Rightarrow> [ReadBytes st bytes] | _ \<Rightarrow> [])"

lemma delivered_effects [simp]:
  "delivered s (read_effects st ev) = (if s = st then read_bytes ev else [])"
  by (cases ev) (auto simp: read_effects_def)

lemma pipes_stepD:
  assumes "pipes_step p st ev = Some p'"
  obtains got r used sent where "pipe_reader p st = Some (Reading got)"
    "read_pipe (pp_limit p) (pp_used p) st got ev = (r, used, sent)"
    "p' = set_reader st r (p\<lparr>pp_used := used, pp_queue := pp_queue p @ sent\<rparr>)"
    "length (read_bytes ev) \<le> READ_BUFFER"
  using assms
  by (cases ev) (auto simp: pipes_step_def split: option.splits reader.splits if_splits prod.splits)

lemma pipes_step_ok:
  assumes ok: "pipes_ok limit p h" and step: "pipes_step p st ev = Some p'"
  shows "pipes_ok limit p' (h @ read_effects st ev)"
  using step
proof (rule pipes_stepD)
  fix got r used sent
  assume rd: "pipe_reader p st = Some (Reading got)"
    and read: "read_pipe (pp_limit p) (pp_used p) st got ev = (r, used, sent)"
    and p': "p' = set_reader st r (p\<lparr>pp_used := used, pp_queue := pp_queue p @ sent\<rparr>)"
    and buf: "length (read_bytes ev) \<le> READ_BUFFER"
  have lim: "pp_limit p = limit" and rok: "\<And>s. reader_ok limit (pp_used p) s (pipe_reader p s) (delivered s h)"
    and cnt: "\<And>l. limit = Some l \<Longrightarrow> counted l (pp_used p) (pipe_reader p)"
    and queue: "\<And>ex. ex \<in> set (pp_queue p) \<Longrightarrow> pipe_reader p (ex_stream ex) = Some (ReadTooLarge ex)"
    using ok unfolding pipes_ok_alt by blast+
  have out: "got = delivered st h" using rok [of st] rd by (simp add: reader_ok_def)
  have rd': "pipe_reader p' = (\<lambda>st'. if st' = st then Some r else pipe_reader p st')"
    by (rule ext) (simp add: p')
  have p'_fields: "pp_limit p' = limit" "pp_used p' = used" "pp_queue p' = pp_queue p @ sent"
    by (simp_all add: p' lim)
  have counted: "pp_used p \<le> used \<and> used \<le> l \<and> counted l used (pipe_reader p')" if "limit = Some l" for l
    by (rule read_pipe_counted [OF _ buf cnt [OF that] rd rd']) (use read lim that in simp)
  have le: "pp_used p \<le> l" if "limit = Some l" for l using cnt [OF that] by (simp add: counted_def)
  note new = read_pipe_ok [OF read buf, unfolded lim, OF le]
  have "reader_ok limit used s (pipe_reader p' s) (delivered s (h @ read_effects st ev))" for s
    using new reader_ok_mono [OF rok [of s], of used] counted by (cases "s = st") (simp_all add: rd' out)
  moreover have "pipe_reader p' (ex_stream ex) = Some (ReadTooLarge ex)"
    if "ex \<in> set (pp_queue p) \<or> ex \<in> set sent" for ex
    using that
  proof
    assume "ex \<in> set (pp_queue p)"
    from queue [OF this] rd show ?thesis by (cases "ex_stream ex = st") (simp_all add: rd')
  next
    assume "ex \<in> set sent"
    with new show ?thesis by (simp add: rd')
  qed
  ultimately show ?thesis unfolding pipes_ok_alt p'_fields using counted by simp
qed

section \<open>The run\<close>

text \<open>What a finished run promises about its output, given the bytes its pipes delivered.\<close>

definition complete :: "captured_output \<Rightarrow> shell_output list \<Rightarrow> bool" where
  "complete c h \<longleftrightarrow> co_stdout c = delivered Stdout h \<and> co_stderr c = delivered Stderr h \<and>
     \<not> co_stdout_truncated c \<and> \<not> co_stderr_truncated c"

definition captured_total :: "captured_output \<Rightarrow> nat" where
  "captured_total c = stdout_len c + stderr_len c"

definition prefix_of :: "string \<Rightarrow> string \<Rightarrow> bool" where
  "prefix_of p s \<longleftrightarrow> (\<exists>r. s = p @ r)"

fun truncated :: "stream \<Rightarrow> captured_output \<Rightarrow> bool" where
  "truncated Stdout c = co_stdout_truncated c"
| "truncated Stderr c = co_stderr_truncated c"

definition output_ok :: "usize option \<Rightarrow> shell_run \<Rightarrow> shell_output list \<Rightarrow> bool" where
  "output_ok limit run h \<longleftrightarrow> (case run of
     OutputLimitExceeded st l c \<Rightarrow> limit = Some l \<and> captured_total c = unat l \<and> truncated st c \<and>
       prefix_of (co_stdout c) (delivered Stdout h) \<and> prefix_of (co_stderr c) (delivered Stderr h)
   | _ \<Rightarrow> complete (run_output run) h \<and>
       (\<forall>l. limit = Some l \<longrightarrow> captured_total (run_output run) \<le> unat l))"

lemma collect_pipe_ok:
  assumes "collect_pipe r = Some (Inr out)" "reader_ok limit used st r bytes"
  shows "reader_clean r \<and> content r = pipe_bytes out \<and>
     (pipe_exceeded out = None \<longrightarrow> pipe_bytes out = bytes) \<and> prefix_of (pipe_bytes out) bytes \<and>
     (\<forall>ex. pipe_exceeded out = Some ex \<longrightarrow> r = Some (ReadTooLarge ex) \<and> limit = Some (ex_limit ex) \<and>
        used = ex_limit ex \<and> ex_stream ex = st)"
  using assms
  by (cases r rule: collect_pipe.cases) (auto simp: reader_ok_def prefix_of_def)

text \<open>An end reported by the limit channel names a reader that did exceed the limit.\<close>

fun end_ok :: "shell_config \<Rightarrow> pipes \<Rightarrow> shell_end \<Rightarrow> bool" where
  "end_ok cfg p (EndExceeded ex) = (pipe_reader p (ex_stream ex) = Some (ReadTooLarge ex))"
| "end_ok cfg p EndCancelled = sc_shutdown cfg"
| "end_ok cfg p _ = True"

lemma finish_cases:
  "finish_shell_run e (TooLarge first c) = (case e of
     EndExceeded ex \<Rightarrow> OutputLimitExceeded (ex_stream ex) (ex_limit ex) c
   | _ \<Rightarrow> OutputLimitExceeded (ex_stream first) (ex_limit first) c)"
  by (cases e) simp_all

lemma finish_output_ok:
  assumes ok: "pipes_ok limit p h" and col: "collect_captured_output p = Some (Inr cd)" and e: "end_ok cfg p e"
  shows "output_ok limit (finish_shell_run e cd) h"
proof -
  obtain out err where cp: "collect_pipe (pp_out p) = Some (Inr out)" "collect_pipe (pp_err p) = Some (Inr err)"
    and cd: "cd = (case first_exceeded out err of Some ex \<Rightarrow> TooLarge ex (captured_pipes out err)
          | None \<Rightarrow> Captured (captured_pipes out err))"
    using col by (auto simp: collect_captured_output_def split: option.splits sum.splits)
  define c where "c = captured_pipes out err"
  have c: "co_stdout c = pipe_bytes out" "co_stderr c = pipe_bytes err"
    "co_stdout_truncated c \<longleftrightarrow> pipe_exceeded out \<noteq> None" "co_stderr_truncated c \<longleftrightarrow> pipe_exceeded err \<noteq> None"
    by (simp_all add: c_def captured_pipes_def)
  have "reader_ok limit (pp_used p) Stdout (pp_out p) (delivered Stdout h)"
    "reader_ok limit (pp_used p) Stderr (pp_err p) (delivered Stderr h)"
    using ok unfolding pipes_ok_def all_streams by simp_all
  note o = collect_pipe_ok [OF cp(1) this(1)] and r = collect_pipe_ok [OF cp(2) this(2)]
  have total: "captured_total c = unat (pp_used p) \<and> pp_used p \<le> l" if "limit = Some l" for l
    using ok o r that unfolding pipes_ok_def by (simp add: captured_total_def stdout_len_def stderr_len_def c)
  have over: "output_ok limit (OutputLimitExceeded (ex_stream ex) (ex_limit ex) c) h"
    if "pipe_reader p (ex_stream ex) = Some (ReadTooLarge ex)" for ex
  proof -
    have "limit = Some (ex_limit ex) \<and> pp_used p = ex_limit ex \<and> truncated (ex_stream ex) c"
    proof (cases "ex_stream ex")
      case Stdout
      with that cp(1) have "out = PipeTooLarge ex" by simp
      with o Stdout show ?thesis by (simp add: c)
    next
      case Stderr
      with that cp(2) have "err = PipeTooLarge ex" by simp
      with r Stderr show ?thesis by (simp add: c)
    qed
    then show ?thesis using total o r by (simp add: output_ok_def c)
  qed
  show ?thesis
  proof (cases "first_exceeded out err")
    case (Some first)
    then have "pipe_reader p (ex_stream first) = Some (ReadTooLarge first)"
      using o r by (auto simp: first_exceeded_def split: option.splits)
    moreover have "cd = TooLarge first c" by (simp add: cd Some c_def)
    ultimately show ?thesis using over e by (cases e) (simp_all add: finish_cases)
  next
    case None
    then have none: "pipe_exceeded out = None" "pipe_exceeded err = None"
      by (auto simp: first_exceeded_def split: option.splits)
    have ne: "e \<noteq> EndExceeded ex" for ex
      using e cp none by (cases "ex_stream ex") auto
    have "cd = Captured c" by (simp add: cd None c_def)
    moreover have "complete c h" using o r none by (simp add: complete_def c)
    moreover have "captured_total c \<le> unat l" if "limit = Some l" for l
      using total [OF that] by (simp add: word_le_nat_alt)
    ultimately show ?thesis using ne by (cases e) (auto simp: output_ok_def)
  qed
qed

section \<open>The supervisor's invariant\<close>

fun kills :: "shell_output list \<Rightarrow> (int \<times> int) list" where
  "kills [] = []"
| "kills (Kill target sig # os) = (target, sig) # kills os"
| "kills (_ # os) = kills os"

lemma kills_append [simp]: "kills (xs @ ys) = kills xs @ kills ys"
  by (induction xs rule: kills.induct) auto

lemma kills_effects [simp]: "kills (read_effects st ev) = []"
  by (cases ev) (auto simp: read_effects_def)

text \<open>The group a signal reaches, and the signals of a full termination.\<close>

definition group_signal :: "int option \<Rightarrow> int \<Rightarrow> (int \<times> int) list" where
  "group_signal pgid sig = (case pgid of None \<Rightarrow> [] | Some p \<Rightarrow> if p \<le> 0 then [] else [(- p, sig)])"

definition swept :: "int option \<Rightarrow> (int \<times> int) list \<Rightarrow> bool" where
  "swept pgid ks \<longleftrightarrow>
     ks = group_signal pgid SIGTERM @ group_signal pgid SIGKILL \<or>
     ks = group_signal pgid SIGTERM @ group_signal pgid SIGKILL @ group_signal pgid SIGKILL"

lemma signal_call_effects [simp]:
  "kills (signal_call pgid sig) = group_signal pgid sig" "delivered st (signal_call pgid sig) = []"
  by (auto simp: signal_call_def group_signal_def split: option.split)

fun term_kills :: "int option \<Rightarrow> term_pc \<Rightarrow> (int \<times> int) list \<Rightarrow> bool" where
  "term_kills pgid TermSignal ks = (ks = group_signal pgid SIGTERM)"
| "term_kills pgid (TermGrace u) ks = (ks = group_signal pgid SIGTERM)"
| "term_kills pgid TermKill ks = (ks = group_signal pgid SIGTERM @ group_signal pgid SIGKILL)"
| "term_kills pgid TermWait ks = (ks = group_signal pgid SIGTERM @ group_signal pgid SIGKILL)"
| "term_kills pgid (TermCleanup st) ks = swept pgid ks"

definition interrupted :: "shell_end \<Rightarrow> bool" where
  "interrupted e \<longleftrightarrow> (\<forall>st. e \<noteq> EndCompleted st)"

definition run_ok :: "shell_config \<Rightarrow> int option \<Rightarrow> shell_run \<Rightarrow> shell_output list \<Rightarrow> bool" where
  "run_ok cfg pgid run h \<longleftrightarrow> output_ok (sc_limit cfg) run h \<and> (case run of
     Completed st c \<Rightarrow> kills h = []
   | TimedOut c \<Rightarrow> swept pgid (kills h)
   | Cancelled c \<Rightarrow> swept pgid (kills h) \<and> sc_shutdown cfg
   | OutputLimitExceeded st l c \<Rightarrow> kills h = [] \<or> swept pgid (kills h))"

definition shell_pc_ok :: "shell_config \<Rightarrow> shell_pc \<Rightarrow> int option \<Rightarrow> pipes \<Rightarrow> shell_output list \<Rightarrow> bool" where
  "shell_pc_ok cfg pc pgid p h \<longleftrightarrow> (case pc of
     STerm t e \<Rightarrow> interrupted e \<and> end_ok cfg p e \<and> term_kills pgid t (kills h)
   | SCollectEnd e \<Rightarrow> interrupted e \<and> end_ok cfg p e \<and> swept pgid (kills h)
   | SDone (Inr run) \<Rightarrow> run_ok cfg pgid run h
   | SDone (Inl e) \<Rightarrow> True
   | SPanicked \<Rightarrow> True
   | _ \<Rightarrow> kills h = [])"

definition shell_inv :: "shell_config \<Rightarrow> shell_state \<Rightarrow> shell_output list \<Rightarrow> bool" where
  "shell_inv cfg s h \<longleftrightarrow> pipes_ok (sc_limit cfg) (sh_pipes s) h \<and> (sh_shutdown s \<longrightarrow> sc_shutdown cfg) \<and>
     shell_pc_ok cfg (sh_pc s) (sh_pgid s) (sh_pipes s) h"

lemma pc_ok_simps [simp]:
  "shell_pc_ok cfg SSpawn pgid p h \<longleftrightarrow> kills h = []"
  "shell_pc_ok cfg SLoop pgid p h \<longleftrightarrow> kills h = []"
  "shell_pc_ok cfg (STick u) pgid p h \<longleftrightarrow> kills h = []"
  "shell_pc_ok cfg (SCollecting st) pgid p h \<longleftrightarrow> kills h = []"
  "shell_pc_ok cfg (STerm t e) pgid p h \<longleftrightarrow> interrupted e \<and> end_ok cfg p e \<and> term_kills pgid t (kills h)"
  "shell_pc_ok cfg (SCollectEnd e) pgid p h \<longleftrightarrow> interrupted e \<and> end_ok cfg p e \<and> swept pgid (kills h)"
  "shell_pc_ok cfg (SDone (Inr run)) pgid p h \<longleftrightarrow> run_ok cfg pgid run h"
  "shell_pc_ok cfg (SDone (Inl err)) pgid p h" "shell_pc_ok cfg SPanicked pgid p h"
  by (simp_all add: shell_pc_ok_def)

lemma interrupted_simps [simp]:
  "interrupted EndTimedOut" "interrupted EndCancelled" "interrupted (EndExceeded ex)"
  "\<not> interrupted (EndCompleted st)"
  by (simp_all add: interrupted_def)

lemma pipes_ok_quiet:
  "(\<And>st. delivered st os = []) \<Longrightarrow> pipes_ok limit p (h @ os) \<longleftrightarrow> pipes_ok limit p h"
  by (simp add: pipes_ok_def)

lemma pipes_ok_dequeue:
  assumes "pipes_ok limit p h" "pp_queue p = ex # rest"
  shows "pipes_ok limit (p\<lparr>pp_queue := rest\<rparr>) h" "pipe_reader p (ex_stream ex) = Some (ReadTooLarge ex)"
  using assms unfolding pipes_ok_def by auto

lemma limit_recv_inv:
  assumes "limit_recv s = Some (msg, s')" "pipes_ok limit (sh_pipes s) h"
  shows "pipes_ok limit (sh_pipes s') h \<and> sh_pc s' = sh_pc s \<and> sh_pgid s' = sh_pgid s \<and>
    sh_shutdown s' = sh_shutdown s \<and> (\<forall>ex. msg = Some ex \<longrightarrow> end_ok cfg (sh_pipes s') (EndExceeded ex))"
  using assms pipes_ok_dequeue [OF assms(2)]
  by (auto simp: limit_recv_def split: if_splits list.splits)

lemma finish_run_ok:
  assumes "pipes_ok (sc_limit cfg) p h" "collect_captured_output p = Some (Inr c)" "end_ok cfg p e"
    and "if interrupted e then swept pgid (kills h) else kills h = []"
  shows "run_ok cfg pgid (finish_shell_run e c) h"
  using finish_output_ok [OF assms(1-3)] assms(3,4)
  by (cases e; cases c) (auto simp: run_ok_def)

text \<open>Each waiting point keeps the invariant.\<close>

lemma terminate_inv:
  assumes "pipes_ok (sc_limit cfg) (sh_pipes s) h" "sh_shutdown s \<longrightarrow> sc_shutdown cfg" "kills h = []"
    and "interrupted e" "end_ok cfg (sh_pipes s) e" "terminate e s = (s', os)"
  shows "shell_inv cfg s' (h @ os)"
proof -
  have "s' = s\<lparr>sh_pc := STerm TermSignal e\<rparr>" "os = signal_call (sh_pgid s) SIGTERM"
    using assms(6) by (simp_all add: terminate_def)
  with assms(1-5) show ?thesis by (simp add: shell_inv_def pipes_ok_quiet)
qed

lemma shell_invI:
  assumes "pipes_ok (sc_limit cfg) (sh_pipes s) h" "sh_shutdown s \<longrightarrow> sc_shutdown cfg"
    and "shell_pc_ok cfg (sh_pc s) (sh_pgid s) (sh_pipes s) h"
  shows "shell_inv cfg s h"
  using assms by (simp add: shell_inv_def)

lemma spawn_inv:
  assumes "shell_inv cfg s h" "sh_pc s = SSpawn" "shell_spawn cfg s i = Some (s', os)"
  shows "shell_inv cfg s' (h @ os)"
  using assms
  by (cases "(cfg, s, i)" rule: shell_spawn.cases)
     (auto simp: shell_inv_def pipes_ok_quiet shell_fail_def split: option.splits)

text \<open>At the polling points nothing has been signalled yet.\<close>

definition polling :: "shell_pc \<Rightarrow> bool" where
  "polling pc \<longleftrightarrow> pc = SLoop \<or> (\<exists>u. pc = STick u) \<or> (\<exists>st. pc = SCollecting st)"

lemma polling_simps [simp]: "polling SLoop" "polling (STick u)" "polling (SCollecting st)"
  by (simp_all add: polling_def)

definition waiting_inv :: "shell_config \<Rightarrow> shell_state \<Rightarrow> shell_output list \<Rightarrow> bool" where
  "waiting_inv cfg s h \<longleftrightarrow> pipes_ok (sc_limit cfg) (sh_pipes s) h \<and>
     (sh_shutdown s \<longrightarrow> sc_shutdown cfg) \<and> kills h = []"

lemma poll_inv_shell: "polling (sh_pc s) \<Longrightarrow> shell_inv cfg s h \<longleftrightarrow> waiting_inv cfg s h"
  by (auto simp: polling_def shell_inv_def waiting_inv_def)

lemma poll_inv_moves:
  "waiting_inv cfg s h \<Longrightarrow> polling pc \<Longrightarrow> shell_inv cfg (s\<lparr>sh_pc := pc\<rparr>) h"
  "waiting_inv cfg s h \<Longrightarrow> shell_inv cfg (s\<lparr>sh_pc := SDone (Inl e)\<rparr>) h"
  "waiting_inv cfg s h \<Longrightarrow> shell_inv cfg (s\<lparr>sh_pc := SCollecting st, sh_shutdown := False\<rparr>) h"
  "waiting_inv cfg s h \<Longrightarrow> waiting_inv cfg (s\<lparr>sh_shutdown := False\<rparr>) h"
  by (auto simp: polling_def shell_inv_def waiting_inv_def)

lemma poll_terminate:
  "\<lbrakk>terminate e s = (s', os); waiting_inv cfg s h; interrupted e; end_ok cfg (sh_pipes s) e\<rbrakk> \<Longrightarrow> shell_inv cfg s' (h @ os)"
  by (rule terminate_inv) (auto simp: waiting_inv_def)

lemma poll_shutdown: "waiting_inv cfg s h \<Longrightarrow> sh_shutdown s \<Longrightarrow> end_ok cfg (sh_pipes s) EndCancelled"
  by (simp add: waiting_inv_def)

lemma poll_limit_recv:
  assumes "limit_recv s = Some (msg, s')" "waiting_inv cfg s h"
  shows "waiting_inv cfg s' h" "msg = Some ex \<Longrightarrow> end_ok cfg (sh_pipes s') (EndExceeded ex)" "sh_pc s' = sh_pc s"
  using limit_recv_inv [OF assms(1)] assms(2) by (auto simp: waiting_inv_def)

lemma loop_inv:
  assumes inv: "waiting_inv cfg s h" and step: "wait_for_child s i = Some (s', os)"
  shows "shell_inv cfg s' (h @ os)"
proof -
  obtain r stop now where i: "i = InTryWait r stop now" using step by (cases i) auto
  show ?thesis
  proof (cases r)
    case (Inl x)
    with step inv show ?thesis by (auto simp: i shell_fail_def intro: poll_inv_moves)
  next
    case (Inr st)
    show ?thesis
    proof (cases st)
      case (Some x)
      with step inv Inr show ?thesis by (auto simp: i intro: poll_inv_moves)
    next
      case None
      consider (stop) "sh_shutdown s" "terminate EndCancelled s = (s', os)"
        | (late) "terminate EndTimedOut s = (s', os)"
        | (tick) u where "s' = s\<lparr>sh_pc := STick u\<rparr>" "os = []"
        using step Inr None by (auto simp: i split: if_splits)
      then show ?thesis
      proof cases
        case stop
        from poll_terminate [OF stop(2) inv _ poll_shutdown [OF inv stop(1)]] show ?thesis by simp
      next
        case late
        from poll_terminate [OF late inv] show ?thesis by simp
      next
        case tick
        with inv show ?thesis by (simp add: poll_inv_moves)
      qed
    qed
  qed
qed

lemma tick_inv:
  assumes inv: "waiting_inv cfg s h" and step: "wait_tick until s i = Some (s', os)"
  shows "shell_inv cfg s' (h @ os)"
proof (cases i)
  case (InTick now)
  with step inv show ?thesis by (auto simp: poll_inv_moves split: if_splits)
next
  case (InShutdown changed)
  show ?thesis
  proof (cases "asks_stop changed")
    case True
    with InShutdown step have "sh_shutdown s" "terminate EndCancelled s = (s', os)"
      by (simp_all split: if_splits)
    from poll_terminate [OF this(2) inv _ poll_shutdown [OF inv this(1)]] show ?thesis by simp
  next
    case False
    with InShutdown step inv show ?thesis by (auto simp: poll_inv_moves split: if_splits)
  qed
next
  case InLimit
  then obtain msg s1 where recv: "limit_recv s = Some (msg, s1)"
    using step by (auto split: option.splits)
  note p = poll_limit_recv [OF recv inv]
  show ?thesis
  proof (cases msg)
    case None
    with InLimit step recv p(1) show ?thesis by (auto simp: poll_inv_moves)
  next
    case (Some ex)
    with InLimit step recv have "terminate (EndExceeded ex) s1 = (s', os)" by simp
    from poll_terminate [OF this p(1) _ p(2) [OF Some]] show ?thesis by simp
  qed
qed (use step in simp_all)

text \<open>The branches of the biased select, one lemma each.\<close>

lemma collecting_limit:
  assumes "collect_after_child_exit st s InLimit = Some (s', os)"
  obtains msg s1 where "limit_recv s = Some (msg, s1)" "msg = None \<Longrightarrow> s' = s1 \<and> os = []"
    "\<And>ex. msg = Some ex \<Longrightarrow> terminate (EndExceeded ex) s1 = (s', os)"
proof (cases "limit_recv s")
  case None
  with assms show ?thesis by (simp split: if_splits)
next
  case (Some m)
  obtain msg s1 where m: "m = (msg, s1)" by (cases m)
  show ?thesis
    by (rule that [of msg s1]; (cases msg)?) (use assms Some m in \<open>simp_all split: if_splits\<close>)
qed

lemma collecting_shutdown:
  assumes "collect_after_child_exit st s (InShutdownState v) = Some (s', os)"
  shows "sh_shutdown s \<and> (terminate EndCancelled s = (s', os) \<or> (s' = s \<and> os = []) \<or>
    (s' = s\<lparr>sh_shutdown := False\<rparr> \<and> os = []))"
proof -
  have sd: "sh_shutdown s" using assms by (simp split: if_splits)
  consider "v = None" | "v = Some True" | "v = Some False" by (cases v) auto
  then show ?thesis by cases (use assms sd in \<open>simp_all split: if_splits\<close>)
qed

lemma collecting_collected:
  assumes "collect_after_child_exit st s InCollected = Some (s', os)"
  obtains (fail) e where "s' = s\<lparr>sh_pc := SDone (Inl e)\<rparr>" "os = []"
  | (ok) c where "collect_captured_output (sh_pipes s) = Some (Inr c)"
      "s' = s\<lparr>sh_pc := SDone (Inr (finish_shell_run (EndCompleted st) c))\<rparr>" "os = []"
  using assms by (auto simp: shell_fail_def split: option.splits sum.splits)

lemma collecting_inv:
  assumes inv: "waiting_inv cfg s h" and pc: "sh_pc s = SCollecting st"
    and step: "collect_after_child_exit st s i = Some (s', os)"
  shows "shell_inv cfg s' (h @ os)"
proof (cases i)
  case InCollected
  with step have "collect_after_child_exit st s InCollected = Some (s', os)" by simp
  then show ?thesis
  proof (cases rule: collecting_collected)
    case fail
    with inv show ?thesis by (simp add: poll_inv_moves)
  next
    case (ok c)
    have "run_ok cfg (sh_pgid s) (finish_shell_run (EndCompleted st) c) h"
      by (rule finish_run_ok [OF _ ok(1)]) (use inv in \<open>simp_all add: waiting_inv_def\<close>)
    with ok inv show ?thesis by (simp add: shell_inv_def waiting_inv_def)
  qed
next
  case InLimit
  with step have "collect_after_child_exit st s InLimit = Some (s', os)" by simp
  then obtain msg s1 where recv: "limit_recv s = Some (msg, s1)" and none: "msg = None \<Longrightarrow> s' = s1 \<and> os = []"
    and some: "\<And>ex. msg = Some ex \<Longrightarrow> terminate (EndExceeded ex) s1 = (s', os)"
    using collecting_limit by blast
  note p = poll_limit_recv [OF recv inv]
  show ?thesis
  proof (cases msg)
    case None
    with none p pc show ?thesis by (simp add: poll_inv_shell)
  next
    case (Some ex)
    from poll_terminate [OF some [OF Some] p(1) _ p(2) [OF Some]] show ?thesis by simp
  qed
next
  case (InShutdownState v)
  with step have "collect_after_child_exit st s (InShutdownState v) = Some (s', os)" by simp
  note v = collecting_shutdown [OF this]
  show ?thesis
    using v inv pc poll_terminate [OF _ inv _ poll_shutdown [OF inv], of s' os]
    by (elim conjE disjE) (simp_all add: poll_inv_shell poll_inv_moves)
next
  case (InDeadline now)
  with step have "terminate EndTimedOut s = (s', os)" by (simp split: if_splits)
  from poll_terminate [OF this inv] show ?thesis by simp
qed (use step in simp_all)

text \<open>Termination and the final collection.\<close>

lemma swept_intros:
  "ks = group_signal pgid SIGTERM \<Longrightarrow> swept pgid (ks @ group_signal pgid SIGKILL)"
  "ks = group_signal pgid SIGTERM @ group_signal pgid SIGKILL \<Longrightarrow> swept pgid (ks @ group_signal pgid SIGKILL)"
  "ks = group_signal None SIGTERM \<Longrightarrow> swept None ks"
  "ks = group_signal None SIGTERM @ group_signal None SIGKILL \<Longrightarrow> swept None ks"
  by (simp_all add: swept_def group_signal_def)

definition term_inv :: "shell_config \<Rightarrow> shell_end \<Rightarrow> shell_state \<Rightarrow> shell_output list \<Rightarrow> bool" where
  "term_inv cfg e s h \<longleftrightarrow> pipes_ok (sc_limit cfg) (sh_pipes s) h \<and>
     (sh_shutdown s \<longrightarrow> sc_shutdown cfg) \<and> interrupted e \<and> end_ok cfg (sh_pipes s) e"

lemma term_inv_shell:
  "term_inv cfg e s h \<Longrightarrow> term_kills (sh_pgid s) t (kills h @ kills os) \<Longrightarrow> (\<And>st. delivered st os = [])
     \<Longrightarrow> shell_inv cfg (s\<lparr>sh_pc := STerm t e\<rparr>) (h @ os)"
  "term_inv cfg e s h \<Longrightarrow> swept (sh_pgid s) (kills h) \<Longrightarrow> shell_inv cfg (s\<lparr>sh_pc := SCollectEnd e\<rparr>) h"
  "term_inv cfg e s h \<Longrightarrow> shell_inv cfg (s\<lparr>sh_pc := SDone (Inl x)\<rparr>) h"
  by (simp_all add: term_inv_def shell_inv_def pipes_ok_quiet)

lemma term_cleanup_inv:
  assumes "term_cleanup e st s = (s', os)" "term_inv cfg e s h"
    and "kills h = group_signal (sh_pgid s) SIGTERM \<or>
      kills h = group_signal (sh_pgid s) SIGTERM @ group_signal (sh_pgid s) SIGKILL"
  shows "shell_inv cfg s' (h @ os)"
proof (cases "sh_pgid s")
  case None
  have "swept (sh_pgid s) (kills h)"
    using assms(3) swept_intros(3,4) [where ks = "kills h"] by (auto simp: None)
  with assms(1,2) None show ?thesis by (auto simp: term_cleanup_def term_inv_shell)
next
  case (Some p)
  have "swept (sh_pgid s) (kills h @ group_signal (sh_pgid s) SIGKILL)"
    using assms(3) swept_intros(1,2) by metis
  with assms(1,2) Some show ?thesis by (auto simp: term_cleanup_def intro!: term_inv_shell(1))
qed

lemma signalled_cases:
  assumes "(case signal_result pgid r of Inl x \<Rightarrow> shell_fail (WaitError x) s | Inr _ \<Rightarrow> next) = (s', os)"
  obtains (fail) x where "s' = s\<lparr>sh_pc := SDone (Inl x)\<rparr>" "os = []" | (ok) "next = (s', os)"
  using assms by (cases "signal_result pgid r") (auto simp: shell_fail_def)

lemma term_step_inv:
  assumes ti: "term_inv cfg e s h" and ks: "term_kills (sh_pgid s) t (kills h)"
    and step: "terminate_process_group t e s i = Some (s', os)"
  shows "shell_inv cfg s' (h @ os)"
  using step
proof (cases "(t, e, s, i)" rule: terminate_process_group.cases)
  case (1 e s r now)
  with step ti ks show ?thesis by (auto elim!: signalled_cases simp: term_inv_shell term_inv_shell(1) [where os = "[]", simplified])
next
  case (5 e s r now)
  with step ti ks show ?thesis by (auto elim!: signalled_cases simp: term_inv_shell term_inv_shell(1) [where os = "[]", simplified])
next
  case (8 st e s r now)
  with step ti ks show ?thesis by (auto elim!: signalled_cases simp: term_inv_shell)
next
  case (4 until e s now)
  with step ti ks show ?thesis by (auto intro!: term_inv_shell(1) split: if_splits)
qed (use step ti ks in \<open>auto simp: shell_fail_def term_inv_shell intro: term_cleanup_inv\<close>)

lemma collect_end_inv:
  assumes ti: "term_inv cfg e s h" and ks: "swept (sh_pgid s) (kills h)"
    and step: "collect_end e s i = Some (s', os)"
  shows "shell_inv cfg s' (h @ os)"
proof -
  have i: "i = InCollected" using step by (cases i) auto
  consider (fail) x where "s' = s\<lparr>sh_pc := SDone (Inl x)\<rparr>" "os = []"
    | (ok) c where "collect_captured_output (sh_pipes s) = Some (Inr c)"
      "s' = s\<lparr>sh_pc := SDone (Inr (finish_shell_run e c))\<rparr>" "os = []"
    using step by (auto simp: i shell_fail_def split: option.splits sum.splits)
  then show ?thesis
  proof cases
    case fail
    with ti show ?thesis by (simp add: term_inv_shell)
  next
    case (ok c)
    have "run_ok cfg (sh_pgid s) (finish_shell_run e c) h"
      by (rule finish_run_ok [OF _ ok(1)]) (use ti ks in \<open>simp_all add: term_inv_def\<close>)
    with ok ti show ?thesis by (simp add: shell_inv_def term_inv_def)
  qed
qed

text \<open>A read never touches a reader that is done, so a reported end stays justified.\<close>

lemma pipes_step_end_ok:
  assumes "pipes_step p st ev = Some p'" "end_ok cfg p e"
  shows "end_ok cfg p' e"
  using assms(1)
proof (rule pipes_stepD)
  fix got r used sent
  assume "pipe_reader p st = Some (Reading got)"
    "p' = set_reader st r (p\<lparr>pp_used := used, pp_queue := pp_queue p @ sent\<rparr>)"
  then show ?thesis using assms(2) by (cases e) auto
qed

lemma pc_ok_pipes:
  assumes "shell_pc_ok cfg pc pgid p h" "shell_live pc" "\<And>e. end_ok cfg p e \<Longrightarrow> end_ok cfg p' e" "kills os = []"
  shows "shell_pc_ok cfg pc pgid p' (h @ os)"
  using assms by (cases pc) (auto simp: shell_live_def)

lemma shell_step_inv:
  assumes inv: "shell_inv cfg s h" and step: "shell_step cfg s i = Some (s', os)"
  shows "shell_inv cfg s' (h @ os)"
proof (cases "\<exists>st ev. i = InPipe st ev")
  case True
  then obtain st ev p where i: "i = InPipe st ev" and live: "shell_live (sh_pc s)"
    and p: "pipes_step (sh_pipes s) st ev = Some p" "s' = s\<lparr>sh_pipes := p\<rparr>" "os = read_effects st ev"
    using step by (auto simp: shell_step.simps read_effects_def split: if_splits)
  show ?thesis
    using inv pipes_step_ok [OF _ p(1), of "sc_limit cfg" h] pipes_step_end_ok [OF p(1)]
      pc_ok_pipes [OF _ live, of cfg "sh_pgid s" "sh_pipes s" h p os]
    by (auto simp: shell_inv_def p)
next
  case False
  then have step: "shell_task cfg s i = Some (s', os)"
    using step by (cases i) (auto simp: shell_step.simps)
  show ?thesis
  proof (cases "sh_pc s")
    case SSpawn
    with step inv show ?thesis by (intro spawn_inv) (simp_all add: shell_task.simps)
  next
    case SLoop
    with step inv show ?thesis by (intro loop_inv) (simp_all add: shell_task.simps poll_inv_shell)
  next
    case (STick u)
    with step inv show ?thesis by (intro tick_inv) (simp_all add: shell_task.simps poll_inv_shell)
  next
    case (SCollecting st)
    with step inv show ?thesis by (intro collecting_inv) (simp_all add: shell_task.simps poll_inv_shell)
  next
    case (STerm t e)
    with step inv show ?thesis
      by (intro term_step_inv) (simp_all add: shell_task.simps term_inv_def shell_inv_def)
  next
    case (SCollectEnd e)
    with step inv show ?thesis
      by (intro collect_end_inv) (simp_all add: shell_task.simps term_inv_def shell_inv_def)
  qed (use step in \<open>simp_all add: shell_task.simps\<close>)
qed

lemma shell_init_inv: "shell_inv cfg (shell_init cfg) []"
  by (simp add: shell_inv_def shell_init_def pipes_ok_alt configure_stdio_def all_streams
      reader_ok_def counted_def both_def)

definition shell_final :: "shell_state \<Rightarrow> bool" where
  "shell_final s \<longleftrightarrow> (\<exists>r. sh_pc s = SDone r) \<or> sh_pc s = SPanicked"

lemma shell_final_stuck: "shell_final s \<Longrightarrow> shell_step cfg s i = None"
  by (cases i) (auto simp: shell_final_def shell_step.simps shell_task.simps shell_live_def)

interpretation shell: halting_machine "shell_step cfg" "shell_init cfg" "shell_inv cfg" shell_final
  by unfold_locales (auto simp: shell_init_inv shell_final_stuck intro: shell_step_inv)

lemma shell_done:
  "\<lbrakk>reaches (shell_step cfg) (shell_init cfg) s h; sh_pc s = SDone (Inr run)\<rbrakk> \<Longrightarrow> run_ok cfg (sh_pgid s) run h"
  using shell.reaches_inv [of cfg s h] by (simp add: shell_inv_def)

section \<open>The contract of a shell runner\<close>

text \<open>
  What the callers rely on: \<open>exec cfg\<close> is the result of one run, \<open>None\<close> while it has none.
  The output stays within the limit and is empty for a stream that is not captured; a run is
  cancelled only through a shutdown channel and truncated only by the limit.
\<close>

definition run_contract :: "shell_config \<Rightarrow> shell_run \<Rightarrow> bool" where
  "run_contract cfg run \<longleftrightarrow>
     (\<forall>l. sc_limit cfg = Some l \<longrightarrow> captured_total (run_output run) \<le> unat l) \<and>
     (\<forall>st l c. run = OutputLimitExceeded st l c \<longrightarrow> sc_limit cfg = Some l \<and> captured_total c = unat l) \<and>
     ((\<forall>st l c. run \<noteq> OutputLimitExceeded st l c) \<longrightarrow>
        \<not> co_stdout_truncated (run_output run) \<and> \<not> co_stderr_truncated (run_output run)) \<and>
     (sc_stdout cfg \<noteq> ModeCapture \<longrightarrow> co_stdout (run_output run) = []) \<and>
     (sc_stderr cfg \<noteq> ModeCapture \<longrightarrow> co_stderr (run_output run) = []) \<and>
     ((\<exists>c. run = Cancelled c) \<longrightarrow> sc_shutdown cfg)"

locale shell_runner =
  fixes exec :: "shell_config \<Rightarrow> (process_error, shell_run) result option"
  assumes exec_contract: "exec cfg = Some (Inr run) \<Longrightarrow> run_contract cfg run"
begin

lemma exec_bounded: "\<lbrakk>exec cfg = Some (Inr run); sc_limit cfg = Some l\<rbrakk> \<Longrightarrow> captured_total (run_output run) \<le> unat l"
  using exec_contract [of cfg run] by (simp add: run_contract_def)

lemma exec_cancelled: "exec cfg = Some (Inr (Cancelled c)) \<Longrightarrow> sc_shutdown cfg"
  using exec_contract [of cfg "Cancelled c"] by (simp add: run_contract_def)

lemma exec_unlimited: "\<lbrakk>exec cfg = Some (Inr (OutputLimitExceeded st l c)); sc_limit cfg = None\<rbrakk> \<Longrightarrow> False"
  using exec_contract [of cfg "OutputLimitExceeded st l c"] by (simp add: run_contract_def)

end

text \<open>The supervisor in an environment, given as the observations it makes.\<close>

definition shell_exec ::
  "(shell_config \<Rightarrow> shell_input list) \<Rightarrow> shell_config \<Rightarrow> (process_error, shell_run) result option" where
  "shell_exec env cfg = (case run_machine (shell_step cfg) (shell_init cfg) (env cfg) of
     None \<Rightarrow> None
   | Some (s, h) \<Rightarrow> (case sh_pc s of SDone r \<Rightarrow> Some r | _ \<Rightarrow> None))"

definition same_readers :: "shell_state \<Rightarrow> shell_state \<Rightarrow> bool" where
  "same_readers s s' \<longleftrightarrow> (\<forall>st. pipe_reader (sh_pipes s') st = None \<longleftrightarrow> pipe_reader (sh_pipes s) st = None)"

lemma same_readers_refl [simp]: "sh_pipes s' = sh_pipes s \<Longrightarrow> same_readers s s'"
  by (simp add: same_readers_def)

lemma limit_recv_readers: "limit_recv s = Some (msg, s') \<Longrightarrow> same_readers s s'"
  by (auto simp: limit_recv_def same_readers_def split: if_splits list.splits)

lemma same_readers_terminate:
  "terminate e s = (s', os) \<Longrightarrow> sh_pipes s' = sh_pipes s"
  "shell_fail err s = (s', os) \<Longrightarrow> sh_pipes s' = sh_pipes s"
  "term_cleanup e st s = (s', os) \<Longrightarrow> sh_pipes s' = sh_pipes s"
  by (auto simp: terminate_def shell_fail_def term_cleanup_def split: option.splits)

lemma term_step_pipes: "terminate_process_group t e s i = Some (s', os) \<Longrightarrow> sh_pipes s' = sh_pipes s"
  by (cases "(t, e, s, i)" rule: terminate_process_group.cases)
     (auto elim!: signalled_cases split: if_splits dest: same_readers_terminate)

lemma loop_pipes: "wait_for_child s i = Some (s', os) \<Longrightarrow> sh_pipes s' = sh_pipes s"
  by (cases i) (auto split: sum.splits option.splits if_splits dest: same_readers_terminate)

lemma same_readers_pipes: "\<lbrakk>same_readers s s1; sh_pipes s2 = sh_pipes s1\<rbrakk> \<Longrightarrow> same_readers s s2"
  by (simp add: same_readers_def)

lemma tick_readers: "wait_tick u s i = Some (s', os) \<Longrightarrow> same_readers s s'"
proof (cases i)
  case InLimit
  assume step: "wait_tick u s i = Some (s', os)"
  then obtain msg s1 where recv: "limit_recv s = Some (msg, s1)" using InLimit by (auto split: option.splits)
  have "sh_pipes s' = sh_pipes s1"
    using step InLimit recv by (cases msg) (auto dest: same_readers_terminate)
  with limit_recv_readers [OF recv] show ?thesis by (rule same_readers_pipes)
qed (auto split: if_splits dest: same_readers_terminate)

lemma collecting_readers: "collect_after_child_exit st s i = Some (s', os) \<Longrightarrow> same_readers s s'"
proof (cases i)
  case InLimit
  assume "collect_after_child_exit st s i = Some (s', os)"
  then obtain msg s1 where recv: "limit_recv s = Some (msg, s1)" and none: "msg = None \<Longrightarrow> s' = s1 \<and> os = []"
    and some: "\<And>ex. msg = Some ex \<Longrightarrow> terminate (EndExceeded ex) s1 = (s', os)"
    using collecting_limit InLimit by blast
  have "sh_pipes s' = sh_pipes s1" using none some by (cases msg) (auto dest: same_readers_terminate)
  with limit_recv_readers [OF recv] show ?thesis by (rule same_readers_pipes)
next
  case InCollected
  assume "collect_after_child_exit st s i = Some (s', os)"
  then have "collect_after_child_exit st s InCollected = Some (s', os)" unfolding InCollected .
  then show ?thesis by (cases rule: collecting_collected) simp_all
next
  case (InShutdownState v)
  assume "collect_after_child_exit st s i = Some (s', os)"
  with InShutdownState collecting_shutdown [of st s v s' os] show ?thesis
    by (auto dest: same_readers_terminate)
qed (auto split: if_splits dest: same_readers_terminate)

lemma shell_step_readers:
  assumes "shell_step cfg s i = Some (s', os)"
  shows "same_readers s s'"
proof (cases "\<exists>st ev. i = InPipe st ev")
  case True
  then obtain st ev p where p: "pipes_step (sh_pipes s) st ev = Some p" "s' = s\<lparr>sh_pipes := p\<rparr>"
    using assms by (auto simp: shell_step.simps split: if_splits)
  from p(1) show ?thesis by (rule pipes_stepD) (auto simp: same_readers_def p(2))
next
  case False
  then have step: "shell_task cfg s i = Some (s', os)"
    using assms by (cases i) (auto simp: shell_step.simps)
  show ?thesis
  proof (cases "sh_pc s")
    case SSpawn
    with step have "shell_spawn cfg s i = Some (s', os)" by (simp add: shell_task.simps)
    then show ?thesis
      by (cases "(cfg, s, i)" rule: shell_spawn.cases) (auto split: option.splits dest: same_readers_terminate)
  next
    case (SCollectEnd e)
    with step show ?thesis
      by (cases i) (auto simp: shell_task.simps split: option.splits sum.splits dest: same_readers_terminate)
  qed (use step in \<open>auto simp: shell_task.simps dest: term_step_pipes loop_pipes intro: tick_readers collecting_readers\<close>)
qed

definition modes_inv :: "shell_config \<Rightarrow> shell_state \<Rightarrow> shell_output list \<Rightarrow> bool" where
  "modes_inv cfg s h \<longleftrightarrow> same_readers (shell_init cfg) s"

lemma same_readers_trans: "\<lbrakk>same_readers s s1; same_readers s1 s2\<rbrakk> \<Longrightarrow> same_readers s s2"
  unfolding same_readers_def by blast

interpretation shell_modes: step_machine "shell_step cfg" "shell_init cfg" "modes_inv cfg"
proof
  show "modes_inv cfg (shell_init cfg) []" by (simp add: modes_inv_def)
  show "modes_inv cfg s' (h @ os)" if "modes_inv cfg s h" "shell_step cfg s i = Some (s', os)" for s h i s' os
    using that shell_step_readers same_readers_trans unfolding modes_inv_def by blast
qed

lemma uncaptured_empty:
  assumes "reaches (shell_step cfg) (shell_init cfg) s h"
  shows "sc_stdout cfg \<noteq> ModeCapture \<Longrightarrow> delivered Stdout h = []"
    "sc_stderr cfg \<noteq> ModeCapture \<Longrightarrow> delivered Stderr h = []"
proof -
  have same: "same_readers (shell_init cfg) s" using shell_modes.reaches_inv [OF assms] by (simp add: modes_inv_def)
  have ok: "pipes_ok (sc_limit cfg) (sh_pipes s) h"
    using shell.reaches_inv [OF assms] by (simp add: shell_inv_def)
  have none: "delivered st h = []" if "pipe_reader (sh_pipes (shell_init cfg)) st = None" for st
  proof -
    have "pipe_reader (sh_pipes s) st = None" using same that unfolding same_readers_def by blast
    moreover have "reader_ok (sc_limit cfg) (pp_used (sh_pipes s)) st (pipe_reader (sh_pipes s) st) (delivered st h)"
      using ok unfolding pipes_ok_def by blast
    ultimately show ?thesis by (simp add: reader_ok_def)
  qed
  show "sc_stdout cfg \<noteq> ModeCapture \<Longrightarrow> delivered Stdout h = []"
    using none [of Stdout] by (simp add: shell_init_def configure_stdio_def)
  show "sc_stderr cfg \<noteq> ModeCapture \<Longrightarrow> delivered Stderr h = []"
    using none [of Stderr] by (simp add: shell_init_def configure_stdio_def)
qed

lemma shell_exec_contract:
  assumes "shell_exec env cfg = Some (Inr run)"
  shows "run_contract cfg run"
proof -
  obtain s h where r: "reaches (shell_step cfg) (shell_init cfg) s h" "sh_pc s = SDone (Inr run)"
    using assms run_reaches by (fastforce simp: shell_exec_def split: option.splits shell_pc.splits)
  note ok = shell_done [OF r, unfolded run_ok_def] and empty = uncaptured_empty [OF r(1)]
  show ?thesis
  proof (cases run)
    case (OutputLimitExceeded st l c)
    with ok empty show ?thesis by (auto simp: run_contract_def output_ok_def prefix_of_def)
  qed (use ok empty in \<open>auto simp: run_contract_def output_ok_def complete_def\<close>)
qed

interpretation os_shell: shell_runner "shell_exec env"
  by unfold_locales (rule shell_exec_contract)

section \<open>Properties\<close>

definition demo_shell :: shell_config where
  "demo_shell = run_shell_process ''cmd'' True True (secs 5) (Some 3) True"

definition demo_reads :: "shell_input list" where
  "demo_reads = [InSpawn (Inr (Some 7)) 0, InTryWait (Inr None) False 0, InPipe Stdout (PipeBytes ''ab''),
     InTick 10000000, InTryWait (Inr None) False 10000000, InPipe Stderr (PipeBytes ''cde''), InLimit,
     InSignalled KillOk 10000001, InExit (Inr \<lparr>es_code = None, es_signal = Some 15\<rparr>),
     InSignalled (KillErrno 3) 10000002, InPipe Stdout (PipeBytes []), InCollected]"

lemmas shell_eval = demo_shell_def demo_reads_def run_shell_process_def shell_init_def configure_stdio_def
  shell_step.simps shell_task.simps pipes_step_def reserve_def saturating_sub64_def saturating_add64_def
  secs_def instant_add_def instant_limit_def WAIT_POLL_INTERVAL_def READ_BUFFER_def TERMINATE_GRACE_def
  limit_recv_def terminate_def signal_call_def signal_result_def shell_fail_def term_cleanup_def
  collect_captured_output_def captured_pipes_def first_exceeded_def shell_live_def Let_def
  SIGTERM_def SIGKILL_def ESRCH_def

lemma demo_shell_run:
  "\<exists>s h. run_machine (shell_step demo_shell) (shell_init demo_shell) demo_reads = Some (s, h) \<and>
     sh_pgid s = Some 7 \<and>
     sh_pc s = SDone (Inr (OutputLimitExceeded Stderr 3 \<lparr>co_stdout = ''ab'', co_stderr = ''c'',
       co_stdout_truncated = False, co_stderr_truncated = True\<rparr>))"
proof -
  have "(case run_machine (shell_step demo_shell) (shell_init demo_shell) demo_reads of
      Some (s, h) \<Rightarrow> sh_pgid s = Some 7 \<and>
        sh_pc s = SDone (Inr (OutputLimitExceeded Stderr 3 \<lparr>co_stdout = ''ab'', co_stderr = ''c'',
          co_stdout_truncated = False, co_stderr_truncated = True\<rparr>)) | None \<Rightarrow> False)"
    by (simp add: shell_eval)
  then show ?thesis by (auto split: option.splits)
qed

text \<open>
  C15. The output limit is exact under any interleaving of the two readers: a run that ends
  because of the limit has captured exactly the limit, in two prefixes of what the pipes
  delivered, and names a truncated stream; every other run returns all the bytes both pipes
  delivered, within the limit.
\<close>

theorem output_limit_exact:
  assumes "reaches (shell_step cfg) (shell_init cfg) s h" "sh_pc s = SDone (Inr run)"
  shows "output_ok (sc_limit cfg) run h"
  using shell_done [OF assms] by (simp add: run_ok_def)

lemma output_limit_exact_witness:
  "\<exists>s h. reaches (shell_step demo_shell) (shell_init demo_shell) s h \<and> output_ok (Some 3)
     (OutputLimitExceeded Stderr 3 \<lparr>co_stdout = ''ab'', co_stderr = ''c'',
       co_stdout_truncated = False, co_stderr_truncated = True\<rparr>) h"
proof -
  obtain s h where r: "run_machine (shell_step demo_shell) (shell_init demo_shell) demo_reads = Some (s, h)"
    "sh_pc s = SDone (Inr (OutputLimitExceeded Stderr 3 \<lparr>co_stdout = ''ab'', co_stderr = ''c'',
       co_stdout_truncated = False, co_stderr_truncated = True\<rparr>))" using demo_shell_run by blast
  have "sc_limit demo_shell = Some 3" by (simp add: demo_shell_def run_shell_process_def)
  with output_limit_exact [OF run_reaches [OF r(1)] r(2)] run_reaches [OF r(1)] show ?thesis by auto
qed

text \<open>
  C6. A run that is cut short leaves no process behind that its group could reach: a timeout or
  a cancellation is reported only after the group got SIGTERM and, last of all, SIGKILL; a
  command that completes is never signalled; a cancellation needs a shutdown channel.
\<close>

theorem interrupted_runs_are_swept:
  assumes "reaches (shell_step cfg) (shell_init cfg) s h" "sh_pc s = SDone (Inr run)"
  shows "case run of
     Completed st c \<Rightarrow> kills h = []
   | TimedOut c \<Rightarrow> swept (sh_pgid s) (kills h)
   | Cancelled c \<Rightarrow> swept (sh_pgid s) (kills h) \<and> sc_shutdown cfg
   | OutputLimitExceeded st l c \<Rightarrow> kills h = [] \<or> swept (sh_pgid s) (kills h)"
  using shell_done [OF assms] by (simp add: run_ok_def)

definition demo_late :: "shell_input list" where
  "demo_late = [InSpawn (Inr (Some 7)) 0, InTryWait (Inr None) False 5000000000,
     InSignalled KillOk 5000000000, InGraceOver 7000000000, InSignalled KillOk 7000000000,
     InExit (Inr \<lparr>es_code = None, es_signal = Some 9\<rparr>), InSignalled KillOk 7000000001,
     InPipe Stdout (PipeBytes ''x''), InPipe Stdout (PipeBytes []), InPipe Stderr (PipeBytes []), InCollected]"

lemma interrupted_runs_are_swept_witness:
  "\<exists>s h c. run_machine (shell_step demo_shell) (shell_init demo_shell) demo_late = Some (s, h) \<and>
     sh_pc s = SDone (Inr (TimedOut c)) \<and> swept (Some 7) (kills h)"
proof -
  have "(case run_machine (shell_step demo_shell) (shell_init demo_shell) demo_late of
      Some (s, h) \<Rightarrow> sh_pgid s = Some 7 \<and> (\<exists>c. sh_pc s = SDone (Inr (TimedOut c))) | None \<Rightarrow> False)"
    by (simp add: shell_eval demo_late_def)
  then obtain s h c where r: "run_machine (shell_step demo_shell) (shell_init demo_shell) demo_late = Some (s, h)"
    "sh_pc s = SDone (Inr (TimedOut c))" "sh_pgid s = Some 7" by (auto split: option.splits)
  from interrupted_runs_are_swept [OF run_reaches [OF r(1)] r(2)] r show ?thesis by auto
qed

text \<open>
  The deadline is enforced against a child that ignores SIGTERM: at the first poll at or
  after the deadline the group gets SIGTERM, after the grace period SIGKILL, and once the
  child is reaped SIGKILL again, after which only the output is left to collect.
\<close>

lemma stubborn_child_is_killed:
  assumes "sh_pc s = SLoop" "sh_pgid s = Some p" "0 < p" "sh_deadline s \<le> now"
    and "now + TERMINATE_GRACE \<le> later"
  shows "\<exists>s'. run_machine (shell_step cfg) s [InTryWait (Inr None) stop now, InSignalled KillOk now,
       InGraceOver later, InSignalled KillOk later, InExit (Inr st), InSignalled (KillErrno ESRCH) later]
     = Some (s', [Kill (- p) SIGTERM, Kill (- p) SIGKILL, Kill (- p) SIGKILL]) \<and>
     sh_pc s' = SCollectEnd (if sh_shutdown s \<and> stop then EndCancelled else EndTimedOut)"
  using assms
  by (simp add: shell_step.simps shell_task.simps terminate_def signal_call_def signal_result_def
      term_cleanup_def)

text \<open>
  A timeout the configuration accepts can panic the run: with the largest one TOML can express,
  the deadline overflows a second after the clock's origin, when the child is already spawned.
\<close>

lemma huge_timeout_panics:
  assumes "sh_pc s = SSpawn" "sc_timeout cfg = from_secs 9223372036854775807" "secs 1 \<le> now"
  shows "shell_task cfg s (InSpawn (Inr pid) now) = Some (s\<lparr>sh_pc := SPanicked\<rparr>, [Spawned (sc_command cfg)])"
  using assms by (simp add: shell_task.simps instant_add_def instant_limit_def from_secs_def secs_def)

end
