(* ===== verification/Shell_Command.thy ===== *)
theory Shell_Command
  imports Shell_Process Configuration
begin

text \<open>
  Configured commands (\<^verbatim>\<open>src/src/command.rs\<close>): the output policy chooses the streams of the
  shell run, its result becomes a \<open>command_outcome\<close>, and the log gets a summary and, when the
  policy allows, the last lines of the output. Log records are values, so that what reaches
  the log is part of the model. The shell runner is the contract \<open>shell_runner\<close> of
  \<open>Shell_Process\<close>.
\<close>

section \<open>Lossy decoding and lines\<close>

text \<open>\<^verbatim>\<open>String::from_utf8_lossy\<close>: each maximal invalid sequence becomes U+FFFD.\<close>

definition utf8_width :: "char \<Rightarrow> nat" where
  "utf8_width a = (if byte_in 0 127 a then 1 else if byte_in 194 223 a then 2
     else if byte_in 224 239 a then 3 else if byte_in 240 244 a then 4 else 0)"

definition utf8_second :: "char \<Rightarrow> char \<Rightarrow> bool" where
  "utf8_second a b \<longleftrightarrow>
     (if a = CHR 0xE0 then byte_in 160 191 b else if a = CHR 0xED then byte_in 128 159 b
      else if a = CHR 0xF0 then byte_in 144 191 b else if a = CHR 0xF4 then byte_in 128 143 b
      else cont_byte b)"

text \<open>How many of the bytes after a lead byte continue it.\<close>

definition utf8_follow :: "char \<Rightarrow> string \<Rightarrow> nat" where
  "utf8_follow a s = (case s of
     [] \<Rightarrow> 0
   | b # s' \<Rightarrow> if 2 \<le> utf8_width a \<and> utf8_second a b
       then Suc (length (takeWhile cont_byte (take (utf8_width a - 2) s'))) else 0)"

definition REPLACEMENT :: string where
  "REPLACEMENT = [CHR 0xEF, CHR 0xBF, CHR 0xBD]"

function utf8_lossy :: "string \<Rightarrow> string" where
  "utf8_lossy s = (case s of
     [] \<Rightarrow> []
   | a # s' \<Rightarrow> (let k = utf8_follow a s' in
       (if Suc k = utf8_width a then a # take k s' else REPLACEMENT) @ utf8_lossy (drop k s')))"
  by pat_completeness auto
termination
  by (relation "measure length") auto

declare utf8_lossy.simps [simp del]

text \<open>\<^verbatim>\<open>str::lines\<close>: lines end with a line feed, which is removed with a carriage return before it.\<close>

definition strip_cr :: "string \<Rightarrow> string" where
  "strip_cr l = (if l \<noteq> [] \<and> last l = CR then butlast l else l)"

fun str_lines_from :: "string \<Rightarrow> string \<Rightarrow> string list" where
  "str_lines_from acc [] = (if acc = [] then [] else [acc])"
| "str_lines_from acc (c # cs) =
     (if c = LF then strip_cr acc # str_lines_from [] cs else str_lines_from (acc @ [c]) cs)"

definition str_lines :: "string \<Rightarrow> string list" where
  "str_lines s = str_lines_from [] s"

fun join_lf :: "string list \<Rightarrow> string" where
  "join_lf [] = []"
| "join_lf [l] = l"
| "join_lf (l # ls) = l @ LF # join_lf ls"

definition tail_lines :: "string \<Rightarrow> usize \<Rightarrow> string option" where
  "tail_lines output max_lines =
     (if output = [] \<or> max_lines = 0 then None
      else (let lines = rev (take (unat max_lines) (rev (str_lines (utf8_lossy output))))
            in if lines = [] then None else Some (join_lf lines)))"

section \<open>Policy and outcome\<close>

definition default_policy :: output_policy where
  "default_policy = \<lparr>op_mode = FailureTail, op_max_bytes = DEFAULT_COMMAND_OUTPUT_MAX_BYTES,
     op_tail_lines = DEFAULT_COMMAND_OUTPUT_TAIL_LINES\<rparr>"

definition silent_policy :: output_policy where
  "silent_policy = default_policy\<lparr>op_mode := Silent\<rparr>"

definition captures_output :: "output_policy \<Rightarrow> bool" where
  "captures_output p \<longleftrightarrow> op_mode p = FailureTail \<or> op_mode p = Tail \<or> op_mode p = Debug"

definition streams_to_journal :: "output_policy \<Rightarrow> bool" where
  "streams_to_journal p \<longleftrightarrow> op_mode p = Journal"

definition exit_outcome :: "exit_status \<Rightarrow> command_outcome" where
  "exit_outcome st = \<lparr>success = exit_success st, code = es_code st, signal = es_signal st,
     timed_out = False, cancelled = False, timeout = None, output_limit_exceeded = False,
     output_limit = None\<rparr>"

datatype command_error = CmdStart string | CmdWait string | CmdOutput string

fun command_error_from :: "process_error \<Rightarrow> command_error" where
  "command_error_from (StartError e) = CmdStart e"
| "command_error_from (WaitError e) = CmdWait e"
| "command_error_from (OutputError e) = CmdOutput e"

datatype output_report = CapturedReport captured_output | ExceededReport captured_output

record execution_report =
  er_outcome :: command_outcome
  er_output :: output_report

fun execution_report_of :: "duration \<Rightarrow> shell_run \<Rightarrow> execution_report" where
  "execution_report_of t (Completed st c) = \<lparr>er_outcome = exit_outcome st, er_output = CapturedReport c\<rparr>"
| "execution_report_of t (TimedOut c) = \<lparr>er_outcome = outcome_timed_out t, er_output = CapturedReport c\<rparr>"
| "execution_report_of t (Cancelled c) = \<lparr>er_outcome = outcome_cancelled, er_output = CapturedReport c\<rparr>"
| "execution_report_of t (OutputLimitExceeded st l c) =
     \<lparr>er_outcome = outcome_limit_exceeded (unat l), er_output = ExceededReport c\<rparr>"

definition policy_shell :: "string \<Rightarrow> duration \<Rightarrow> output_policy \<Rightarrow> bool \<Rightarrow> shell_config" where
  "policy_shell command time_limit policy shutdown =
     (let mode = (if streams_to_journal policy then ModeInherit
                  else if captures_output policy then ModeCapture else ModeNull)
      in \<lparr>sc_command = command, sc_stdout = mode, sc_stderr = mode, sc_timeout = time_limit,
          sc_limit = (if captures_output policy then Some (op_max_bytes policy) else None),
          sc_shutdown = shutdown\<rparr>)"

type_synonym shell_exec = "shell_config \<Rightarrow> (process_error, shell_run) result option"

definition run_shell_command_with_policy ::
  "shell_exec \<Rightarrow> string \<Rightarrow> duration \<Rightarrow> output_policy \<Rightarrow> bool
     \<Rightarrow> (command_error, execution_report) result option" where
  "run_shell_command_with_policy exec command time_limit policy shutdown =
     map_option (\<lambda>r. case r of
         Inl e \<Rightarrow> Inl (command_error_from e)
       | Inr run \<Rightarrow> Inr (execution_report_of time_limit run))
       (exec (policy_shell command time_limit policy shutdown))"

section \<open>The log\<close>

datatype log_level = LevelDebug | LevelInfo | LevelWarn | LevelError

record output_summary =
  os_stdout_bytes :: nat
  os_stderr_bytes :: nat
  os_stdout_truncated :: bool
  os_stderr_truncated :: bool
  os_captured :: bool
  os_suppressed :: bool
  os_journal :: bool

fun report_output :: "output_report \<Rightarrow> captured_output" where
  "report_output (CapturedReport c) = c"
| "report_output (ExceededReport c) = c"

fun output_summary_of :: "output_report \<Rightarrow> output_policy \<Rightarrow> output_summary" where
  "output_summary_of (CapturedReport c) p = \<lparr>os_stdout_bytes = stdout_len c, os_stderr_bytes = stderr_len c,
     os_stdout_truncated = co_stdout_truncated c, os_stderr_truncated = co_stderr_truncated c,
     os_captured = captures_output p, os_suppressed = (op_mode p = Silent), os_journal = streams_to_journal p\<rparr>"
| "output_summary_of (ExceededReport c) p = \<lparr>os_stdout_bytes = length (co_stdout c),
     os_stderr_bytes = length (co_stderr c), os_stdout_truncated = co_stdout_truncated c,
     os_stderr_truncated = co_stderr_truncated c, os_captured = True, os_suppressed = False, os_journal = False\<rparr>"

record output_tails =
  ot_stdout :: "string option"
  ot_stderr :: "string option"

definition tails_from_bytes :: "string \<Rightarrow> string \<Rightarrow> usize \<Rightarrow> output_tails" where
  "tails_from_bytes out err n = \<lparr>ot_stdout = tail_lines out n, ot_stderr = tail_lines err n\<rparr>"

definition tails_from_captured :: "captured_output \<Rightarrow> usize \<Rightarrow> output_tails" where
  "tails_from_captured c n = tails_from_bytes (co_stdout c) (co_stderr c) n"

fun report_tails :: "output_report \<Rightarrow> output_policy \<Rightarrow> output_tails" where
  "report_tails (CapturedReport c) p = tails_from_captured c (op_tail_lines p)"
| "report_tails (ExceededReport c) p = tails_from_bytes (co_stdout c) (co_stderr c) (op_tail_lines p)"

definition tails_empty :: "output_tails \<Rightarrow> bool" where
  "tails_empty t \<longleftrightarrow> ot_stdout t = None \<and> ot_stderr t = None"

definition should_log_tail :: "output_policy \<Rightarrow> command_outcome \<Rightarrow> bool" where
  "should_log_tail p oc = (case op_mode p of
     Silent \<Rightarrow> False | Journal \<Rightarrow> False | FailureTail \<Rightarrow> \<not> success oc | Tail \<Rightarrow> True | Debug \<Rightarrow> True)"

definition tail_level :: "output_policy \<Rightarrow> command_outcome \<Rightarrow> log_level" where
  "tail_level p oc = (case op_mode p of
     Debug \<Rightarrow> LevelDebug | Tail \<Rightarrow> (if success oc then LevelInfo else LevelWarn)
   | FailureTail \<Rightarrow> LevelWarn | Silent \<Rightarrow> LevelDebug | Journal \<Rightarrow> LevelDebug)"

definition output_log_plan :: "output_policy \<Rightarrow> command_outcome \<Rightarrow> output_report \<Rightarrow> log_level \<times> output_tails" where
  "output_log_plan p oc out = (tail_level p oc,
     if should_log_tail p oc then report_tails out p else \<lparr>ot_stdout = None, ot_stderr = None\<rparr>)"

datatype log_event =
  LogCompletion log_level string string duration output_mode output_summary
| LogRunError string command_error duration output_mode bool bool
| LogTail log_level string usize string string
| LogCapturedBytes nat nat bool bool

definition log_output_tail_if_needed ::
  "string \<Rightarrow> command_outcome \<Rightarrow> output_report \<Rightarrow> output_policy \<Rightarrow> log_event list" where
  "log_output_tail_if_needed name oc out p = (case output_log_plan p oc out of (level, tails) \<Rightarrow>
     if tails_empty tails then []
     else [LogTail level name (op_tail_lines p) (unwrap_or (ot_stdout tails) []) (unwrap_or (ot_stderr tails) [])])"

definition log_command_completion ::
  "string \<Rightarrow> execution_report \<Rightarrow> duration \<Rightarrow> output_policy \<Rightarrow> log_event list" where
  "log_command_completion name r d p =
     LogCompletion (if success (er_outcome r) then LevelInfo else LevelWarn) name
       (outcome_description (er_outcome r)) d (op_mode p) (output_summary_of (er_output r) p)
     # log_output_tail_if_needed name (er_outcome r) (er_output r) p"

definition log_command_error :: "string \<Rightarrow> command_error \<Rightarrow> duration \<Rightarrow> output_policy \<Rightarrow> log_event list" where
  "log_command_error name e d p = [LogRunError name e d (op_mode p) (op_mode p = Silent) (op_mode p = Journal)]"

definition run_named_shell_command_with_policy ::
  "shell_exec \<Rightarrow> string \<Rightarrow> string \<Rightarrow> duration \<Rightarrow> output_policy \<Rightarrow> bool \<Rightarrow> duration
     \<Rightarrow> ((command_error, command_outcome) result \<times> log_event list) option" where
  "run_named_shell_command_with_policy exec name command time_limit policy shutdown took =
     map_option (\<lambda>r. case r of
         Inl e \<Rightarrow> (Inl e, log_command_error name e took policy)
       | Inr report \<Rightarrow> (Inr (er_outcome report), log_command_completion name report took policy))
       (run_shell_command_with_policy exec command time_limit policy shutdown)"

text \<open>The executor of a configured command.\<close>

record shell_command_executor =
  ex_name :: string
  ex_command :: string
  ex_timeout :: duration
  ex_output_policy :: output_policy

definition executor_run ::
  "shell_exec \<Rightarrow> shell_command_executor \<Rightarrow> duration \<Rightarrow> ((command_error, command_outcome) result \<times> log_event list) option" where
  "executor_run exec x took =
     run_named_shell_command_with_policy exec (ex_name x) (ex_command x) (ex_timeout x) (ex_output_policy x) True took"

section \<open>Runs without a policy\<close>

fun plain_outcome :: "bool \<Rightarrow> duration \<Rightarrow> shell_run \<Rightarrow> command_outcome \<times> log_event list" where
  "plain_outcome capture t (Completed st c) = (exit_outcome st,
     if capture then [LogCapturedBytes (length (co_stdout c)) (length (co_stderr c))
       (co_stdout_truncated c) (co_stderr_truncated c)] else [])"
| "plain_outcome capture t (TimedOut c) = (outcome_timed_out t, [])"
| "plain_outcome capture t (Cancelled c) = (outcome_cancelled, [])"
| "plain_outcome capture t (OutputLimitExceeded st l c) = (outcome_limit_exceeded (unat l), [])"

definition run_shell_command_inner ::
  "shell_exec \<Rightarrow> string \<Rightarrow> bool \<Rightarrow> duration \<Rightarrow> usize \<Rightarrow> bool
     \<Rightarrow> (command_error, command_outcome \<times> log_event list) result option" where
  "run_shell_command_inner exec command capture time_limit output_max_bytes shutdown =
     map_option (\<lambda>r. case r of
         Inl e \<Rightarrow> Inl (command_error_from e)
       | Inr run \<Rightarrow> Inr (plain_outcome capture time_limit run))
       (exec (run_shell_process command capture capture time_limit
          (if capture then Some output_max_bytes else None) shutdown))"

definition run_shell_command_with_output_limit ::
  "shell_exec \<Rightarrow> string \<Rightarrow> bool \<Rightarrow> duration \<Rightarrow> usize
     \<Rightarrow> (command_error, command_outcome \<times> log_event list) result option" where
  "run_shell_command_with_output_limit exec command capture t output_max_bytes =
     run_shell_command_inner exec command capture t output_max_bytes False"

definition run_shell_command ::
  "shell_exec \<Rightarrow> string \<Rightarrow> bool \<Rightarrow> duration
     \<Rightarrow> (command_error, command_outcome \<times> log_event list) result option" where
  "run_shell_command exec command capture t =
     run_shell_command_with_output_limit exec command capture t DEFAULT_COMMAND_OUTPUT_MAX_BYTES"

definition run_shell_command_with_shutdown_and_output_limit ::
  "shell_exec \<Rightarrow> string \<Rightarrow> bool \<Rightarrow> duration \<Rightarrow> usize
     \<Rightarrow> (command_error, command_outcome \<times> log_event list) result option" where
  "run_shell_command_with_shutdown_and_output_limit exec command capture t output_max_bytes =
     run_shell_command_inner exec command capture t output_max_bytes True"

definition run_shell_command_with_shutdown ::
  "shell_exec \<Rightarrow> string \<Rightarrow> bool \<Rightarrow> duration
     \<Rightarrow> (command_error, command_outcome \<times> log_event list) result option" where
  "run_shell_command_with_shutdown exec command capture t =
     run_shell_command_with_shutdown_and_output_limit exec command capture t DEFAULT_COMMAND_OUTPUT_MAX_BYTES"

section \<open>Lemmas\<close>

lemma utf8_follow_bounds: "utf8_follow a s \<le> length s" "1 \<le> utf8_width a \<Longrightarrow> utf8_follow a s < utf8_width a"
proof -
  have t: "length (takeWhile P (take n s')) \<le> n" "length (takeWhile P (take n s')) \<le> length s'" for P n and s' :: string
    by (rule order.trans [OF length_takeWhile_le]; simp)+
  show "utf8_follow a s \<le> length s" using t(2) by (auto simp: utf8_follow_def split: list.split)
  show "utf8_follow a s < utf8_width a" if "1 \<le> utf8_width a"
    using that t(1) [of cont_byte "utf8_width a - 2"]
    by (auto simp: utf8_follow_def split: list.split) (metis Suc_pred' add_2_eq_Suc' le_add_diff_inverse2 less_Suc_eq_le not_less_eq_eq t(1))
qed

lemma lead_bytes:
  "utf8_width a = 2 \<Longrightarrow> utf8_second a = cont_byte"
  "utf8_width a = 3 \<Longrightarrow> utf8_second a b =
     (if a = CHR 0xE0 then byte_in 160 191 b else if a = CHR 0xED then byte_in 128 159 b else cont_byte b)"
  "utf8_width a = 4 \<Longrightarrow> utf8_second a b =
     (if a = CHR 0xF0 then byte_in 144 191 b else if a = CHR 0xF4 then byte_in 128 143 b else cont_byte b)"
  by (auto simp: utf8_width_def utf8_second_def byte_in_def fun_eq_iff split: if_splits)

text \<open>One scalar: the lead byte with all its continuation bytes.\<close>

lemma utf8_valid_step:
  "utf8_valid (a # s) \<longleftrightarrow> Suc (utf8_follow a s) = utf8_width a \<and> utf8_valid (drop (utf8_follow a s) s)"
proof -
  consider "byte_in 0 127 a" | "byte_in 194 223 a" | "byte_in 224 239 a" | "byte_in 240 244 a"
    | "\<not> byte_in 0 127 a" "\<not> byte_in 194 223 a" "\<not> byte_in 224 239 a" "\<not> byte_in 240 244 a" by blast
  then show ?thesis
  proof cases
    case 1
    then have "utf8_width a = 1" by (simp add: utf8_width_def)
    moreover from this have "utf8_follow a s = 0" using utf8_follow_bounds(2) [of a s] by simp
    ultimately show ?thesis using 1 by (simp add: utf8_valid.simps [of "a # s"])
  next
    case 2
    then have w: "utf8_width a = 2" "\<not> byte_in 0 127 a" by (auto simp: utf8_width_def byte_in_def)
    show ?thesis using 2 w lead_bytes(1) [OF w(1)]
      unfolding utf8_valid.simps [of "a # s"] by (cases s) (auto simp: utf8_follow_def)
  next
    case 3
    then have w: "utf8_width a = 3" "\<not> byte_in 0 127 a" "\<not> byte_in 194 223 a" by (auto simp: utf8_width_def byte_in_def)
    show ?thesis using 3 w lead_bytes(2) [OF w(1)]
      unfolding utf8_valid.simps [of "a # s"]
      by (auto simp: utf8_follow_def numeral_eq_Suc split: list.split if_splits)
  next
    case 4
    then have w: "utf8_width a = 4" "\<not> byte_in 0 127 a" "\<not> byte_in 194 223 a" "\<not> byte_in 224 239 a"
      by (auto simp: utf8_width_def byte_in_def)
    show ?thesis using 4 w lead_bytes(3) [OF w(1)]
      unfolding utf8_valid.simps [of "a # s"]
      by (auto simp: utf8_follow_def numeral_eq_Suc split: list.split if_splits)
  next
    case 5
    then show ?thesis by (simp add: utf8_valid.simps [of "a # s"] utf8_width_def)
  qed
qed

lemma utf8_valid_Nil [simp]: "utf8_valid []"
  by (simp add: utf8_valid.simps [of "[]"])

lemma utf8_valid_scalar:
  assumes "Suc (utf8_follow a s) = utf8_width a" "utf8_valid t"
  shows "utf8_valid (a # take (utf8_follow a s) s @ t)"
proof -
  let ?k = "utf8_follow a s"
  have len: "length (take ?k s) = ?k" using utf8_follow_bounds(1) by simp
  have "utf8_follow a (take ?k s @ t) = ?k"
  proof (cases s)
    case Nil
    then have k: "?k = 0" by (simp add: utf8_follow_def)
    with assms(1) have w: "utf8_width a = 1" by simp
    then show ?thesis using utf8_follow_bounds(2) [of a "take ?k s @ t"] k by simp
  next
    case (Cons b s')
    show ?thesis
    proof (cases "?k = 0")
      case True
      with assms(1) have w: "utf8_width a = 1" by simp
      then show ?thesis using utf8_follow_bounds(2) [of a "take ?k s @ t"] True by simp
    next
      case False
      let ?n = "utf8_width a - 2"
      have two: "2 \<le> utf8_width a" "utf8_second a b"
        using False Cons by (auto simp: utf8_follow_def split: if_splits)
      have k: "?k = Suc (length (takeWhile cont_byte (take ?n s')))"
        using two by (simp add: Cons utf8_follow_def)
      have n: "length (takeWhile cont_byte (take ?n s')) = ?n" using k assms(1) two by linarith
      then have "length (take ?n s') = ?n"
        by (metis length_take length_takeWhile_le min.cobounded2 order_antisym)
      moreover have "takeWhile cont_byte (take ?n s') = take ?n s'"
        using n \<open>length (take ?n s') = ?n\<close> by (metis takeWhile_eq_take take_all order_refl)
      ultimately show ?thesis using k n two by (simp add: Cons utf8_follow_def)
    qed
  qed
  with assms len show ?thesis by (simp add: utf8_valid_step)
qed

lemma REPLACEMENT_valid: "utf8_valid t \<Longrightarrow> utf8_valid (REPLACEMENT @ t)"
  by (simp add: REPLACEMENT_def utf8_valid_step [of "CHR 0xEF"] utf8_follow_def utf8_width_def
      byte_in_def utf8_second_def cont_byte_def numeral_eq_Suc)

lemma utf8_lossy_Nil [simp]: "utf8_lossy [] = []"
  by (simp add: utf8_lossy.simps [of "[]"])

lemma utf8_lossy_valid: "utf8_valid (utf8_lossy s)"
proof (induction s rule: utf8_lossy.induct)
  case (1 s)
  show ?case
  proof (cases s)
    case (Cons a s')
    have ih: "utf8_valid (utf8_lossy (drop (utf8_follow a s') s'))" using 1 [OF Cons refl] .
    show ?thesis
      using utf8_valid_scalar [OF _ ih] REPLACEMENT_valid [OF ih]
      by (simp add: Cons utf8_lossy.simps [of "a # s'"] Let_def)
  qed simp
qed

lemma utf8_lossy_id: "utf8_valid s \<Longrightarrow> utf8_lossy s = s"
proof (induction s rule: utf8_lossy.induct)
  case (1 s)
  show ?case
  proof (cases s)
    case (Cons a s')
    with 1(2) have v: "Suc (utf8_follow a s') = utf8_width a" "utf8_valid (drop (utf8_follow a s') s')"
      by (simp_all add: utf8_valid_step)
    show ?thesis using v 1(1) [OF Cons refl v(2)]
      by (simp add: Cons utf8_lossy.simps [of "a # s'"] Let_def)
  qed simp
qed

text \<open>Lines and joining.\<close>

lemma str_lines_from_no_LF: "LF \<notin> set acc \<Longrightarrow> l \<in> set (str_lines_from acc s) \<Longrightarrow> LF \<notin> set l"
proof (induction acc s rule: str_lines_from.induct)
  case (2 acc c cs)
  then show ?case
    by (auto simp: strip_cr_def split: if_splits dest: in_set_butlastD)
qed (auto split: if_splits)

lemma str_lines_no_LF: "l \<in> set (str_lines s) \<Longrightarrow> LF \<notin> set l"
  using str_lines_from_no_LF [of "[]" l s] by (simp add: str_lines_def)

lemma count_join_lf: "\<forall>l \<in> set ls. LF \<notin> set l \<Longrightarrow> count_list (join_lf ls) LF = length ls - 1"
  by (induction ls rule: join_lf.induct) (auto simp: count_list_0_iff)

definition last_lines :: "nat \<Rightarrow> string \<Rightarrow> string list" where
  "last_lines n s = rev (take n (rev (str_lines s)))"

lemma last_lines_suffix: "\<exists>front. str_lines s = front @ last_lines n s"
proof -
  have "rev (str_lines s) = take n (rev (str_lines s)) @ drop n (rev (str_lines s))" by simp
  then have "str_lines s = rev (drop n (rev (str_lines s))) @ last_lines n s"
    unfolding last_lines_def by (metis rev_append rev_rev_ident)
  then show ?thesis by blast
qed

lemma last_lines_length: "length (last_lines n s) = min n (length (str_lines s))"
  by (simp add: last_lines_def)

lemma tail_lines_spec:
  assumes "tail_lines output n = Some t"
  shows "t = join_lf (last_lines (unat n) (utf8_lossy output)) \<and> count_list t LF < unat n"
proof -
  let ?ls = "last_lines (unat n) (utf8_lossy output)"
  have t: "t = join_lf ?ls" "?ls \<noteq> []" "n \<noteq> 0"
    using assms by (auto simp: tail_lines_def last_lines_def Let_def split: if_splits)
  have "\<forall>l \<in> set ?ls. LF \<notin> set l" using last_lines_suffix [of "utf8_lossy output" "unat n"] str_lines_no_LF
    by (metis Un_iff set_append)
  then have "count_list t LF = length ?ls - 1" by (simp add: t count_join_lf)
  moreover have "length ?ls \<le> unat n" by (simp add: last_lines_length)
  moreover have "0 < length ?ls" using t(2) by simp
  ultimately show ?thesis using t(1) by linarith
qed

text \<open>What the log may learn about an output when no tail is due: its size, not its bytes.\<close>

definition same_shape :: "captured_output \<Rightarrow> captured_output \<Rightarrow> bool" where
  "same_shape c d \<longleftrightarrow> length (co_stdout c) = length (co_stdout d) \<and> length (co_stderr c) = length (co_stderr d) \<and>
     co_stdout_truncated c = co_stdout_truncated d \<and> co_stderr_truncated c = co_stderr_truncated d"

fun same_kind :: "output_report \<Rightarrow> output_report \<Rightarrow> bool" where
  "same_kind (CapturedReport c) (CapturedReport d) = same_shape c d"
| "same_kind (ExceededReport c) (ExceededReport d) = same_shape c d"
| "same_kind _ _ = False"

lemma summary_same_kind: "same_kind r q \<Longrightarrow> output_summary_of r p = output_summary_of q p"
  by (cases r; cases q) (simp_all add: same_shape_def stdout_len_def stderr_len_def)

lemma no_tail: "\<not> should_log_tail p oc \<Longrightarrow> log_output_tail_if_needed name oc out p = []"
  by (simp add: log_output_tail_if_needed_def output_log_plan_def tails_empty_def)

text \<open>A run through any shell runner.\<close>

lemma policy_run_cases:
  assumes "run_shell_command_with_policy exec command t p sd = Some (Inr r)"
  obtains run where "exec (policy_shell command t p sd) = Some (Inr run)" "r = execution_report_of t run"
  using assms unfolding run_shell_command_with_policy_def map_option_eq_Some
  by (elim exE conjE) (force split: sum.splits)

lemma report_output_of [simp]: "report_output (er_output (execution_report_of t run)) = run_output run"
  by (cases run) simp_all

lemma policy_shell_fields [simp]:
  "sc_limit (policy_shell command t p sd) = (if captures_output p then Some (op_max_bytes p) else None)"
  "sc_shutdown (policy_shell command t p sd) = sd"
  "sc_stdout (policy_shell command t p sd) = ModeCapture \<longleftrightarrow> captures_output p"
  "sc_stderr (policy_shell command t p sd) = ModeCapture \<longleftrightarrow> captures_output p"
  by (auto simp: policy_shell_def Let_def streams_to_journal_def captures_output_def)

text \<open>The classification a report promises of the run it is made of.\<close>

definition report_ok :: "duration \<Rightarrow> output_policy \<Rightarrow> bool \<Rightarrow> shell_run \<Rightarrow> execution_report \<Rightarrow> bool" where
  "report_ok t p sd run r \<longleftrightarrow> (let oc = er_outcome r; c = report_output (er_output r); limit = unat (op_max_bytes p) in
     c = run_output run \<and> captured_total c \<le> (if captures_output p then limit else 0) \<and>
     (success oc \<longleftrightarrow> (case run of Completed st out \<Rightarrow> es_code st = Some 0 | _ \<Rightarrow> False)) \<and>
     (code oc, signal oc) = (case run of Completed st out \<Rightarrow> (es_code st, es_signal st) | _ \<Rightarrow> (None, None)) \<and>
     (timed_out oc \<longleftrightarrow> (case run of TimedOut out \<Rightarrow> True | _ \<Rightarrow> False)) \<and>
     timeout oc = (if timed_out oc then Some t else None) \<and>
     (cancelled oc \<longleftrightarrow> (case run of Cancelled out \<Rightarrow> True | _ \<Rightarrow> False)) \<and> (cancelled oc \<longrightarrow> sd) \<and>
     (output_limit_exceeded oc \<longleftrightarrow> (case run of OutputLimitExceeded st l out \<Rightarrow> True | _ \<Rightarrow> False)) \<and>
     output_limit oc = (if output_limit_exceeded oc then Some limit else None) \<and>
     er_output r = (if output_limit_exceeded oc then ExceededReport c else CapturedReport c) \<and>
     (output_limit_exceeded oc \<longrightarrow> captures_output p \<and> captured_total c = limit))"

context shell_runner
begin

lemma policy_report_ok:
  assumes "run_shell_command_with_policy exec command t p sd = Some (Inr r)"
  shows "\<exists>run. exec (policy_shell command t p sd) = Some (Inr run) \<and> report_ok t p sd run r"
proof -
  obtain run where run: "exec (policy_shell command t p sd) = Some (Inr run)" "r = execution_report_of t run"
    using policy_run_cases [OF assms] .
  note k = exec_contract [OF run(1), unfolded run_contract_def policy_shell_fields]
  have "captured_total (run_output run) \<le> (if captures_output p then unat (op_max_bytes p) else 0)"
    using k by (auto simp: captured_total_def stdout_len_def stderr_len_def)
  then have "report_ok t p sd run r" using k
    by (cases run) (auto simp: run(2) report_ok_def exit_outcome_def exit_success_def outcome_timed_out_def
        outcome_cancelled_def outcome_limit_exceeded_def Let_def split: if_splits)
  with run(1) show ?thesis by blast
qed

end

section \<open>Properties\<close>

text \<open>
  C25. A report is bounded and classified by how the run ended: the supervisor's run is over with a
  result, and the report says success exactly for an exit with status 0, passes on status and
  signal of an exit and of nothing else, says timed out, cancelled or limit exceeded exactly when
  the supervisor ended the run so, each with its limit, and carries the bytes of that result: at
  most \<open>max_bytes\<close>, exactly so many when the limit was exceeded, and none when the policy does not
  capture. A cancellation needs a shutdown channel.
\<close>

theorem report_bounded_and_classified:
  assumes "run_shell_command_with_policy (shell_exec env) command t p sd = Some (Inr r)"
  shows "let cfg = policy_shell command t p sd in
    \<exists>s h run. run_machine (shell_step cfg) (shell_init cfg) (env cfg) = Some (s, h) \<and> sh_pc s = SDone (Inr run) \<and>
      report_ok t p sd run r"
  using os_shell.policy_report_ok [OF assms] by (auto simp: shell_exec_def split: option.splits prod.splits shell_pc.splits)

definition demo_policy :: output_policy where
  "demo_policy = \<lparr>op_mode = Tail, op_max_bytes = 3, op_tail_lines = 2\<rparr>"

lemma report_bounded_and_classified_witness:
  "\<exists>r. run_shell_command_with_policy (shell_exec (\<lambda>_. demo_reads)) ''cmd'' (secs 5) demo_policy True = Some (Inr r)
     \<and> timed_out (er_outcome r) = False \<and> output_limit_exceeded (er_outcome r) \<and> output_limit (er_outcome r) = Some 3"
proof -
  have cfg: "policy_shell ''cmd'' (secs 5) demo_policy True = demo_shell"
    by (simp add: policy_shell_def demo_policy_def demo_shell_def run_shell_process_def
        streams_to_journal_def captures_output_def Let_def)
  obtain s h c where "run_machine (shell_step demo_shell) (shell_init demo_shell) demo_reads = Some (s, h)"
    "sh_pc s = SDone (Inr (OutputLimitExceeded Stderr 3 c))" using demo_shell_run by blast
  then have run: "run_shell_command_with_policy (shell_exec (\<lambda>_. demo_reads)) ''cmd'' (secs 5) demo_policy True
      = Some (Inr (execution_report_of (secs 5) (OutputLimitExceeded Stderr 3 c)))"
    and over: "sh_pc s = SDone (Inr (OutputLimitExceeded Stderr 3 c))"
    and steps: "run_machine (shell_step demo_shell) (shell_init demo_shell) demo_reads = Some (s, h)"
    by (simp_all add: run_shell_command_with_policy_def cfg shell_exec_def)
  from report_bounded_and_classified [OF run, unfolded cfg Let_def] over steps have
    "report_ok (secs 5) demo_policy True (OutputLimitExceeded Stderr 3 c) (execution_report_of (secs 5) (OutputLimitExceeded Stderr 3 c))"
    by auto
  with run show ?thesis by (auto simp: report_ok_def demo_policy_def Let_def)
qed

text \<open>
  C26. The log does not leak output: for a silent or journal command always, and for a
  failure_tail command that succeeded, the log of a run depends on the sizes of its output alone,
  so two outputs of the same size leave the same log, whatever the outcome.
\<close>

theorem log_hides_output:
  assumes "op_mode p = Silent \<or> op_mode p = Journal \<or> (op_mode p = FailureTail \<and> success oc)" "same_kind out out'"
  shows "log_command_completion name \<lparr>er_outcome = oc, er_output = out\<rparr> d p =
     log_command_completion name \<lparr>er_outcome = oc, er_output = out'\<rparr> d p"
proof -
  have "\<not> should_log_tail p oc" using assms(1) by (auto simp: should_log_tail_def)
  then show ?thesis using summary_same_kind [OF assms(2), of p] no_tail by (simp add: log_command_completion_def)
qed

lemma log_hides_output_witness:
  "log_command_completion ''c'' \<lparr>er_outcome = exit_outcome \<lparr>es_code = Some 0, es_signal = None\<rparr>,
       er_output = CapturedReport \<lparr>co_stdout = ''secret'', co_stderr = [], co_stdout_truncated = False,
         co_stderr_truncated = False\<rparr>\<rparr> 5 default_policy =
   log_command_completion ''c'' \<lparr>er_outcome = exit_outcome \<lparr>es_code = Some 0, es_signal = None\<rparr>,
       er_output = CapturedReport \<lparr>co_stdout = ''public'', co_stderr = [], co_stdout_truncated = False,
         co_stderr_truncated = False\<rparr>\<rparr> 5 default_policy"
  by (rule log_hides_output)
     (simp_all add: default_policy_def exit_outcome_def exit_success_def same_shape_def)

text \<open>
  A logged tail is short and true: it is the last lines of the lossily decoded output, joined
  with line feeds, with fewer line feeds than the configured number of lines.
\<close>

lemma tail_is_last_lines:
  assumes "tail_lines output n = Some t"
  shows "t = join_lf (last_lines (unat n) (utf8_lossy output)) \<and> count_list t LF < unat n \<and>
    (\<exists>front. str_lines (utf8_lossy output) = front @ last_lines (unat n) (utf8_lossy output))"
  using tail_lines_spec [OF assms] last_lines_suffix by blast

text \<open>
  Lossy decoding is total and exact: its result is always valid UTF-8, and it changes nothing
  in a text that is valid already.
\<close>

lemma lossy_decoding_exact: "utf8_valid (utf8_lossy s) \<and> (utf8_lossy s = s \<longleftrightarrow> utf8_valid s)"
  using utf8_lossy_valid utf8_lossy_id by metis

end
