(* ===== verification/Auth_Helper.thy ===== *)
theory Auth_Helper
  imports Shell_Command Configuration_Valid
begin

text \<open>
  Credentials (\<^verbatim>\<open>src/src/auth.rs\<close>): running an auth helper as a shell command with a bounded
  captured output, turning that output into a secret, and the startup check that a helper's
  program exists. The file system, the \<^verbatim>\<open>PATH\<close> variable and the \<^verbatim>\<open>shell_words\<close> crate are the
  fields of \<open>host\<close>; the shell is any \<open>shell_runner\<close>.
\<close>

section \<open>Results\<close>

definition REAUTH_REQUIRED_EXIT_CODE :: int where "REAUTH_REQUIRED_EXIT_CODE = 78"

datatype credentials = Xoauth2Credentials secret_string | PasswordCredentials secret_string

fun debug_credentials :: "credentials \<Rightarrow> string" where
  "debug_credentials (Xoauth2Credentials t) = ''Credentials::Xoauth2 { token: [REDACTED] }''"
| "debug_credentials (PasswordCredentials p) = ''Credentials::Password { password: [REDACTED] }''"

datatype auth_error =
  HelperNotFound string
| HelperStart string
| HelperFailed string
| HelperReauthRequired
| HelperTimedOut nat
| HelperOutputTooLarge nat
| HelperOutputUtf8
| EmptySecret
| MissingAuthField string auth_method

text \<open>An asynchronous call: still running, ended by \<^verbatim>\<open>unreachable!\<close>, or returned.\<close>

datatype 'a call_result = Pending | Panicked | Returned 'a

fun call_then :: "('e, 'a) result call_result \<Rightarrow> ('a \<Rightarrow> ('e, 'b) result) \<Rightarrow> ('e, 'b) result call_result" where
  "call_then Pending f = Pending"
| "call_then Panicked f = Panicked"
| "call_then (Returned r) f = Returned (and_then r f)"

section \<open>Running a helper\<close>

fun auth_error_from :: "process_error \<Rightarrow> auth_error" where
  "auth_error_from (StartError e) = HelperStart e"
| "auth_error_from (WaitError e) = HelperStart e"
| "auth_error_from (OutputError e) = HelperStart e"

definition describe_status :: "exit_status \<Rightarrow> string" where
  "describe_status st = (case es_code st of
     Some n \<Rightarrow> ''exit status '' @ show_int n
   | None \<Rightarrow> (case es_signal st of
        Some n \<Rightarrow> ''signal '' @ show_int n
      | None \<Rightarrow> ''unknown status''))"

definition trim_trailing_crlf :: "string \<Rightarrow> string" where
  "trim_trailing_crlf s = trim_end_crlf s"

definition secret_from_output :: "exit_status \<Rightarrow> string \<Rightarrow> (auth_error, secret_string) result" where
  "secret_from_output st out =
     (if \<not> exit_success st then
        (if es_code st = Some REAUTH_REQUIRED_EXIT_CODE then Inl HelperReauthRequired
         else Inl (HelperFailed (describe_status st)))
      else if \<not> utf8_valid out then Inl HelperOutputUtf8
      else (let secret = trim_trailing_crlf out
            in if secret = [] then Inl EmptySecret else Inr (Secret secret)))"

definition helper_shell :: "string \<Rightarrow> duration \<Rightarrow> usize \<Rightarrow> shell_config" where
  "helper_shell command helper_timeout max_bytes =
     run_shell_process command True False helper_timeout (Some max_bytes) False"

definition run_secret_command ::
  "shell_exec \<Rightarrow> string \<Rightarrow> duration \<Rightarrow> usize \<Rightarrow> (auth_error, secret_string) result call_result" where
  "run_secret_command exec command helper_timeout max_bytes =
     (case exec (helper_shell command helper_timeout max_bytes) of
        None \<Rightarrow> Pending
      | Some (Inl e) \<Rightarrow> Returned (Inl (auth_error_from e))
      | Some (Inr (Completed st c)) \<Rightarrow> Returned (secret_from_output st (co_stdout c))
      | Some (Inr (TimedOut c)) \<Rightarrow> Returned (Inl (HelperTimedOut (as_secs helper_timeout)))
      | Some (Inr (Cancelled c)) \<Rightarrow> Panicked
      | Some (Inr (OutputLimitExceeded st l c)) \<Rightarrow> Returned (Inl (HelperOutputTooLarge (unat l))))"

definition credentials_for ::
  "shell_exec \<Rightarrow> account_config \<Rightarrow> duration \<Rightarrow> usize \<Rightarrow> (auth_error, credentials) result call_result" where
  "credentials_for exec a helper_timeout max_bytes =
     (let missing = Inl (MissingAuthField (ac_name a) (ac_auth a)) in case ac_auth a of
        Xoauth2Cmd \<Rightarrow> (case ac_xoauth2_cmd a of
            None \<Rightarrow> Returned missing
          | Some cmd \<Rightarrow> call_then (run_secret_command exec cmd helper_timeout max_bytes)
                         (\<lambda>token. Inr (Xoauth2Credentials token)))
      | PasswordCmd \<Rightarrow> (case ac_password_cmd a of
            None \<Rightarrow> Returned missing
          | Some cmd \<Rightarrow> call_then (run_secret_command exec cmd helper_timeout max_bytes)
                         (\<lambda>password. Inr (PasswordCredentials password)))
      | Password \<Rightarrow> (case ac_password a of
            None \<Rightarrow> Returned missing
          | Some password \<Rightarrow> Returned (Inr (PasswordCredentials password))))"

section \<open>The startup check\<close>

record host =
  h_split :: "string \<Rightarrow> string list option"
  h_path :: "string option"
  h_metadata :: "string \<Rightarrow> (bool \<times> u32) option"

definition shell_syntax_char :: "char \<Rightarrow> bool" where
  "shell_syntax_char c \<longleftrightarrow> c = CR \<or> c = LF \<or> c \<in> set ''~|&;<>()$`*?''"

definition contains_shell_syntax :: "string \<Rightarrow> bool" where
  "contains_shell_syntax command \<longleftrightarrow> list_ex shell_syntax_char command"

definition ascii_alphabetic :: "char \<Rightarrow> bool" where
  "ascii_alphabetic c \<longleftrightarrow> byte_in 65 90 c \<or> byte_in 97 122 c"

definition ascii_alphanumeric :: "char \<Rightarrow> bool" where
  "ascii_alphanumeric c \<longleftrightarrow> ascii_alphabetic c \<or> byte_in 48 57 c"

definition is_env_assignment :: "string \<Rightarrow> bool" where
  "is_env_assignment word \<longleftrightarrow> CHR ''='' \<in> set word \<and>
     (case takeWhile (\<lambda>c. c \<noteq> CHR ''='') word of
        [] \<Rightarrow> False
      | first # rest \<Rightarrow> (first = CHR ''_'' \<or> ascii_alphabetic first) \<and>
          list_all (\<lambda>c. c = CHR ''_'' \<or> ascii_alphanumeric c) rest)"

definition first_program_word :: "string list \<Rightarrow> string option" where
  "first_program_word words = find (\<lambda>w. \<not> is_env_assignment w) words"

definition shell_builtins :: "string list" where
  "shell_builtins = ['':'', ''.'', ''['', ''alias'', ''bg'', ''break'', ''cd'', ''command'', ''continue'',
     ''eval'', ''exec'', ''exit'', ''export'', ''false'', ''fg'', ''getopts'', ''hash'', ''jobs'', ''pwd'',
     ''read'', ''readonly'', ''return'', ''set'', ''shift'', ''test'', ''times'', ''trap'', ''true'',
     ''type'', ''ulimit'', ''umask'', ''unalias'', ''unset'']"

definition is_shell_builtin :: "string \<Rightarrow> bool" where
  "is_shell_builtin program \<longleftrightarrow> program \<in> set shell_builtins"

definition is_executable :: "host \<Rightarrow> string \<Rightarrow> bool" where
  "is_executable h path = (case h_metadata h path of
     None \<Rightarrow> False
   | Some (is_file, mode) \<Rightarrow> is_file \<and> Bit_Operations.and mode 73 \<noteq> 0)"

text \<open>\<^verbatim>\<open>env::split_paths\<close> splits at colons; \<^verbatim>\<open>Path::join\<close> adds a separator where one is missing.\<close>

fun split_colon :: "string \<Rightarrow> string \<Rightarrow> string list" where
  "split_colon acc [] = [acc]"
| "split_colon acc (c # cs) = (if c = CHR '':'' then acc # split_colon [] cs else split_colon (acc @ [c]) cs)"

definition path_join :: "string \<Rightarrow> string \<Rightarrow> string" where
  "path_join dir name = (if dir = [] \<or> last dir = CHR ''/'' then dir @ name else dir @ CHR ''/'' # name)"

definition find_on_path :: "host \<Rightarrow> string \<Rightarrow> string option" where
  "find_on_path h program = (case h_path h of
     None \<Rightarrow> None
   | Some path \<Rightarrow> find (is_executable h) (map (\<lambda>d. path_join d program) (split_colon [] path)))"

definition check_helper_exists_if_practical :: "host \<Rightarrow> string \<Rightarrow> (auth_error, unit) result" where
  "check_helper_exists_if_practical h command =
     (if contains_shell_syntax command then Inr ()
      else (case h_split h command of
          None \<Rightarrow> Inr ()
        | Some words \<Rightarrow> (case first_program_word words of
              None \<Rightarrow> Inr ()
            | Some program \<Rightarrow>
                if contains_shell_syntax program then Inr ()
                else if is_shell_builtin program then Inr ()
                else if CHR ''/'' \<in> set program then
                  (if is_executable h program then Inr () else Inl (HelperNotFound program))
                else if find_on_path h program \<noteq> None then Inr ()
                else Inl (HelperNotFound program))))"

definition require_field :: "account_config \<Rightarrow> string option \<Rightarrow> (auth_error, string) result" where
  "require_field a v = (case v of Some cmd \<Rightarrow> Inr cmd | None \<Rightarrow> Inl (MissingAuthField (ac_name a) (ac_auth a)))"

definition check_account_helper :: "host \<Rightarrow> account_config \<Rightarrow> (auth_error, unit) result" where
  "check_account_helper h a = (case ac_auth a of
     Xoauth2Cmd \<Rightarrow> and_then (require_field a (ac_xoauth2_cmd a)) (check_helper_exists_if_practical h)
   | PasswordCmd \<Rightarrow> and_then (require_field a (ac_password_cmd a)) (check_helper_exists_if_practical h)
   | Password \<Rightarrow> Inr ())"

fun check_source_helper :: "host \<Rightarrow> source_config \<Rightarrow> (auth_error, unit) result" where
  "check_source_helper h (GmailApiPoll s) = check_helper_exists_if_practical h (gm_token_cmd s)"
| "check_source_helper h _ = Inr ()"

definition validate_auth_helpers :: "host \<Rightarrow> config \<Rightarrow> (auth_error, unit) result" where
  "validate_auth_helpers h c = and_then (first_error (map (check_account_helper h) (accounts c)))
     (\<lambda>_. first_error (map (check_source_helper h) (sources c)))"

section \<open>Secrets\<close>

lemma ascii_follow: "\<forall>c \<in> set q. \<not> cont_byte c \<and> byte_in 0 127 c \<Longrightarrow> utf8_follow a (s @ q) = utf8_follow a s"
proof -
  assume q: "\<forall>c \<in> set q. \<not> cont_byte c \<and> byte_in 0 127 c"
  have second: "\<not> utf8_second a b" if "byte_in 0 127 b" for b
    using that by (auto simp: utf8_second_def byte_in_def cont_byte_def)
  have take: "takeWhile cont_byte (take n (s' @ q)) = takeWhile cont_byte (take n s')" for n s'
  proof -
    have "takeWhile cont_byte (take m q) = []" for m
      using q by (cases q; cases m) auto
    then show ?thesis by (auto simp: takeWhile_append) (metis takeWhile_eq_all_conv)
  qed
  show ?thesis
  proof (cases s)
    case Nil
    then show ?thesis using q second by (cases q) (auto simp: utf8_follow_def)
  next
    case (Cons b s')
    then show ?thesis by (simp add: utf8_follow_def take del: take_append)
  qed
qed

lemma utf8_valid_cut:
  "\<lbrakk>utf8_valid (p @ q); \<forall>c \<in> set q. \<not> cont_byte c \<and> byte_in 0 127 c\<rbrakk> \<Longrightarrow> utf8_valid p"
proof (induction p rule: utf8_lossy.induct)
  case (1 p)
  show ?case
  proof (cases p)
    case (Cons a s)
    have f: "utf8_follow a (s @ q) = utf8_follow a s" by (rule ascii_follow [OF 1(3)])
    have "utf8_follow a s \<le> length s" by (rule utf8_follow_bounds(1))
    with 1(2) Cons f have "Suc (utf8_follow a s) = utf8_width a" "utf8_valid (drop (utf8_follow a s) s @ q)"
      by (simp_all add: utf8_valid_step)
    with 1(1) [OF Cons refl _ 1(3)] show ?thesis by (simp add: Cons utf8_valid_step)
  qed simp
qed

lemma crlf_ascii: "is_crlf c \<Longrightarrow> \<not> cont_byte c \<and> byte_in 0 127 c"
  by (auto simp: is_crlf_def CR_def LF_def cont_byte_def byte_in_def)

lemma trim_keeps_utf8: "utf8_valid s \<Longrightarrow> utf8_valid (trim_end_crlf s)"
proof -
  assume v: "utf8_valid s"
  obtain t where "s = trim_end_crlf s @ t" "\<forall>c \<in> set t. is_crlf c" using trim_end_crlf_decomp by blast
  with v show ?thesis using utf8_valid_cut [of "trim_end_crlf s" t] crlf_ascii by simp
qed

text \<open>What a helper's secret promises.\<close>

definition secret_ok :: "usize \<Rightarrow> string \<Rightarrow> bool" where
  "secret_ok max_bytes s \<longleftrightarrow> s \<noteq> [] \<and> length s \<le> unat max_bytes \<and> utf8_valid s \<and> \<not> is_crlf (last s)"

lemma trim_length: "length (trim_end_crlf s) \<le> length s"
  using trim_end_crlf_decomp [of s] by (metis le_add1 length_append)

lemma secret_from_output_ok:
  assumes "secret_from_output st out = Inr (Secret s)" "length out \<le> unat max_bytes"
  shows "secret_ok max_bytes s \<and> exit_success st \<and> s = trim_end_crlf out"
proof -
  have "exit_success st" "utf8_valid out" "s = trim_end_crlf out" "s \<noteq> []"
    using assms(1) by (auto simp: secret_from_output_def trim_trailing_crlf_def Let_def split: if_splits)
  with assms(2) trim_keeps_utf8 trim_length [of out] trim_end_crlf_last [of out] show ?thesis
    by (auto simp: secret_ok_def)
qed

lemma helper_shell_fields [simp]:
  "sc_limit (helper_shell c t m) = Some m" "sc_shutdown (helper_shell c t m) = False"
  by (simp_all add: helper_shell_def run_shell_process_def)

context shell_runner
begin

lemma secret_command_ok: "run_secret_command exec command t m = Returned (Inr (Secret s)) \<Longrightarrow> secret_ok m s"
proof -
  assume r: "run_secret_command exec command t m = Returned (Inr (Secret s))"
  then obtain st c where e: "exec (helper_shell command t m) = Some (Inr (Completed st c))"
    and s: "secret_from_output st (co_stdout c) = Inr (Secret s)"
    by (auto simp: run_secret_command_def split: option.splits sum.splits shell_run.splits)
  have "captured_total c \<le> unat m" using exec_bounded [OF e] by simp
  then have "length (co_stdout c) \<le> unat m" by (simp add: captured_total_def stdout_len_def)
  with secret_from_output_ok [OF s] show ?thesis by blast
qed

lemma secret_command_no_panic: "run_secret_command exec command t m \<noteq> Panicked"
  using exec_cancelled [of "helper_shell command t m"]
  by (auto simp: run_secret_command_def split: option.splits sum.splits shell_run.splits)

lemma credentials_no_panic: "credentials_for exec a t m \<noteq> Panicked"
proof -
  have "call_then (run_secret_command exec cmd t m) f \<noteq> Panicked" for cmd and f :: "_ \<Rightarrow> (auth_error, credentials) result"
    using secret_command_no_panic [of cmd t m] by (cases "run_secret_command exec cmd t m") auto
  then show ?thesis
    by (auto simp: credentials_for_def Let_def split: auth_method.splits option.splits)
qed

end

lemma run_secret_not_missing: "run_secret_command exec command t m \<noteq> Returned (Inl (MissingAuthField x y))"
proof -
  have "auth_error_from e \<noteq> MissingAuthField x y" for e by (cases e) auto
  then show ?thesis
    by (auto simp: run_secret_command_def secret_from_output_def Let_def
        split: option.splits sum.splits shell_run.splits if_splits)
qed

lemma call_then_Inl:
  "call_then r (\<lambda>x. Inr (f x)) = Returned (Inl e) \<longleftrightarrow> r = Returned (Inl e)"
  by (cases r) (simp_all add: and_then_def split: sum.split)

lemma auth_ok_fields:
  "auth_ok a \<Longrightarrow> ac_auth a = Xoauth2Cmd \<Longrightarrow> \<exists>v. ac_xoauth2_cmd a = Some v"
  "auth_ok a \<Longrightarrow> ac_auth a = PasswordCmd \<Longrightarrow> \<exists>v. ac_password_cmd a = Some v"
  "auth_ok a \<Longrightarrow> ac_auth a = Password \<Longrightarrow> \<exists>v. ac_password a = Some v"
  by (auto simp: auth_ok_def)

lemma auth_ok_not_missing:
  assumes "auth_ok a"
  shows "credentials_for exec a t m \<noteq> Returned (Inl (MissingAuthField x y))"
  using auth_ok_fields [OF assms] run_secret_not_missing [of exec _ t m]
  by (cases "ac_auth a") (auto simp: credentials_for_def Let_def call_then_Inl)

lemma config_ok_auth: "config_ok c \<Longrightarrow> a \<in> set (accounts c) \<Longrightarrow> auth_ok a"
  by (auto simp: config_ok_def list_all_iff account_ok_def)

section \<open>Properties\<close>

definition demo_helper :: "shell_config \<Rightarrow> shell_input list" where
  "demo_helper cfg = [InSpawn (Inr (Some 7)) 0, InTryWait (Inr (Some \<lparr>es_code = Some 0, es_signal = None\<rparr>)) False 0,
     InPipe Stdout (PipeBytes ''tok\<newline>''), InPipe Stdout (PipeBytes []), InCollected]"

lemma demo_helper_exec:
  "shell_exec demo_helper (helper_shell ''helper'' (secs 5) 10) =
     Some (Inr (Completed \<lparr>es_code = Some 0, es_signal = None\<rparr> \<lparr>co_stdout = ''tok\<newline>'', co_stderr = [],
       co_stdout_truncated = False, co_stderr_truncated = False\<rparr>))"
  by (simp add: helper_shell_def shell_exec_def demo_helper_def shell_eval)

lemma demo_helper_run:
  "run_secret_command (shell_exec demo_helper) ''helper'' (secs 5) 10 = Returned (Inr (Secret ''tok''))"
  by (simp add: run_secret_command_def demo_helper_exec secret_from_output_def exit_success_def
      trim_trailing_crlf_def trim_end_crlf_def is_crlf_def CR_def LF_def
      utf8_valid_step utf8_follow_def utf8_width_def byte_in_def)

text \<open>
  C27. A secret obtained from a helper is clean: it is a non-empty, valid UTF-8 text of at most the
  configured number of bytes that does not end in a carriage return or line feed, whatever the
  helper printed, in whatever pieces its pipe delivered it.
\<close>

theorem helper_secret_is_clean:
  assumes "run_secret_command (shell_exec env) command t max_bytes = Returned (Inr (Secret s))"
  shows "secret_ok max_bytes s"
  by (rule os_shell.secret_command_ok [OF assms])

lemma helper_secret_is_clean_witness: "secret_ok 10 ''tok''"
  by (rule helper_secret_is_clean [OF demo_helper_run])

text \<open>
  The \<^verbatim>\<open>unreachable!\<close> in the helper code is unreachable: no run of the shell supervisor makes
  fetching credentials panic, since helpers run without a shutdown channel.
\<close>

lemma credentials_never_panic: "credentials_for (shell_exec env) a t max_bytes \<noteq> Panicked"
  by (rule os_shell.credentials_no_panic)

text \<open>
  A configuration that passed validation has the auth field its method needs: fetching the
  credentials of one of its accounts never fails with a missing field.
\<close>

lemma valid_accounts_have_auth_fields:
  assumes "validate c = Inr ()" "a \<in> set (accounts c)"
  shows "credentials_for exec a t max_bytes \<noteq> Returned (Inl (MissingAuthField x y))"
  using assms auth_ok_not_missing config_ok_auth by (metis validate_iff)

definition demo_account :: account_config where
  "demo_account = \<lparr>ac_name = ''a'', ac_host = ''h'', ac_port = None, ac_username = ''u'', ac_auth = Password,
     ac_xoauth2_cmd = None, ac_password_cmd = None, ac_password = Some (Secret ''pw''),
     ac_insecure_plaintext = False, ac_danger_accept_invalid_certs = False,
     ac_mailboxes = [\<lparr>mb_name = ''INBOX'', mb_on_notify = ''true'', mb_debounce_seconds = None\<rparr>]\<rparr>"

definition demo_config :: config where
  "demo_config = \<lparr>default_debounce_seconds = None, default_max_debounce_seconds = None,
     capture_command_output_opt = None, log_command_output_opt = None, auth_helper_timeout_seconds = None,
     auth_helper_max_output_bytes_opt = None, command_timeout_seconds = None, command_output_max_bytes_opt = None,
     command_output_tail_lines_opt = None, connect_timeout_seconds = None, imap_operation_timeout_seconds = None,
     min_command_interval_seconds = None, watcher_stale_seconds = None, idle_refresh_seconds = None,
     accounts = [demo_account], commands = [], sources = []\<rparr>"

lemma demo_config_ok: "config_ok demo_config"
proof -
  have nb: "\<not> blank (c # s)" if "\<not> ascii_ws c" "of_char c < (128::nat)" for c s
    by (rule not_blank_ascii [OF that])
  have "account_ok demo_account"
    by (simp add: demo_account_def account_ok_def auth_ok_def mailbox_ok_def no_crlf_def port_def
        DEFAULT_IMAPS_PORT_def nb ascii_ws_def Let_def CR_def LF_def)
  moreover have "globals_ok demo_config"
    by (simp add: globals_ok_def demo_config_def demo_account_def source_count_def mailbox_count_def idle_refresh_def
        config_watcher_stale_def DEFAULT_IDLE_REFRESH_SECONDS_def DEFAULT_WATCHER_STALE_SECONDS_def
        from_secs_def secs_def)
  ultimately show ?thesis
    by (simp add: config_ok_def demo_config_def demo_account_def legacy_names_def)
qed

text \<open>
  The startup check is exact: it rejects a helper command precisely when the command is plain
  words whose first word after environment assignments is no shell builtin and names no
  executable file, directly if it has a slash, in any directory of \<^verbatim>\<open>PATH\<close> otherwise.
\<close>

definition names_no_executable :: "host \<Rightarrow> string \<Rightarrow> bool" where
  "names_no_executable h program \<longleftrightarrow>
     (if CHR ''/'' \<in> set program then \<not> is_executable h program
      else (\<forall>path. h_path h = Some path \<longrightarrow>
         (\<forall>d \<in> set (split_colon [] path). \<not> is_executable h (path_join d program))))"

lemma find_on_path_None:
  "find_on_path h program = None \<longleftrightarrow>
     (\<forall>path. h_path h = Some path \<longrightarrow> (\<forall>d \<in> set (split_colon [] path). \<not> is_executable h (path_join d program)))"
  by (auto simp: find_on_path_def find_None_iff split: option.splits)

lemma helper_check_exact:
  "check_helper_exists_if_practical h command = Inl e \<longleftrightarrow>
     (\<exists>words program. \<not> contains_shell_syntax command \<and> h_split h command = Some words \<and>
        first_program_word words = Some program \<and> \<not> contains_shell_syntax program \<and>
        \<not> is_shell_builtin program \<and> names_no_executable h program \<and> e = HelperNotFound program)"
  by (auto simp: check_helper_exists_if_practical_def names_no_executable_def find_on_path_None
      split: option.splits if_splits)

end
