(* ===== verification/Imap_Protocol.thy ===== *)
theory Imap_Protocol
  imports Auth_Helper
begin

text \<open>
  The IMAP client protocol (first half of \<^verbatim>\<open>src/src/imap.rs\<close>): strings, tags and response
  lines, and the dialogue up to IDLE over a connection. A connection is the bytes the server
  will still send with what happens after them, the number of writes that still succeed with what
  happens after them, and the bytes written so far; reading from or writing to a stalled server
  blocks, which an enclosing timeout turns into an error. Base64 belongs to the \<^verbatim>\<open>base64\<close> crate and is a parameter.
\<close>

section \<open>Errors\<close>

datatype imap_error =
  ImapAuth auth_error
| ImapIo string
| ImapTls string
| ServerClosed
| AuthRejected
| CommandRejected string
| Protocol string
| OperationTimedOut string nat
| UnsafeImapString string

fun permanent_imap_failure :: "imap_error \<Rightarrow> bool" where
  "permanent_imap_failure (ImapAuth e) = True"
| "permanent_imap_failure AuthRejected = True"
| "permanent_imap_failure _ = False"

section \<open>Strings and lines\<close>

definition validate_imap_string :: "string \<Rightarrow> string \<Rightarrow> (imap_error, unit) result" where
  "validate_imap_string field value = (if list_ex is_crlf value then Inl (UnsafeImapString field) else Inr ())"

definition quote_char :: "char \<Rightarrow> string" where
  "quote_char c = (if c = CHR 0x5C then [CHR 0x5C, CHR 0x5C]
     else if c = CHR 0x22 then [CHR 0x5C, CHR 0x22] else [c])"

definition quote_imap :: "string \<Rightarrow> string" where
  "quote_imap value = CHR 0x22 # concat (map quote_char value) @ [CHR 0x22]"

definition xoauth2_response :: "(string \<Rightarrow> string) \<Rightarrow> string \<Rightarrow> string \<Rightarrow> string" where
  "xoauth2_response base64 username token = base64 (''user='' @ username @ [CHR 0x01] @ ''auth=Bearer '' @
     token @ [CHR 0x01, CHR 0x01])"

definition trim_line :: "string \<Rightarrow> string" where
  "trim_line line = trim_end_crlf line"

text \<open>\<^verbatim>\<open>line.strip_prefix(tag)?.strip_prefix(' ')\<close>\<close>

definition tagged_rest :: "string \<Rightarrow> string \<Rightarrow> string option" where
  "tagged_rest line tag = Option.bind (strip_prefix tag line) (strip_prefix '' '')"

definition is_tagged_completion :: "string \<Rightarrow> string \<Rightarrow> bool" where
  "is_tagged_completion line tag \<longleftrightarrow> tagged_rest line tag \<noteq> None"

text \<open>\<^verbatim>\<open>split_whitespace().next()\<close>: the first word, on Unicode white space.\<close>

function first_word_from :: "string \<Rightarrow> string \<Rightarrow> string" where
  "first_word_from acc s = (case s of
     [] \<Rightarrow> acc
   | c # cs \<Rightarrow> if strip_ws_char s \<noteq> None then acc else first_word_from (acc @ [c]) cs)"
  by pat_completeness auto
termination
  by (relation "measure (\<lambda>(acc, s). length s)") auto

declare first_word_from.simps [simp del]

definition first_word :: "string \<Rightarrow> string option" where
  "first_word s = (let t = trim_start s in if t = [] then None else Some (first_word_from [] t))"

definition is_tagged_ok :: "string \<Rightarrow> string \<Rightarrow> bool" where
  "is_tagged_ok line tag = (case tagged_rest line tag of
     None \<Rightarrow> False
   | Some rest \<Rightarrow> (case first_word rest of
        None \<Rightarrow> False
      | Some status \<Rightarrow> to_ascii_uppercase status = ''OK''))"

definition is_mailbox_change :: "string \<Rightarrow> bool" where
  "is_mailbox_change line = (let upper = to_ascii_uppercase line in
     starts_with ''* '' upper \<and>
     (contains_sub '' EXISTS'' upper \<or> contains_sub '' EXPUNGE'' upper \<or> contains_sub '' RECENT'' upper
      \<or> contains_sub '' FETCH'' upper \<or> contains_sub '' VANISHED'' upper))"

datatype idle_response = IdleCompleted | IdleMailboxChange | IdleOther

definition classify_idle_response :: "string \<Rightarrow> string \<Rightarrow> (imap_error, idle_response) result" where
  "classify_idle_response line tag =
     (if starts_with ''* BYE'' (to_ascii_uppercase line) then Inl ServerClosed
      else if is_tagged_ok line tag then Inr IdleCompleted
      else if is_tagged_completion line tag then Inl (CommandRejected ''IDLE'')
      else if is_mailbox_change line then Inr IdleMailboxChange
      else Inr IdleOther)"

text \<open>\<^verbatim>\<open>Tags::next\<close>; the addition overflows after \<open>2 ^ 64\<close> commands, which panics in a build with
  overflow checks, the one modelled.\<close>

definition tag_text :: "nat \<Rightarrow> string" where
  "tag_text n = CHR ''A'' # pad_left 4 CHR ''0'' (show_nat n)"

definition next_tag :: "nat \<Rightarrow> (string \<times> nat) option" where
  "next_tag n = (if Suc n < 2 ^ 64 then Some (tag_text (Suc n), Suc n) else None)"

section \<open>The connection\<close>

datatype peer_end = PeerCloses | PeerStalls | PeerFails string

datatype write_end = WriteFails string | WriteStalls

record conn =
  cn_in :: string
  cn_end :: peer_end
  cn_writes :: nat
  cn_write_end :: write_end
  cn_out :: "string list"
  cn_tag :: nat

datatype 'a io_result = Blocked | PanickedIo | Raised imap_error | Value 'a

type_synonym 'a io = "conn \<Rightarrow> 'a io_result \<times> conn"

definition io_return :: "'a \<Rightarrow> 'a io" where
  "io_return x c = (Value x, c)"

definition io_raise :: "imap_error \<Rightarrow> 'a io" where
  "io_raise e c = (Raised e, c)"

definition io_bind :: "'a io \<Rightarrow> ('a \<Rightarrow> 'b io) \<Rightarrow> 'b io" where
  "io_bind m f c = (case m c of
     (Value x, c') \<Rightarrow> f x c'
   | (Raised e, c') \<Rightarrow> (Raised e, c')
   | (Blocked, c') \<Rightarrow> (Blocked, c')
   | (PanickedIo, c') \<Rightarrow> (PanickedIo, c'))"

definition io_of_result :: "(imap_error, 'a) result \<Rightarrow> 'a io" where
  "io_of_result r = (case r of Inl e \<Rightarrow> io_raise e | Inr x \<Rightarrow> io_return x)"

definition MAX_RESPONSE_LINE_BYTES :: nat where "MAX_RESPONSE_LINE_BYTES = 65536"

text \<open>The bytes up to and including the first line feed.\<close>

fun line_chunk :: "string \<Rightarrow> string" where
  "line_chunk [] = []"
| "line_chunk (c # cs) = (if c = LF then [c] else c # line_chunk cs)"

text \<open>
  \<^verbatim>\<open>reader.take(MAX + 1).read_line(..)\<close>: a line, or the first \<open>MAX + 1\<close> bytes of a longer one,
  or what is left before the end of the stream.
\<close>

definition line_result :: "string \<Rightarrow> string io_result" where
  "line_result chunk =
     (if \<not> utf8_valid chunk then Raised (ImapIo ''stream did not contain valid UTF-8'')
      else if chunk = [] then Raised ServerClosed
      else if MAX_RESPONSE_LINE_BYTES < length chunk
        then Raised (Protocol ''reading oversized IMAP response line'')
      else Value (trim_line chunk))"

definition read_line :: "string io" where
  "read_line c =
     (let chunk = line_chunk (take (MAX_RESPONSE_LINE_BYTES + 1) (cn_in c));
          c' = c\<lparr>cn_in := drop (length chunk) (cn_in c)\<rparr>
      in if LF \<in> set chunk \<or> MAX_RESPONSE_LINE_BYTES < length chunk then (line_result chunk, c')
         else (case cn_end c of
             PeerStalls \<Rightarrow> (Blocked, c')
           | PeerFails e \<Rightarrow> (Raised (ImapIo e), c')
           | PeerCloses \<Rightarrow> (line_result chunk, c')))"

text \<open>What happens to a write after the last one that succeeds.\<close>

definition write_stops :: "conn \<Rightarrow> unit io_result" where
  "write_stops c = (case cn_write_end c of WriteFails e \<Rightarrow> Raised (ImapIo e) | WriteStalls \<Rightarrow> Blocked)"

lemma write_stops_value [simp]: "write_stops c \<noteq> Value u"
  by (simp add: write_stops_def split: write_end.split)

definition write_raw :: "string \<Rightarrow> unit io" where
  "write_raw bytes c = (case cn_writes c of
     0 \<Rightarrow> (write_stops c, c)
   | Suc n \<Rightarrow> (Value (), c\<lparr>cn_writes := n, cn_out := cn_out c @ [bytes]\<rparr>))"

definition take_tag :: "string io" where
  "take_tag c = (case next_tag (cn_tag c) of
     None \<Rightarrow> (PanickedIo, c)
   | Some (tag, n) \<Rightarrow> (Value tag, c\<lparr>cn_tag := n\<rparr>))"

definition with_imap_timeout :: "duration \<Rightarrow> string \<Rightarrow> 'a io \<Rightarrow> 'a io" where
  "with_imap_timeout d operation m c = (case m c of
     (Blocked, c') \<Rightarrow> (Raised (OperationTimedOut operation (as_secs d)), c')
   | r \<Rightarrow> r)"

lemma read_line_shrinks: "read_line c = (Value line, c') \<Longrightarrow> length (cn_in c') < length (cn_in c)"
proof -
  assume r: "read_line c = (Value line, c')"
  let ?chunk = "line_chunk (take (MAX_RESPONSE_LINE_BYTES + 1) (cn_in c))"
  have ne: "?chunk \<noteq> []" "c' = c\<lparr>cn_in := drop (length ?chunk) (cn_in c)\<rparr>"
    using r by (auto simp: read_line_def line_result_def Let_def split: if_splits peer_end.splits)
  then have "cn_in c \<noteq> []" by auto
  with ne show ?thesis by (cases ?chunk) auto
qed

section \<open>Waiting for responses\<close>

function wait_tagged :: "string \<Rightarrow> string \<Rightarrow> unit io" where
  "wait_tagged tag command c = (case read_line c of
     (Value line, c') \<Rightarrow>
       if is_tagged_ok line tag then (Value (), c')
       else if is_tagged_completion line tag then (Raised (CommandRejected command), c')
       else wait_tagged tag command c'
   | (Raised e, c') \<Rightarrow> (Raised e, c')
   | (Blocked, c') \<Rightarrow> (Blocked, c')
   | (PanickedIo, c') \<Rightarrow> (PanickedIo, c'))"
  by pat_completeness auto
termination
  by (relation "measure (\<lambda>(tag, command, c). length (cn_in c))") (auto dest: read_line_shrinks [OF sym])

function wait_idle_continuation :: "string \<Rightarrow> unit io" where
  "wait_idle_continuation tag c = (case read_line c of
     (Value line, c') \<Rightarrow>
       if starts_with ''+'' line then (Value (), c')
       else if is_tagged_completion line tag then (Raised (CommandRejected ''IDLE''), c')
       else wait_idle_continuation tag c'
   | (Raised e, c') \<Rightarrow> (Raised e, c')
   | (Blocked, c') \<Rightarrow> (Blocked, c')
   | (PanickedIo, c') \<Rightarrow> (PanickedIo, c'))"
  by pat_completeness auto
termination
  by (relation "measure (\<lambda>(tag, c). length (cn_in c))") (auto dest: read_line_shrinks [OF sym])

text \<open>\<open>wait_idle_completion\<close> returns how often its callback was called.\<close>

function wait_idle_completion :: "string \<Rightarrow> bool \<Rightarrow> conn \<Rightarrow> nat \<times> unit io_result \<times> conn" where
  "wait_idle_completion tag event_queued c = (case read_line c of
     (Value line, c') \<Rightarrow>
       (case classify_idle_response line tag of
          Inl e \<Rightarrow> (0, Raised e, c')
        | Inr IdleCompleted \<Rightarrow> (0, Value (), c')
        | Inr IdleMailboxChange \<Rightarrow>
            (case wait_idle_completion tag True c' of (n, r) \<Rightarrow> (if event_queued then n else Suc n, r))
        | Inr IdleOther \<Rightarrow> wait_idle_completion tag event_queued c')
   | (Raised e, c') \<Rightarrow> (0, Raised e, c')
   | (Blocked, c') \<Rightarrow> (0, Blocked, c')
   | (PanickedIo, c') \<Rightarrow> (0, PanickedIo, c'))"
  by pat_completeness auto
termination
  by (relation "measure (\<lambda>(tag, q, c). length (cn_in c))") (auto dest: read_line_shrinks [OF sym])

declare wait_tagged.simps [simp del] wait_idle_continuation.simps [simp del] wait_idle_completion.simps [simp del]

section \<open>The dialogue\<close>

definition read_greeting :: "unit io" where
  "read_greeting = io_bind read_line (\<lambda>line.
     if starts_with ''* OK'' (to_ascii_uppercase line) then io_return ()
     else if starts_with ''* PREAUTH'' (to_ascii_uppercase line) then io_return ()
     else io_raise (Protocol ''reading server greeting''))"

definition crlf :: string where "crlf = [CR, LF]"

text \<open>The two loops of \<open>authenticate_xoauth2\<close>: until the continuation, then until the completion.\<close>

function xoauth2_challenge :: "string \<Rightarrow> unit io" where
  "xoauth2_challenge tag c = (case read_line c of
     (Value line, c') \<Rightarrow>
       if starts_with ''+'' line then (Value (), c')
       else if is_tagged_completion line tag then (Raised AuthRejected, c')
       else xoauth2_challenge tag c'
   | (Raised e, c') \<Rightarrow> (Raised e, c')
   | (Blocked, c') \<Rightarrow> (Blocked, c')
   | (PanickedIo, c') \<Rightarrow> (PanickedIo, c'))"
  by pat_completeness auto
termination
  by (relation "measure (\<lambda>(tag, c). length (cn_in c))") (auto dest: read_line_shrinks [OF sym])

function xoauth2_completion :: "string \<Rightarrow> unit io" where
  "xoauth2_completion tag c = (case read_line c of
     (Value line, c') \<Rightarrow>
       if starts_with ''+'' line then
         (case cn_writes c' of
            0 \<Rightarrow> (write_stops c', c')
          | Suc n \<Rightarrow> xoauth2_completion tag (c'\<lparr>cn_writes := n, cn_out := cn_out c' @ [crlf]\<rparr>))
       else if is_tagged_ok line tag then (Value (), c')
       else if is_tagged_completion line tag then (Raised AuthRejected, c')
       else xoauth2_completion tag c'
   | (Raised e, c') \<Rightarrow> (Raised e, c')
   | (Blocked, c') \<Rightarrow> (Blocked, c')
   | (PanickedIo, c') \<Rightarrow> (PanickedIo, c'))"
  by pat_completeness auto
termination
  by (relation "measure (\<lambda>(tag, c). length (cn_in c))") (auto dest: read_line_shrinks [OF sym])

declare xoauth2_challenge.simps [simp del] xoauth2_completion.simps [simp del]

definition authenticate_xoauth2 :: "(string \<Rightarrow> string) \<Rightarrow> string \<Rightarrow> secret_string \<Rightarrow> unit io" where
  "authenticate_xoauth2 base64 username token =
     io_bind take_tag (\<lambda>tag.
     io_bind (write_raw (tag @ '' AUTHENTICATE XOAUTH2'' @ crlf)) (\<lambda>_.
     io_bind (xoauth2_challenge tag) (\<lambda>_.
     io_bind (write_raw (xoauth2_response base64 username (expose_secret token))) (\<lambda>_.
     io_bind (write_raw crlf) (\<lambda>_.
     xoauth2_completion tag)))))"

definition login_rejected :: "unit io \<Rightarrow> unit io" where
  "login_rejected m c = (case m c of
     (Raised (CommandRejected command), c') \<Rightarrow> (Raised AuthRejected, c')
   | r \<Rightarrow> r)"

definition login_command :: "string \<Rightarrow> string \<Rightarrow> string \<Rightarrow> string" where
  "login_command tag username password =
     tag @ '' LOGIN '' @ quote_imap username @ '' '' @ quote_imap password @ crlf"

definition authenticate_password :: "string \<Rightarrow> secret_string \<Rightarrow> unit io" where
  "authenticate_password username password =
     io_bind (io_of_result (validate_imap_string ''username'' username)) (\<lambda>_.
     io_bind (io_of_result (validate_imap_string ''password'' (expose_secret password))) (\<lambda>_.
     io_bind take_tag (\<lambda>tag.
     io_bind (write_raw (login_command tag username (expose_secret password))) (\<lambda>_.
     login_rejected (wait_tagged tag ''LOGIN'')))))"

fun authenticate :: "(string \<Rightarrow> string) \<Rightarrow> string \<Rightarrow> credentials \<Rightarrow> unit io" where
  "authenticate base64 username (Xoauth2Credentials token) = authenticate_xoauth2 base64 username token"
| "authenticate base64 username (PasswordCredentials password) = authenticate_password username password"

definition examine_mailbox :: "string \<Rightarrow> unit io" where
  "examine_mailbox mailbox =
     io_bind (io_of_result (validate_imap_string ''mailbox name'' mailbox)) (\<lambda>_.
     io_bind take_tag (\<lambda>tag.
     io_bind (write_raw (tag @ '' EXAMINE '' @ quote_imap mailbox @ crlf)) (\<lambda>_.
     wait_tagged tag ''EXAMINE'')))"

definition finish_idle :: "duration \<Rightarrow> string \<Rightarrow> conn \<Rightarrow> nat \<times> unit io_result \<times> conn" where
  "finish_idle operation_timeout tag c =
     (case with_imap_timeout operation_timeout ''IDLE DONE'' (write_raw (''DONE'' @ crlf)) c of
        (Value _, c1) \<Rightarrow> (case wait_idle_completion tag False c1 of
            (n, Blocked, c2) \<Rightarrow>
              (n, Raised (OperationTimedOut ''IDLE tagged response'' (as_secs operation_timeout)), c2)
          | r \<Rightarrow> r)
      | (Raised e, c1) \<Rightarrow> (0, Raised e, c1)
      | (Blocked, c1) \<Rightarrow> (0, Blocked, c1)
      | (PanickedIo, c1) \<Rightarrow> (0, PanickedIo, c1))"

section \<open>Quoted strings\<close>

text \<open>The receiver's side of a quoted string (RFC 3501): the text and what follows it.\<close>

fun parse_quoted_from :: "string \<Rightarrow> string \<Rightarrow> (string \<times> string) option" where
  "parse_quoted_from acc [] = None"
| "parse_quoted_from acc (c # cs) =
     (if c = CHR 0x22 then Some (acc, cs)
      else if is_crlf c then None
      else if c = CHR 0x5C then
        (case cs of
           [] \<Rightarrow> None
         | d # ds \<Rightarrow> if d = CHR 0x22 \<or> d = CHR 0x5C then parse_quoted_from (acc @ [d]) ds else None)
      else parse_quoted_from (acc @ [c]) cs)"

definition parse_quoted :: "string \<Rightarrow> (string \<times> string) option" where
  "parse_quoted s = (case s of
     [] \<Rightarrow> None | c # cs \<Rightarrow> if c = CHR 0x22 then parse_quoted_from [] cs else None)"

lemma is_crlf_iff: "is_crlf c \<longleftrightarrow> c = CR \<or> c = LF"
  by (simp add: is_crlf_def)

lemma no_crlf_iff: "no_crlf s \<longleftrightarrow> (\<forall>c \<in> set s. \<not> is_crlf c)"
  by (auto simp: no_crlf_def is_crlf_def)

lemma no_crlf_append [simp]: "no_crlf (a @ b) \<longleftrightarrow> no_crlf a \<and> no_crlf b"
  by (auto simp: no_crlf_def)

lemma no_crlf_Cons [simp]: "no_crlf (c # s) \<longleftrightarrow> \<not> is_crlf c \<and> no_crlf s"
  by (auto simp: no_crlf_def is_crlf_def)

lemma no_crlf_Nil [simp]: "no_crlf []"
  by (simp add: no_crlf_def)

lemma special_not_crlf [simp]: "\<not> is_crlf CHR 0x22" "\<not> is_crlf CHR 0x5C" "\<not> is_crlf CHR '' ''"
  by (simp_all add: is_crlf_def CR_def LF_def)

lemma parse_quoted_from_quote:
  "no_crlf s \<Longrightarrow> parse_quoted_from acc (concat (map quote_char s) @ CHR 0x22 # rest) = Some (acc @ s, rest)"
proof (induction s arbitrary: acc)
  case (Cons c s)
  then show ?case by (cases "c = CHR 0x22"; cases "c = CHR 0x5C") (auto simp: quote_char_def)
qed simp

lemma parse_quoted_quote: "no_crlf s \<Longrightarrow> parse_quoted (quote_imap s @ rest) = Some (s, rest)"
  using parse_quoted_from_quote [of s "[]" rest] by (simp add: parse_quoted_def quote_imap_def)

lemma quote_no_crlf: "no_crlf s \<Longrightarrow> no_crlf (quote_imap s)"
  by (induction s) (auto simp: quote_imap_def quote_char_def)

lemma validate_string_Inr [simp]: "validate_imap_string field s = Inr u \<longleftrightarrow> no_crlf s"
  by (simp add: validate_imap_string_def)

section \<open>Tags\<close>

lemma pad_left_digits: "\<forall>c \<in> set s. 48 \<le> (of_char c :: nat) \<and> (of_char c :: nat) \<le> 57
    \<Longrightarrow> \<forall>c \<in> set (pad_left w CHR ''0'' s). 48 \<le> (of_char c :: nat) \<and> (of_char c :: nat) \<le> 57"
  by (auto simp: pad_left_def)

lemma tag_text_chars: "\<forall>c \<in> set (tag_text n). \<not> is_crlf c \<and> c \<noteq> CHR '' ''"
proof -
  have "48 \<le> (of_char c :: nat)" if "c \<in> set (pad_left 4 CHR ''0'' (show_nat n))" for c
    using pad_left_digits [OF show_nat_digits] that by blast
  then show ?thesis by (fastforce simp: tag_text_def is_crlf_def CR_def LF_def)
qed

lemma parse_digits_zeros: "0 < b \<Longrightarrow> parse_digits b 0 (replicate k CHR ''0'' @ s) = parse_digits b 0 s"
proof (induction k)
  case (Suc k)
  have "digit_val CHR ''0'' = Some 0" by (simp add: digit_val_def)
  with Suc show ?case by simp
qed simp

lemma parse_padded: "n < b \<Longrightarrow> parse_digits b 0 (pad_left w CHR ''0'' (show_nat n)) = Some n"
  unfolding pad_left_def by (subst parse_digits_zeros) (simp, rule parse_digits_show)

lemma tag_text_inj [simp]: "tag_text m = tag_text n \<longleftrightarrow> m = n"
proof
  assume "tag_text m = tag_text n"
  then have eq: "pad_left 4 CHR ''0'' (show_nat m) = pad_left 4 CHR ''0'' (show_nat n)"
    unfolding tag_text_def by blast
  have "m < Suc (m + n)" "n < Suc (m + n)" by simp_all
  from parse_padded [OF this(1), of 4] parse_padded [OF this(2), of 4] eq
  show "m = n" by (metis option.inject)
qed simp

section \<open>What the client writes\<close>

text \<open>
  A rule for each construct, in the style of a program logic: \<open>writes P m\<close> says that \<open>m\<close> only
  appends chunks that satisfy \<open>P\<close> to the connection's output, whatever the server does.
\<close>

definition writes :: "(string \<Rightarrow> bool) \<Rightarrow> 'a io \<Rightarrow> bool" where
  "writes P m \<longleftrightarrow> (\<forall>c. \<exists>ws. cn_out (snd (m c)) = cn_out c @ ws \<and> list_all P ws)"

named_theorems writes_rules \<open>the write rules of the dialogue's constructs\<close>

lemma writes_silent: "(\<And>c. cn_out (snd (m c)) = cn_out c) \<Longrightarrow> writes P m"
  by (auto simp: writes_def)

lemma writes_return [writes_rules]: "writes P (io_return x)" "writes P (io_raise e)" "writes P take_tag"
  by (auto intro!: writes_silent simp: io_return_def io_raise_def take_tag_def split: option.split)

lemma writes_result [writes_rules]: "writes P (io_of_result r)"
  by (cases r) (simp_all add: io_of_result_def writes_return)

lemma read_line_out [simp]: "cn_out (snd (read_line c)) = cn_out c"
  by (auto simp: read_line_def Let_def split: peer_end.split)

lemma writes_read_line [writes_rules]: "writes P read_line"
  by (rule writes_silent) simp

lemma writes_write_raw: "P bytes \<Longrightarrow> writes P (write_raw bytes)"
  by (auto simp: writes_def write_raw_def split: nat.split)

lemma writes_bind [writes_rules]:
  assumes m: "writes P m" and f: "\<And>x. writes P (f x)"
  shows "writes P (io_bind m f)"
proof (unfold writes_def, rule allI)
  fix c
  obtain ws1 where w1: "cn_out (snd (m c)) = cn_out c @ ws1" "list_all P ws1"
    using m by (auto simp: writes_def)
  show "\<exists>ws. cn_out (snd (io_bind m f c)) = cn_out c @ ws \<and> list_all P ws"
  proof (cases "m c")
    case (Pair r c1)
    then have c1: "cn_out c1 = cn_out c @ ws1" using w1 by simp
    show ?thesis
    proof (cases r)
      case (Value x)
      obtain ws2 where "cn_out (snd (f x c1)) = cn_out c1 @ ws2" "list_all P ws2"
        using f [of x] by (auto simp: writes_def)
      with c1 w1 Pair Value show ?thesis by (auto simp: io_bind_def intro: exI [of _ "ws1 @ ws2"])
    qed (use c1 w1 Pair in \<open>auto simp: io_bind_def\<close>)
  qed
qed

lemma writes_bind_tag:
  assumes "\<And>n. writes P (f (tag_text n))"
  shows "writes P (io_bind take_tag f)"
proof (unfold writes_def, rule allI)
  fix c
  show "\<exists>ws. cn_out (snd (io_bind take_tag f c)) = cn_out c @ ws \<and> list_all P ws"
    using assms [unfolded writes_def, rule_format, of "Suc (cn_tag c)" "c\<lparr>cn_tag := Suc (cn_tag c)\<rparr>"]
    by (auto simp: io_bind_def take_tag_def next_tag_def)
qed

lemma writes_bind_result:
  assumes "\<And>x. r = Inr x \<Longrightarrow> writes P (f x)"
  shows "writes P (io_bind (io_of_result r) f)"
proof (cases r)
  case (Inl e)
  then show ?thesis
    by (intro writes_silent) (simp add: io_bind_def io_of_result_def io_raise_def)
next
  case (Inr x)
  have "io_bind (io_of_result r) f = f x"
    by (rule ext) (simp add: Inr io_bind_def io_of_result_def io_return_def)
  with assms [OF Inr] show ?thesis by simp
qed

lemma wait_tagged_out [simp]: "cn_out (snd (wait_tagged tag command c)) = cn_out c"
proof (induction tag command c rule: wait_tagged.induct)
  case (1 tag command c)
  show ?case
  proof (cases "read_line c")
    case (Pair r c')
    have "cn_out c' = cn_out c" using read_line_out [of c] Pair by simp
    with Pair 1 show ?thesis by (cases r) (simp_all add: wait_tagged.simps [of tag command c])
  qed
qed

lemma xoauth2_challenge_out [simp]: "cn_out (snd (xoauth2_challenge tag c)) = cn_out c"
proof (induction tag c rule: xoauth2_challenge.induct)
  case (1 tag c)
  show ?case
  proof (cases "read_line c")
    case (Pair r c')
    have "cn_out c' = cn_out c" using read_line_out [of c] Pair by simp
    with Pair 1 show ?thesis by (cases r) (simp_all add: xoauth2_challenge.simps [of tag c])
  qed
qed

lemma xoauth2_completion_writes:
  assumes "P crlf"
  shows "\<exists>ws. cn_out (snd (xoauth2_completion tag c)) = cn_out c @ ws \<and> list_all P ws"
proof (induction tag c rule: xoauth2_completion.induct)
  case (1 tag c)
  show ?case
  proof (cases "read_line c")
    case (Pair r c')
    have out: "cn_out c' = cn_out c" using read_line_out [of c] Pair by simp
    show ?thesis
    proof (cases r)
      case (Value line)
      show ?thesis
      proof (cases "starts_with ''+'' line")
        case True
        show ?thesis
        proof (cases "cn_writes c'")
          case 0
          with True Value Pair out show ?thesis by (simp add: xoauth2_completion.simps [of tag c])
        next
          case (Suc n)
          from 1(1) [OF Pair [symmetric] Value True Suc] obtain ws where
            "cn_out (snd (xoauth2_completion tag (c'\<lparr>cn_writes := n, cn_out := cn_out c' @ [crlf]\<rparr>))) =
               cn_out c' @ [crlf] @ ws" "list_all P ws" by auto
          with True Suc Value Pair out assms show ?thesis
            by (intro exI [of _ "crlf # ws"]) (simp add: xoauth2_completion.simps [of tag c])
        qed
      next
        case False
        with 1(2) [OF Pair [symmetric] Value False] Value Pair out show ?thesis
          by (auto simp: xoauth2_completion.simps [of tag c])
      qed
    qed (use Pair out in \<open>auto simp: xoauth2_completion.simps [of tag c]\<close>)
  qed
qed

lemma writes_waits [writes_rules]:
  "writes P (wait_tagged tag command)" "writes P (xoauth2_challenge tag)"
  by (rule writes_silent; simp)+

lemma writes_completion: "P crlf \<Longrightarrow> writes P (xoauth2_completion tag)"
  by (simp add: writes_def xoauth2_completion_writes)

lemma writes_timeout:
  assumes "writes P m"
  shows "writes P (with_imap_timeout d operation m)"
proof -
  have "snd (with_imap_timeout d operation m c) = snd (m c)" for c
    by (auto simp: with_imap_timeout_def split: prod.split io_result.split)
  with assms show ?thesis by (simp add: writes_def)
qed

lemma writes_login:
  assumes "writes P m"
  shows "writes P (login_rejected m)"
proof -
  have "snd (login_rejected m c) = snd (m c)" for c
    by (auto simp: login_rejected_def split: prod.split io_result.split imap_error.split)
  with assms show ?thesis by (simp add: writes_def)
qed

section \<open>Safe writes\<close>

text \<open>One protocol line, a line ending, or text without a line ending.\<close>

definition safe_chunk :: "string \<Rightarrow> bool" where
  "safe_chunk w \<longleftrightarrow> no_crlf w \<or> (\<exists>l. w = l @ crlf \<and> no_crlf l)"

lemma safe_line: "w = l @ crlf \<Longrightarrow> no_crlf l \<Longrightarrow> safe_chunk w"
  by (auto simp: safe_chunk_def)

lemma safe_crlf: "safe_chunk crlf"
  by (rule safe_line [of _ "[]"]) simp_all

lemma tag_text_no_crlf [simp]: "no_crlf (tag_text n)"
  using tag_text_chars by (auto simp: no_crlf_iff)

lemmas literal_no_crlf = is_crlf_def CR_def LF_def

lemma command_chunks:
  "safe_chunk (tag_text n @ '' AUTHENTICATE XOAUTH2'' @ crlf)"
  "safe_chunk (tag_text n @ '' IDLE'' @ crlf)" "safe_chunk (''DONE'' @ crlf)"
  "no_crlf mailbox \<Longrightarrow> safe_chunk (tag_text n @ '' EXAMINE '' @ quote_imap mailbox @ crlf)"
  "no_crlf username \<Longrightarrow> no_crlf password \<Longrightarrow> safe_chunk (login_command (tag_text n) username password)"
proof -
  show "safe_chunk (tag_text n @ '' AUTHENTICATE XOAUTH2'' @ crlf)"
    by (rule safe_line [of _ "tag_text n @ '' AUTHENTICATE XOAUTH2''"]) (simp_all add: literal_no_crlf)
  show "safe_chunk (tag_text n @ '' IDLE'' @ crlf)"
    by (rule safe_line [of _ "tag_text n @ '' IDLE''"]) (simp_all add: literal_no_crlf)
  show "safe_chunk (''DONE'' @ crlf)"
    by (rule safe_line [of _ "''DONE''"]) (simp_all add: literal_no_crlf)
  show "no_crlf mailbox \<Longrightarrow> safe_chunk (tag_text n @ '' EXAMINE '' @ quote_imap mailbox @ crlf)"
    by (rule safe_line [of _ "tag_text n @ '' EXAMINE '' @ quote_imap mailbox"])
       (simp_all add: quote_no_crlf literal_no_crlf)
  show "no_crlf username \<Longrightarrow> no_crlf password \<Longrightarrow> safe_chunk (login_command (tag_text n) username password)"
    by (rule safe_line [of _ "tag_text n @ '' LOGIN '' @ quote_imap username @ '' '' @ quote_imap password"])
       (simp_all add: login_command_def quote_no_crlf literal_no_crlf)
qed

lemma writes_password: "writes safe_chunk (authenticate_password username password)"
  unfolding authenticate_password_def
  by (intro writes_bind_result writes_bind_tag writes_bind writes_login writes_write_raw writes_waits command_chunks)
     simp_all

lemma writes_examine: "writes safe_chunk (examine_mailbox mailbox)"
  unfolding examine_mailbox_def
  by (intro writes_bind_result writes_bind_tag writes_bind writes_write_raw writes_waits command_chunks)
     simp_all

lemma writes_xoauth2:
  assumes "\<And>t. no_crlf (base64 t)"
  shows "writes safe_chunk (authenticate_xoauth2 base64 username token)"
proof -
  have "safe_chunk (xoauth2_response base64 username t)" for t
    using assms by (simp add: xoauth2_response_def safe_chunk_def)
  then show ?thesis unfolding authenticate_xoauth2_def
    by (intro writes_bind_tag writes_bind writes_write_raw writes_waits writes_completion command_chunks safe_crlf)
qed

lemma writes_authenticate:
  "(\<And>t. no_crlf (base64 t)) \<Longrightarrow> writes safe_chunk (authenticate base64 username creds)"
  by (cases creds) (simp_all add: writes_password writes_xoauth2)

lemma writes_greeting: "writes P read_greeting"
  unfolding read_greeting_def by (intro writes_bind writes_read_line) (auto intro: writes_return)

section \<open>What success means\<close>

text \<open>The bytes consumed between two connection states.\<close>

definition consumed :: "conn \<Rightarrow> conn \<Rightarrow> string \<Rightarrow> bool" where
  "consumed c c' s \<longleftrightarrow> cn_in c = s @ cn_in c'"

text \<open>A line of the server with its line feed, and the unfinished one before a closed stream.\<close>

definition full_line :: "string \<Rightarrow> bool" where
  "full_line l \<longleftrightarrow> l \<noteq> [] \<and> List.last l = LF \<and> LF \<notin> set (butlast l)"

definition closing_line :: "conn \<Rightarrow> string \<Rightarrow> bool" where
  "closing_line c' l \<longleftrightarrow> l \<noteq> [] \<and> LF \<notin> set l \<and> cn_in c' = [] \<and> cn_end c' = PeerCloses"

lemma line_chunk_prefix: "\<exists>r. s = line_chunk s @ r"
  by (induction s) auto

lemma line_chunk_full: "LF \<in> set (line_chunk s) \<Longrightarrow> full_line (line_chunk s)"
proof (induction s)
  case (Cons a s)
  show ?case
  proof (cases "a = LF")
    case False
    with Cons have "full_line (line_chunk s)" by simp
    with False show ?thesis by (simp add: full_line_def)
  qed (simp add: full_line_def)
qed simp

lemma line_chunk_rest: "LF \<notin> set (line_chunk s) \<Longrightarrow> line_chunk s = s"
  by (induction s) (auto split: if_splits)

lemma read_line_consumes:
  assumes "read_line c = (Value line, c')"
  obtains l where "consumed c c' l" "line = trim_line l" "full_line l \<or> closing_line c' l"
proof -
  define chunk where "chunk = line_chunk (take (MAX_RESPONSE_LINE_BYTES + 1) (cn_in c))"
  have r: "line = trim_line chunk" "c' = c\<lparr>cn_in := drop (length chunk) (cn_in c)\<rparr>" "chunk \<noteq> []"
    "length chunk \<le> MAX_RESPONSE_LINE_BYTES" "LF \<in> set chunk \<or> cn_end c = PeerCloses"
    using assms unfolding read_line_def Let_def chunk_def [symmetric]
    by (auto simp: line_result_def split: if_splits peer_end.splits)
  obtain t where t: "take (MAX_RESPONSE_LINE_BYTES + 1) (cn_in c) = chunk @ t" using line_chunk_prefix chunk_def by blast
  have "take (length chunk) (cn_in c) = take (length chunk) (take (MAX_RESPONSE_LINE_BYTES + 1) (cn_in c))"
    using r(4) by (simp add: min_absorb1)
  also have "\<dots> = chunk" by (subst t) simp
  finally have all: "cn_in c = chunk @ drop (length chunk) (cn_in c)" by (metis append_take_drop_id)
  have "closing_line c' chunk" if "LF \<notin> set chunk"
  proof -
    have short: "take (MAX_RESPONSE_LINE_BYTES + 1) (cn_in c) = chunk" unfolding chunk_def
      by (rule line_chunk_rest [symmetric]) (use that in \<open>simp add: chunk_def\<close>)
    then have "length (take (MAX_RESPONSE_LINE_BYTES + 1) (cn_in c)) < MAX_RESPONSE_LINE_BYTES + 1" using r(4) by simp
    then have "length (cn_in c) < MAX_RESPONSE_LINE_BYTES + 1" by simp
    with short have "chunk = cn_in c" by simp
    with r that show ?thesis by (simp add: closing_line_def)
  qed
  with r(1,2) all line_chunk_full [of "take (MAX_RESPONSE_LINE_BYTES + 1) (cn_in c)"] that [of chunk] show ?thesis
    unfolding chunk_def [symmetric] consumed_def by (metis conn.select_convs(1) conn.surjective conn.update_convs(1))
qed

text \<open>
  A command succeeded: what was read since are whole lines of the server, the last of them is a
  tagged OK for the command's tag, and no line before it completed the command.
\<close>

definition tagged_ok_read :: "string \<Rightarrow> conn \<Rightarrow> conn \<Rightarrow> bool" where
  "tagged_ok_read tag c c' \<longleftrightarrow> (\<exists>ls l. consumed c c' (concat ls @ l) \<and>
     list_all (\<lambda>k. full_line k \<and> \<not> is_tagged_completion (trim_line k) tag) ls \<and>
     (full_line l \<or> closing_line c' l) \<and> is_tagged_ok (trim_line l) tag)"

lemma tagged_ok_read_later:
  assumes "read_line c = (Value line, c1)" "\<not> is_tagged_completion line tag" "tagged_ok_read tag c1 c2"
  shows "tagged_ok_read tag c c2"
proof -
  obtain k where k: "consumed c c1 k" "line = trim_line k" "full_line k \<or> closing_line c1 k"
    using assms(1) by (rule read_line_consumes)
  obtain ls l where l: "consumed c1 c2 (concat ls @ l)" "full_line l \<or> closing_line c2 l" "is_tagged_ok (trim_line l) tag"
      "list_all (\<lambda>k. full_line k \<and> \<not> is_tagged_completion (trim_line k) tag) ls"
    using assms(3) unfolding tagged_ok_read_def by blast
  have "l \<noteq> []" using l(2) by (auto simp: full_line_def closing_line_def)
  with l(1) have "cn_in c1 \<noteq> []" by (simp add: consumed_def)
  with k(3) have "full_line k" by (simp add: closing_line_def)
  with k(1,2) l assms(2) show ?thesis
    unfolding tagged_ok_read_def by (intro exI [of _ "k # ls"] exI [of _ l]) (simp add: consumed_def)
qed

lemma tagged_ok_read_now:
  assumes "read_line c = (Value line, c')" "is_tagged_ok line tag"
  shows "tagged_ok_read tag c c'"
proof -
  obtain l where "consumed c c' l" "line = trim_line l" "full_line l \<or> closing_line c' l"
    using assms(1) by (rule read_line_consumes)
  with assms(2) show ?thesis
    unfolding tagged_ok_read_def by (intro exI [of _ "[]"] exI [of _ l]) simp
qed

lemma tagged_ok_read_same_in: "cn_in c1 = cn_in c \<Longrightarrow> tagged_ok_read tag c1 c2 \<Longrightarrow> tagged_ok_read tag c c2"
  by (simp add: tagged_ok_read_def consumed_def)

lemma continuation_not_tagged: "starts_with ''+'' line \<Longrightarrow> \<not> is_tagged_completion line (tag_text n)"
  by (cases line) (auto simp: is_tagged_completion_def tagged_rest_def tag_text_def starts_with_iff)

lemma wait_tagged_success: "wait_tagged tag command c = (Value u, c') \<Longrightarrow> tagged_ok_read tag c c'"
proof (induction tag command c rule: wait_tagged.induct)
  case (1 tag command c)
  note step = 1(2) [unfolded wait_tagged.simps [of tag command c]]
  obtain r c1 where p: "read_line c = (r, c1)" by (cases "read_line c")
  with step obtain line where line: "r = Value line" by (cases r) auto
  show ?case
  proof (cases "is_tagged_ok line tag")
    case True
    with step p line tagged_ok_read_now show ?thesis by auto
  next
    case False
    with step p line have nok: "\<not> is_tagged_completion line tag" and "wait_tagged tag command c1 = (Value u, c')"
      by (auto split: if_splits)
    from 1(1) [OF p [symmetric] line False nok this(2)] show ?thesis
      by (rule tagged_ok_read_later [OF p [unfolded line] nok])
  qed
qed

lemma xoauth2_completion_success:
  "xoauth2_completion (tag_text n) c = (Value u, c') \<Longrightarrow> tagged_ok_read (tag_text n) c c'"
proof (induction "tag_text n" c rule: xoauth2_completion.induct)
  case (1 c)
  note step = 1(3) [unfolded xoauth2_completion.simps [of "tag_text n" c]]
  obtain r c1 where p: "read_line c = (r, c1)" by (cases "read_line c")
  with step obtain line where line: "r = Value line" by (cases r) auto
  note later = tagged_ok_read_later [OF p [unfolded line]]
  show ?case
  proof (cases "starts_with ''+'' line")
    case True
    with step p line obtain k where k: "cn_writes c1 = Suc k"
      "xoauth2_completion (tag_text n) (c1\<lparr>cn_writes := k, cn_out := cn_out c1 @ [crlf]\<rparr>) = (Value u, c')"
      by (auto split: nat.splits)
    have "tagged_ok_read (tag_text n) c1 c'"
      using 1(1) [OF p [symmetric] line True k(1) k(2)] by (rule tagged_ok_read_same_in [rotated]) simp
    with later continuation_not_tagged [OF True] show ?thesis by blast
  next
    case False
    show ?thesis
    proof (cases "is_tagged_ok line (tag_text n)")
      case True
      with False step p line tagged_ok_read_now show ?thesis by auto
    next
      case nok: False
      with False step p line have nc: "\<not> is_tagged_completion line (tag_text n)"
        and rest: "xoauth2_completion (tag_text n) c1 = (Value u, c')"
        by (auto split: if_splits)
      from 1(2) [OF p [symmetric] line False nok nc rest] later nc show ?thesis by blast
    qed
  qed
qed

lemma io_bind_Value: "io_bind m f c = (Value y, c2) \<longleftrightarrow> (\<exists>x c1. m c = (Value x, c1) \<and> f x c1 = (Value y, c2))"
  by (cases "m c"; cases "fst (m c)") (auto simp: io_bind_def)

text \<open>The lines before the continuation of \<open>AUTHENTICATE\<close> do not complete the command either.\<close>

lemma xoauth2_challenge_skips:
  "xoauth2_challenge (tag_text n) c = (Value u, c') \<Longrightarrow> tagged_ok_read (tag_text n) c' c2 \<Longrightarrow> tagged_ok_read (tag_text n) c c2"
proof (induction "tag_text n" c rule: xoauth2_challenge.induct)
  case (1 c)
  note step = 1(2) [unfolded xoauth2_challenge.simps [of "tag_text n" c]]
  obtain r c1 where p: "read_line c = (r, c1)" by (cases "read_line c")
  with step obtain line where line: "r = Value line" by (cases r) auto
  note later = tagged_ok_read_later [OF p [unfolded line]]
  show ?case
  proof (cases "starts_with ''+'' line")
    case True
    with step p line 1(3) later continuation_not_tagged [OF True] show ?thesis by auto
  next
    case False
    with step p line have nc: "\<not> is_tagged_completion line (tag_text n)" and rest: "xoauth2_challenge (tag_text n) c1 = (Value u, c')"
      by (auto split: if_splits)
    from 1(1) [OF p [symmetric] line False nc rest 1(3)] later nc show ?thesis by blast
  qed
qed

lemma take_tag_Value: "take_tag c = (Value tag, c') \<longleftrightarrow>
    Suc (cn_tag c) < 2 ^ 64 \<and> tag = tag_text (Suc (cn_tag c)) \<and> c' = c\<lparr>cn_tag := Suc (cn_tag c)\<rparr>"
  by (auto simp: take_tag_def next_tag_def)

lemma io_of_result_Value: "io_of_result r c = (Value x, c') \<longleftrightarrow> r = Inr x \<and> c' = c"
  by (cases r) (auto simp: io_of_result_def io_raise_def io_return_def)

lemma login_rejected_Value: "login_rejected m c = (Value x, c') \<longleftrightarrow> m c = (Value x, c')"
  by (auto simp: login_rejected_def split: prod.splits io_result.splits imap_error.splits)

lemma write_raw_tag: "write_raw b c = (Value u, c') \<Longrightarrow> cn_in c' = cn_in c"
  by (auto simp: write_raw_def split: nat.splits)

lemma password_success:
  assumes "authenticate_password username password c = (Value u, c')"
  shows "tagged_ok_read (tag_text (Suc (cn_tag c))) c c'"
proof -
  let ?tag = "tag_text (Suc (cn_tag c))"
  obtain c1 where "write_raw (login_command ?tag username (expose_secret password)) (c\<lparr>cn_tag := Suc (cn_tag c)\<rparr>) = (Value (), c1)"
    and w: "wait_tagged ?tag ''LOGIN'' c1 = (Value u, c')"
    using assms unfolding authenticate_password_def io_bind_Value io_of_result_Value take_tag_Value login_rejected_Value
    by auto
  then have "cn_in c1 = cn_in c" using write_raw_tag by fastforce
  with wait_tagged_success [OF w] tagged_ok_read_same_in show ?thesis by blast
qed

lemma xoauth2_success:
  assumes "authenticate_xoauth2 base64 username token c = (Value u, c')"
  shows "tagged_ok_read (tag_text (Suc (cn_tag c))) c c'"
proof -
  let ?tag = "tag_text (Suc (cn_tag c))"
  obtain x1 c1 x2 c2 x3 c3 x4 c4 where
    s: "write_raw (?tag @ '' AUTHENTICATE XOAUTH2'' @ crlf) (c\<lparr>cn_tag := Suc (cn_tag c)\<rparr>) = (Value x1, c1)"
      "xoauth2_challenge ?tag c1 = (Value x2, c2)"
      "write_raw (xoauth2_response base64 username (expose_secret token)) c2 = (Value x3, c3)"
      "write_raw crlf c3 = (Value x4, c4)"
    and e: "xoauth2_completion ?tag c4 = (Value u, c')"
    using assms unfolding authenticate_xoauth2_def io_bind_Value take_tag_Value by blast
  have same: "cn_in c1 = cn_in c" "cn_in c4 = cn_in c2" using write_raw_tag s(1,3,4) by fastforce+
  from xoauth2_completion_success [OF e] have "tagged_ok_read ?tag c2 c'" by (rule tagged_ok_read_same_in [OF same(2)])
  from xoauth2_challenge_skips [OF s(2) this] show ?thesis by (rule tagged_ok_read_same_in [OF same(1)])
qed

lemma ascii_utf8 [simp]: "utf8_valid (c # s) \<longleftrightarrow> utf8_valid s" if "byte_in 0 127 c"
  using that by (simp add: utf8_valid.simps [of "c # s"])

lemma line_chunk_line: "LF \<notin> set l \<Longrightarrow> line_chunk (l @ LF # r) = l @ [LF]"
  by (induction l) auto

lemma read_line_line:
  assumes "LF \<notin> set l" "length l < MAX_RESPONSE_LINE_BYTES" "utf8_valid (l @ [LF])" "cn_in c = l @ LF # rest"
  shows "read_line c = (Value (trim_line (l @ [LF])), c\<lparr>cn_in := rest\<rparr>)"
proof -
  have "take (MAX_RESPONSE_LINE_BYTES + 1) (cn_in c) = l @ LF # take (MAX_RESPONSE_LINE_BYTES - length l) rest"
    using assms(2) by (simp add: assms(4) take_Cons' Suc_diff_le)
  then have "line_chunk (take (MAX_RESPONSE_LINE_BYTES + 1) (cn_in c)) = l @ [LF]"
    using line_chunk_line [OF assms(1)] by simp
  then show ?thesis using assms(2,3) by (simp add: read_line_def line_result_def assms(4))
qed


lemma demo_tag: "tag_text (Suc 0) = ''A0001''"
proof -
  have "char_of (of_char CHR ''1'' :: nat) = CHR ''1''" by (rule char_of_char)
  then have "show_nat (Suc 0) = ''1''" by (simp add: show_nat.simps [of "Suc 0"])
  then show ?thesis by (simp add: tag_text_def pad_left_def numeral_3_eq_3)
qed

section \<open>Properties\<close>

text \<open>The server's reading of a LOGIN line: tag, user name and password.\<close>

definition parse_login :: "string \<Rightarrow> (string \<times> string \<times> string) option" where
  "parse_login line = (let tag = takeWhile (\<lambda>c. c \<noteq> CHR '' '') line in
     Option.bind (strip_prefix (tag @ '' LOGIN '') line) (\<lambda>rest.
     Option.bind (parse_quoted rest) (\<lambda>(username, rest1).
     Option.bind (strip_prefix '' '' rest1) (\<lambda>rest2.
     Option.bind (parse_quoted rest2) (\<lambda>(password, rest3).
     if rest3 = crlf then Some (tag, username, password) else None)))))"

text \<open>
  C28. Credentials cannot inject commands: a server that parses the LOGIN line as RFC 3501 quoted
  strings reads exactly the tag, the user name and the password, whatever quotes, backslashes or
  spaces they contain, as long as they have no line ending, which the code rejects.
\<close>

theorem login_round_trip:
  assumes "no_crlf username" "no_crlf password"
  shows "parse_login (login_command (tag_text n) username password) = Some (tag_text n, username, password)"
proof -
  have tag: "takeWhile (\<lambda>c. c \<noteq> CHR '' '') (tag_text n @ CHR '' '' # s) = tag_text n" for s
    using tag_text_chars by (subst takeWhile_append2) auto
  have line: "login_command (tag_text n) username password =
      tag_text n @ CHR '' '' # ''LOGIN '' @ quote_imap username @ '' '' @ quote_imap password @ crlf"
    by (simp add: login_command_def)
  have "strip_prefix (tag_text n @ '' LOGIN '') (tag_text n @ CHR '' '' # ''LOGIN '' @ r) = Some r" for r
    by (simp only: strip_prefix_Some) simp
  moreover have "strip_prefix '' '' ('' '' @ r) = Some r" for r by simp
  ultimately show ?thesis unfolding line parse_login_def Let_def tag
    by (simp only: bind.bind_lunit prod.case parse_quoted_quote [OF assms(1)]
        parse_quoted_quote [OF assms(2)] simp_thms if_True)
qed

lemma login_round_trip_witness:
  "parse_login (login_command (tag_text 1) [CHR ''a'', CHR 0x22, CHR '' ''] [CHR 0x5C, CHR ''b'']) =
     Some (''A0001'', [CHR ''a'', CHR 0x22, CHR '' ''], [CHR 0x5C, CHR ''b''])"
proof -
  have "tag_text 1 = ''A0001''" by (simp add: demo_tag)
  moreover have "no_crlf [CHR ''a'', CHR 0x22, CHR '' '']" "no_crlf [CHR 0x5C, CHR ''b'']"
    by (simp_all add: literal_no_crlf)
  ultimately show ?thesis using login_round_trip [of _ _ 1] by simp
qed

text \<open>
  C8. Authentication succeeds only on the server's word: with either method, what was read from
  the server since the command are whole lines, the last of them is a tagged OK carrying the tag
  of this very command, and no earlier line completed the command. A line the server closed the
  stream in the middle of counts as its last line.
\<close>

theorem authentication_needs_tagged_ok:
  assumes "authenticate base64 username creds c = (Value u, c')"
  shows "tagged_ok_read (tag_text (Suc (cn_tag c))) c c'"
  using assms password_success xoauth2_success by (cases creds) auto

text \<open>
  Response lines are bounded: a line the client accepts has at most 64 KiB, and reading it
  consumes at least one and at most 64 KiB of the stream.
\<close>

lemma response_lines_bounded:
  assumes "read_line c = (Value line, c')"
  shows "length line \<le> MAX_RESPONSE_LINE_BYTES \<and> length (cn_in c') < length (cn_in c) \<and>
    length (cn_in c) \<le> length (cn_in c') + MAX_RESPONSE_LINE_BYTES \<and> utf8_valid line"
proof -
  let ?chunk = "line_chunk (take (MAX_RESPONSE_LINE_BYTES + 1) (cn_in c))"
  have r: "line = trim_line ?chunk" "c' = c\<lparr>cn_in := drop (length ?chunk) (cn_in c)\<rparr>"
    "length ?chunk \<le> MAX_RESPONSE_LINE_BYTES" "utf8_valid ?chunk"
    using assms by (auto simp: read_line_def line_result_def Let_def split: if_splits peer_end.splits)
  have "length (cn_in c) \<le> length (cn_in c') + MAX_RESPONSE_LINE_BYTES" using r(2,3) by simp
  then show ?thesis
    using r trim_length [of ?chunk] trim_keeps_utf8 [of ?chunk] read_line_shrinks [OF assms]
    by (simp add: trim_line_def)
qed

definition demo_conn :: conn where
  "demo_conn = \<lparr>cn_in = ''A0001 OK done'' @ CR # LF # [], cn_end = PeerCloses, cn_writes = 9, cn_write_end = WriteStalls, cn_out = [], cn_tag = 0\<rparr>"

lemma demo_read:
  assumes "cn_in c = cn_in demo_conn"
  shows "read_line c = (Value ''A0001 OK done'', c\<lparr>cn_in := []\<rparr>)"
proof -
  have "cn_in c = (''A0001 OK done'' @ [CR]) @ LF # []" by (simp add: assms demo_conn_def)
  from read_line_line [OF _ _ _ this] show ?thesis
    by (simp add: MAX_RESPONSE_LINE_BYTES_def utf8_valid_step utf8_follow_def utf8_width_def byte_in_def
        CR_def LF_def trim_line_def trim_end_crlf_def is_crlf_def)
qed

lemma demo_ok: "is_tagged_ok ''A0001 OK done'' ''A0001''"
  by (simp add: is_tagged_ok_def tagged_rest_def first_word_def trim_start.simps [of "''OK done''"] strip_ws_char_def
      ascii_ws_def ws_pair_def ws_triple_def first_word_from.simps to_ascii_uppercase_def upper_char_def Let_def)

lemma demo_login:
  "\<exists>c'. authenticate base64 ''u'' (PasswordCredentials (Secret ''p'')) demo_conn = (Value (), c')"
proof -
  let ?c = "demo_conn\<lparr>cn_tag := Suc 0, cn_writes := 8, cn_out := [login_command (tag_text (Suc 0)) ''u'' ''p'']\<rparr>"
  have "wait_tagged (tag_text (Suc 0)) ''LOGIN'' ?c = (Value (), ?c\<lparr>cn_in := []\<rparr>)"
    by (subst wait_tagged.simps) (simp add: demo_read demo_tag demo_ok)
  moreover have "no_crlf ''u''" "no_crlf ''p''" by (simp_all add: literal_no_crlf)
  ultimately show ?thesis
    by (simp add: authenticate_password_def io_bind_def io_of_result_def io_return_def validate_imap_string_def
        take_tag_def next_tag_def write_raw_def login_rejected_def demo_conn_def)
qed

lemma authentication_needs_tagged_ok_witness:
  "\<exists>c'. tagged_ok_read (tag_text (Suc 0)) demo_conn c'"
proof -
  obtain c' where "authenticate (\<lambda>s. s) ''u'' (PasswordCredentials (Secret ''p'')) demo_conn = (Value (), c')"
    using demo_login by blast
  from authentication_needs_tagged_ok [OF this] show ?thesis by (auto simp: demo_conn_def)
qed

end
