(* ===== verification/Retry_Backoff.thy ===== *)
theory Retry_Backoff
  imports Prelude
begin

text \<open>
  The retry delay the network watchers share (\<^verbatim>\<open>src/src/imap.rs\<close> and
  \<^verbatim>\<open>src/src/gmail_api_poll.rs\<close> keep the same two constants): it doubles after every failure up
  to a cap. The locale is the contract of such a delay; each watcher interprets it.
\<close>

definition INITIAL_BACKOFF :: duration where "INITIAL_BACKOFF = secs 1"
definition MAX_BACKOFF :: duration where "MAX_BACKOFF = secs 300"

definition next_backoff :: "duration \<Rightarrow> duration" where
  "next_backoff b = min (b * 2) MAX_BACKOFF"

locale backoff =
  fixes first :: duration and cap :: duration and grow :: "duration \<Rightarrow> duration"
  assumes first_pos: "0 < first" and first_cap: "first \<le> cap"
    and grow_eq: "grow b = min (b * 2) cap"
begin

definition valid :: "duration \<Rightarrow> bool" where
  "valid b \<longleftrightarrow> first \<le> b \<and> b \<le> cap"

lemma valid_first: "valid first"
  using first_cap by (simp add: valid_def)

lemma valid_grow: "valid b \<Longrightarrow> valid (grow b)"
  using first_cap by (simp add: valid_def grow_eq)

lemma grow_pow: "(grow ^^ n) first = min (2 ^ n * first) cap"
proof (induction n)
  case 0
  then show ?case using first_cap by simp
next
  case (Suc n)
  then show ?case by (simp add: grow_eq min_def)
qed

lemma grow_bounded: "(grow ^^ n) first \<le> cap"
  by (simp add: grow_pow)

lemma grow_eventually: "cap \<le> 2 ^ n * first \<Longrightarrow> (grow ^^ n) first = cap"
  by (simp add: grow_pow)

end

interpretation retry: backoff INITIAL_BACKOFF MAX_BACKOFF next_backoff
  by unfold_locales (simp_all add: INITIAL_BACKOFF_def MAX_BACKOFF_def secs_def next_backoff_def)

lemma retry_valid_bounds: "retry.valid d \<longleftrightarrow> secs 1 \<le> d \<and> d \<le> secs 300"
  unfolding retry.valid_def by (simp add: INITIAL_BACKOFF_def MAX_BACKOFF_def)

end
