(* ===== verification/Imap_Watcher.thy ===== *)
theory Imap_Watcher
  imports Imap_Protocol Retry_Backoff
begin

text \<open>
  The IMAP watcher task (second half of \<^verbatim>\<open>src/src/imap.rs\<close>): one session (connect, greeting,
  credentials, authentication, EXAMINE, IDLE) and the loop that reconnects with a growing
  delay, after a system resume, or stops. The IDLE loop is a machine over arriving bytes:
  \<open>id_partial\<close> is what the pending \<^verbatim>\<open>read_line\<close> future has taken from the stream without
  completing a line; tokio drops it when another branch of the \<^verbatim>\<open>select!\<close> completes first.
\<close>

section \<open>Effects and settings\<close>

record imap_settings =
  is_idle_refresh :: duration
  is_helper_timeout :: duration
  is_helper_max :: usize
  is_connect_timeout :: duration
  is_operation_timeout :: duration

text \<open>The parameters of the task: the account and mailbox, and the third-party code it calls.\<close>

record mailbox_task =
  mt_account :: account_config
  mt_mailbox :: mailbox_config
  mt_watcher :: string
  mt_settings :: imap_settings
  mt_base64 :: "string \<Rightarrow> string"

datatype imap_output =
  ImMark rt_op
| ImQueue send_result
| ImReady "(imap_error, unit) result"
| ImSleep duration

definition queue_mailbox_event :: "send_result \<Rightarrow> imap_output list" where
  "queue_mailbox_event r = [ImMark OpEvent, ImQueue r]"

definition mark_idling :: "mailbox_task \<Rightarrow> imap_output list" where
  "mark_idling t = [ImMark (OpMarkWatcher (mt_watcher t) WIdling)]"

section \<open>The session before IDLE\<close>

datatype net_result = NetOk | NetFails string | NetStalls

text \<open>What one session finds: the network, and the helpers it runs.\<close>

record net_script =
  ns_tcp :: net_result
  ns_tls_builder :: net_result
  ns_tls :: net_result
  ns_exec :: shell_exec

definition connect :: "account_config \<Rightarrow> imap_settings \<Rightarrow> net_script \<Rightarrow> (imap_error, unit) result" where
  "connect a s net = (case ns_tcp net of
     NetStalls \<Rightarrow> Inl (OperationTimedOut ''TCP connect'' (as_secs (is_connect_timeout s)))
   | NetFails e \<Rightarrow> Inl (ImapIo e)
   | NetOk \<Rightarrow>
       if ac_insecure_plaintext a then Inr ()
       else (case ns_tls_builder net of
          NetFails e \<Rightarrow> Inl (ImapTls e)
        | _ \<Rightarrow> (case ns_tls net of
             NetStalls \<Rightarrow> Inl (OperationTimedOut ''TLS handshake'' (as_secs (is_operation_timeout s)))
           | NetFails e \<Rightarrow> Inl (ImapTls e)
           | NetOk \<Rightarrow> Inr ())))"

definition io_credentials :: "mailbox_task \<Rightarrow> net_script \<Rightarrow> credentials io" where
  "io_credentials t net c = (case credentials_for (ns_exec net) (mt_account t)
       (is_helper_timeout (mt_settings t)) (is_helper_max (mt_settings t)) of
     Pending \<Rightarrow> (Blocked, c)
   | Panicked \<Rightarrow> (PanickedIo, c)
   | Returned (Inl e) \<Rightarrow> (Raised (ImapAuth e), c)
   | Returned (Inr creds) \<Rightarrow> (Value creds, c))"

text \<open>\<open>run_mailbox_once\<close> up to the IDLE loop.\<close>

definition run_mailbox_handshake :: "mailbox_task \<Rightarrow> net_script \<Rightarrow> unit io" where
  "run_mailbox_handshake t net = (let op = is_operation_timeout (mt_settings t) in
     io_bind (io_of_result (validate_imap_string ''username'' (ac_username (mt_account t)))) (\<lambda>_.
     io_bind (io_of_result (validate_imap_string ''mailbox name'' (mb_name (mt_mailbox t)))) (\<lambda>_.
     io_bind (io_of_result (connect (mt_account t) (mt_settings t) net)) (\<lambda>_.
     io_bind (with_imap_timeout op ''IMAP greeting'' read_greeting) (\<lambda>_.
     io_bind (io_credentials t net) (\<lambda>creds.
     io_bind (with_imap_timeout op ''IMAP authentication''
                (authenticate (mt_base64 t) (ac_username (mt_account t)) creds)) (\<lambda>_.
     with_imap_timeout op ''EXAMINE'' (examine_mailbox (mb_name (mt_mailbox t))))))))))"

section \<open>The IDLE loop\<close>

datatype run_end = EndShutdown | EndReconnect

datatype idle_pc = IdEnter | IdWait string | IdOver "(imap_error, run_end) result" | IdPanicked

record idle_state =
  id_pc :: idle_pc
  id_conn :: conn
  id_partial :: string
  id_established :: bool
  id_ready :: bool

datatype idle_input =
  EnterIdle string peer_end send_result
| Arrive string
| PollRead
| LineReady send_result
| ReadEnds send_result
| ReadFails string
| IdleShutdown watch_change string peer_end send_result
| IdleRefresh string peer_end send_result

definition more_bytes :: "string \<Rightarrow> peer_end \<Rightarrow> conn \<Rightarrow> conn" where
  "more_bytes bytes e c = c\<lparr>cn_in := cn_in c @ bytes, cn_end := e\<rparr>"

definition enter_idle :: "mailbox_task \<Rightarrow> string io" where
  "enter_idle t = (let op = is_operation_timeout (mt_settings t) in
     io_bind take_tag (\<lambda>tag.
     io_bind (with_imap_timeout op ''IDLE command'' (write_raw (tag @ '' IDLE'' @ crlf))) (\<lambda>_.
     io_bind (with_imap_timeout op ''IDLE continuation'' (wait_idle_continuation tag)) (\<lambda>_.
     io_return tag))))"

text \<open>What happens the first time a session idles.\<close>

definition establish :: "mailbox_task \<Rightarrow> bool \<Rightarrow> send_result \<Rightarrow> idle_state \<Rightarrow> idle_state \<times> imap_output list" where
  "establish t notify_on_connect r s =
     (if id_established s then (s, [])
      else (s\<lparr>id_established := True, id_ready := False\<rparr>,
            (if notify_on_connect then queue_mailbox_event r else [])
              @ (if id_ready s then [ImReady (Inr ())] else [])))"

definition idle_fail :: "imap_error \<Rightarrow> idle_state \<Rightarrow> idle_state" where
  "idle_fail e s = s\<lparr>id_pc := IdOver (Inl e)\<rparr>"

definition idle_enter :: "mailbox_task \<Rightarrow> bool \<Rightarrow> send_result \<Rightarrow> idle_state \<Rightarrow> idle_state \<times> imap_output list" where
  "idle_enter t notify_on_connect r s = (case enter_idle t (id_conn s) of
     (Value tag, c) \<Rightarrow>
       (case establish t notify_on_connect r (s\<lparr>id_conn := c, id_pc := IdWait tag, id_partial := []\<rparr>) of
          (s', os) \<Rightarrow> (s', mark_idling t @ os))
   | (Raised e, c) \<Rightarrow> (idle_fail e (s\<lparr>id_conn := c\<rparr>), [])
   | (_, c) \<Rightarrow> (s\<lparr>id_conn := c, id_pc := IdPanicked\<rparr>, []))"

text \<open>A complete line: the select loop goes round with a new, empty read.\<close>

definition idle_line :: "mailbox_task \<Rightarrow> string \<Rightarrow> send_result \<Rightarrow> string \<Rightarrow> idle_state \<Rightarrow> idle_state \<times> imap_output list" where
  "idle_line t tag r bytes s =
     (let s = s\<lparr>id_partial := []\<rparr> in
      if \<not> utf8_valid bytes then (idle_fail (ImapIo ''stream did not contain valid UTF-8'') s, [])
      else if bytes = [] then (idle_fail ServerClosed s, [])
      else (case classify_idle_response (trim_line bytes) tag of
          Inl e \<Rightarrow> (idle_fail e s, [])
        | Inr IdleCompleted \<Rightarrow> (s\<lparr>id_pc := IdEnter\<rparr>, [])
        | Inr IdleMailboxChange \<Rightarrow> (s, mark_idling t @ queue_mailbox_event r)
        | Inr IdleOther \<Rightarrow> (s, mark_idling t)))"

definition idle_finish :: "mailbox_task \<Rightarrow> string \<Rightarrow> send_result \<Rightarrow> idle_state
    \<Rightarrow> (unit io_result \<times> idle_state) \<times> imap_output list" where
  "idle_finish t tag r s = (case finish_idle (is_operation_timeout (mt_settings t)) tag (id_conn s) of
     (n, result, c) \<Rightarrow>
       ((result, s\<lparr>id_conn := c, id_partial := []\<rparr>), concat (replicate n (queue_mailbox_event r))))"

fun idle_step :: "mailbox_task \<Rightarrow> bool \<Rightarrow> (idle_state, idle_input, imap_output) machine" where
  "idle_step t notify s i = (case (id_pc s, i) of
     (IdEnter, EnterIdle bytes e r) \<Rightarrow>
       Some (idle_enter t notify r (s\<lparr>id_conn := more_bytes bytes e (id_conn s)\<rparr>))
   | (IdWait tag, Arrive bytes) \<Rightarrow> Some (s\<lparr>id_conn := more_bytes bytes PeerStalls (id_conn s)\<rparr>, [])
   | (IdWait tag, PollRead) \<Rightarrow>
       if LF \<in> set (cn_in (id_conn s)) then None
       else Some (s\<lparr>id_partial := id_partial s @ cn_in (id_conn s), id_conn := (id_conn s)\<lparr>cn_in := []\<rparr>\<rparr>, [])
   | (IdWait tag, LineReady r) \<Rightarrow>
       if LF \<in> set (cn_in (id_conn s)) then
         (let chunk = line_chunk (cn_in (id_conn s)) in
            Some (idle_line t tag r (id_partial s @ chunk)
              (s\<lparr>id_conn := (id_conn s)\<lparr>cn_in := drop (length chunk) (cn_in (id_conn s))\<rparr>\<rparr>)))
       else None
   | (IdWait tag, ReadEnds r) \<Rightarrow>
       if LF \<in> set (cn_in (id_conn s)) then None
       else Some (idle_line t tag r (id_partial s @ cn_in (id_conn s))
              (s\<lparr>id_conn := (id_conn s)\<lparr>cn_in := []\<rparr>\<rparr>))
   | (IdWait tag, ReadFails e) \<Rightarrow> Some (idle_fail (ImapIo e) s, [])
   | (IdWait tag, IdleShutdown changed bytes e r) \<Rightarrow>
       if asks_stop changed then
         (case idle_finish t tag r (s\<lparr>id_conn := more_bytes bytes e (id_conn s)\<rparr>) of
            ((result, s'), os) \<Rightarrow> Some (s'\<lparr>id_pc := IdOver (Inr EndShutdown)\<rparr>, os))
       else Some (s\<lparr>id_partial := []\<rparr>, [])
   | (IdWait tag, IdleRefresh bytes e r) \<Rightarrow>
       (case idle_finish t tag r (s\<lparr>id_conn := more_bytes bytes e (id_conn s)\<rparr>) of
          ((Value _, s'), os) \<Rightarrow> Some (s'\<lparr>id_pc := IdEnter\<rparr>, os @ mark_idling t)
        | ((Raised err, s'), os) \<Rightarrow> Some (idle_fail err s', os)
        | ((_, s'), os) \<Rightarrow> Some (s'\<lparr>id_pc := IdPanicked\<rparr>, os))
   | _ \<Rightarrow> None)"

declare idle_step.simps [simp del]

section \<open>The watch loop\<close>

datatype watch_pc =
  WLoop
| WHandshake
| WIdle idle_state
| WBackoff instant
| WOver "(imap_error, unit) result"
| WPanicked

record watch_state =
  wt_pc :: watch_pc
  wt_backoff :: duration
  wt_connected_once :: bool
  wt_ready :: bool

datatype watch_input =
  LoopTop bool
| Handshake net_script conn
| InSession idle_input
| Resume
| ResumeAtDone string send_result
| RetryTimer
| RetryShutdown watch_change

definition watch_init :: "bool \<Rightarrow> watch_state" where
  "watch_init ready = \<lparr>wt_pc = WLoop, wt_backoff = INITIAL_BACKOFF, wt_connected_once = False, wt_ready = ready\<rparr>"

definition watch_stop :: "mailbox_task \<Rightarrow> watch_state \<Rightarrow> watch_state \<times> imap_output list" where
  "watch_stop t s = (s\<lparr>wt_pc := WOver (Inr ())\<rparr>, [ImMark (OpMarkWatcher (mt_watcher t) WStopped)])"

text \<open>The match on a session's result; a retry starts its sleep at \<open>now\<close>.\<close>

definition after_session ::
  "mailbox_task \<Rightarrow> bool \<Rightarrow> (imap_error, run_end) result \<Rightarrow> instant \<Rightarrow> watch_state \<Rightarrow> watch_state \<times> imap_output list" where
  "after_session t established result now s0 =
     (let s = s0\<lparr>wt_connected_once := wt_connected_once s0 \<or> established\<rparr> in
      case result of
        Inr EndShutdown \<Rightarrow> watch_stop t s
      | Inr EndReconnect \<Rightarrow> (s\<lparr>wt_backoff := INITIAL_BACKOFF, wt_pc := WLoop\<rparr>, [])
      | Inl e \<Rightarrow>
          if permanent_imap_failure e then
            (s\<lparr>wt_pc := WOver (Inl e), wt_ready := False\<rparr>,
             ImMark (OpMarkWatcher (mt_watcher t) WCrashed) # (if wt_ready s then [ImReady (Inl e)] else []))
          else (let b = (if established then INITIAL_BACKOFF else wt_backoff s) in
             (s\<lparr>wt_backoff := b, wt_pc := WBackoff (now + b)\<rparr>,
              [ImMark (OpMarkWatcher (mt_watcher t) WReconnecting), ImSleep b])))"

definition session_start :: "conn \<Rightarrow> bool \<Rightarrow> idle_state" where
  "session_start c ready = \<lparr>id_pc = IdEnter, id_conn = c, id_partial = [], id_established = False, id_ready = ready\<rparr>"

definition fresh_conn :: "conn \<Rightarrow> conn" where
  "fresh_conn c = c\<lparr>cn_out := [], cn_tag := 0\<rparr>"

text \<open>Leaving the retry sleep, by its timer or a change that does not ask to stop.\<close>

definition retry_now :: "watch_state \<Rightarrow> watch_state" where
  "retry_now s = s\<lparr>wt_backoff := next_backoff (wt_backoff s), wt_pc := WLoop\<rparr>"

text \<open>
  A resume that finds the session in its DONE exchange, waiting for the server: what the exchange
  queued until then stays queued, and the rest of it is dropped.
\<close>

definition done_interrupted :: "mailbox_task \<Rightarrow> string \<Rightarrow> send_result \<Rightarrow> idle_state \<Rightarrow> imap_output list option" where
  "done_interrupted t bytes r ids = (case id_pc ids of
     IdWait tag \<Rightarrow> (case idle_finish t tag r (ids\<lparr>id_conn := more_bytes bytes PeerStalls (id_conn ids)\<rparr>) of
        ((Raised (OperationTimedOut operation seconds), ids'), os) \<Rightarrow> Some os
      | _ \<Rightarrow> None)
   | _ \<Rightarrow> None)"

fun watch_step :: "mailbox_task \<Rightarrow> (watch_state, watch_input \<times> instant, imap_output) machine" where
  "watch_step t s (i, now) = (case (wt_pc s, i) of
     (WLoop, LoopTop stop) \<Rightarrow>
       Some (if stop then watch_stop t s
             else (s\<lparr>wt_pc := WHandshake\<rparr>, [ImMark (OpMarkWatcher (mt_watcher t) WConnecting)]))
   | (WHandshake, Handshake net c) \<Rightarrow>
       (case run_mailbox_handshake t net (fresh_conn c) of
          (Value _, c') \<Rightarrow> Some (s\<lparr>wt_pc := WIdle (session_start c' (wt_ready s))\<rparr>, [])
        | (Raised e, c') \<Rightarrow> Some (after_session t False (Inl e) now s)
        | (PanickedIo, c') \<Rightarrow> Some (s\<lparr>wt_pc := WPanicked\<rparr>, [])
        | (Blocked, c') \<Rightarrow> None)
   | (WHandshake, Resume) \<Rightarrow> Some (after_session t False (Inr EndReconnect) now s)
   | (WIdle ids, InSession i') \<Rightarrow>
       (case idle_step t (wt_connected_once s) ids i' of
          None \<Rightarrow> None
        | Some (ids', os) \<Rightarrow>
            (let s' = s\<lparr>wt_ready := id_ready ids'\<rparr> in
             case id_pc ids' of
               IdOver result \<Rightarrow> (case after_session t (id_established ids') result now s' of
                   (s'', os') \<Rightarrow> Some (s'', os @ os'))
             | IdPanicked \<Rightarrow> Some (s'\<lparr>wt_pc := WPanicked\<rparr>, os)
             | _ \<Rightarrow> Some (s'\<lparr>wt_pc := WIdle ids'\<rparr>, os)))
   | (WIdle ids, Resume) \<Rightarrow> Some (after_session t (id_established ids) (Inr EndReconnect) now s)
   | (WIdle ids, ResumeAtDone bytes r) \<Rightarrow>
       map_option (\<lambda>os. apsnd (append os) (after_session t (id_established ids) (Inr EndReconnect) now s))
         (done_interrupted t bytes r ids)
   | (WBackoff until, RetryTimer) \<Rightarrow> (if until \<le> now then Some (retry_now s, []) else None)
   | (WBackoff until, RetryShutdown changed) \<Rightarrow>
       Some (if asks_stop changed then watch_stop t s else (retry_now s, []))
   | (WBackoff until, Resume) \<Rightarrow> Some (s\<lparr>wt_backoff := INITIAL_BACKOFF, wt_pc := WLoop\<rparr>, [])
   | _ \<Rightarrow> None)"

declare watch_step.simps [simp del]

section \<open>What one IDLE step does\<close>

fun readies :: "imap_output list \<Rightarrow> (imap_error, unit) result list" where
  "readies [] = []"
| "readies (ImReady r # os) = r # readies os"
| "readies (_ # os) = readies os"

fun sleeps :: "imap_output list \<Rightarrow> duration list" where
  "sleeps [] = []"
| "sleeps (ImSleep d # os) = d # sleeps os"
| "sleeps (_ # os) = sleeps os"

fun queued_events :: "imap_output list \<Rightarrow> nat" where
  "queued_events [] = 0"
| "queued_events (ImQueue r # os) = Suc (queued_events os)"
| "queued_events (_ # os) = queued_events os"

lemma output_append [simp]:
  "readies (xs @ ys) = readies xs @ readies ys"
  "sleeps (xs @ ys) = sleeps xs @ sleeps ys"
  "queued_events (xs @ ys) = queued_events xs + queued_events ys"
  by (induction xs rule: readies.induct) auto

lemma output_parts [simp]:
  "readies (queue_mailbox_event r) = []" "sleeps (queue_mailbox_event r) = []" "queued_events (queue_mailbox_event r) = 1"
  "readies (mark_idling t) = []" "sleeps (mark_idling t) = []" "queued_events (mark_idling t) = 0"
  by (simp_all add: queue_mailbox_event_def mark_idling_def)

lemma output_repeat [simp]:
  "readies (concat (replicate n (queue_mailbox_event r))) = []"
  "sleeps (concat (replicate n (queue_mailbox_event r))) = []"
  "queued_events (concat (replicate n (queue_mailbox_event r))) = n"
  by (induction n) simp_all

definition safe_conn :: "conn \<Rightarrow> bool" where
  "safe_conn c \<longleftrightarrow> list_all safe_chunk (cn_out c)"

lemma safe_conn_in [simp]:
  "safe_conn (c\<lparr>cn_in := x\<rparr>) = safe_conn c" "safe_conn (c\<lparr>cn_tag := n\<rparr>) = safe_conn c"
  "safe_conn (more_bytes b e c) = safe_conn c"
  by (simp_all add: safe_conn_def more_bytes_def)

lemma writes_safe: "writes safe_chunk m \<Longrightarrow> safe_conn c \<Longrightarrow> m c = (r, c') \<Longrightarrow> safe_conn c'"
proof -
  assume w: "writes safe_chunk m" and c: "safe_conn c" and m: "m c = (r, c')"
  obtain ws where "cn_out (snd (m c)) = cn_out c @ ws" "list_all safe_chunk ws"
    using w by (auto simp: writes_def)
  with c m show "safe_conn c'" by (simp add: safe_conn_def)
qed

lemma wait_idle_continuation_out [simp]: "cn_out (snd (wait_idle_continuation tag c)) = cn_out c"
proof (induction tag c rule: wait_idle_continuation.induct)
  case (1 tag c)
  show ?case
  proof (cases "read_line c")
    case (Pair r c')
    have "cn_out c' = cn_out c" using read_line_out [of c] Pair by simp
    with Pair 1 show ?thesis by (cases r) (simp_all add: wait_idle_continuation.simps [of tag c])
  qed
qed

lemma writes_enter_idle: "writes safe_chunk (enter_idle t)"
  unfolding enter_idle_def Let_def
  by (intro writes_bind_tag writes_bind writes_timeout writes_write_raw command_chunks writes_return
      writes_silent [of "wait_idle_continuation _"]) simp

lemma wait_idle_completion_out: "cn_out (snd (snd (wait_idle_completion tag q c))) = cn_out c"
proof (induction tag q c rule: wait_idle_completion.induct)
  case (1 tag q c)
  show ?case
  proof (cases "read_line c")
    case (Pair r c')
    have out: "cn_out c' = cn_out c" using read_line_out [of c] Pair by simp
    show ?thesis
    proof (cases r)
      case (Value line)
      show ?thesis
      proof (cases "classify_idle_response line tag")
        case (Inr k)
        with 1 Pair Value out show ?thesis
          by (cases k) (simp_all add: wait_idle_completion.simps [of tag q c] split: prod.split, fastforce)
      qed (use Pair Value out in \<open>simp add: wait_idle_completion.simps [of tag q c]\<close>)
    qed (use Pair out in \<open>simp_all add: wait_idle_completion.simps [of tag q c]\<close>)
  qed
qed

lemma finish_idle_safe:
  assumes "finish_idle d tag c = (n, r, c')" "safe_conn c"
  shows "safe_conn c'"
proof -
  let ?w = "with_imap_timeout d ''IDLE DONE'' (write_raw (''DONE'' @ crlf))"
  have "writes safe_chunk ?w" by (intro writes_timeout writes_write_raw command_chunks)
  then have w: "safe_conn c1" if "?w c = (x, c1)" for x c1 using writes_safe assms(2) that by blast
  have comp: "safe_conn c2" if "wait_idle_completion tag False c1 = (m, y, c2)" "safe_conn c1" for c1 m y c2
    using wait_idle_completion_out [of tag False c1] that by (simp add: safe_conn_def)
  show ?thesis
  proof (cases "?w c")
    case (Pair x c1)
    then show ?thesis using assms(1) w [OF Pair] comp
      by (cases x) (auto simp: finish_idle_def split: prod.splits io_result.splits)
  qed
qed

text \<open>No step of the IDLE loop sleeps; it reports readiness at most once and writes safely.\<close>

definition idle_fact :: "idle_state \<Rightarrow> idle_state \<Rightarrow> imap_output list \<Rightarrow> bool" where
  "idle_fact s s' os \<longleftrightarrow> sleeps os = [] \<and>
     (if id_ready s = id_ready s' then readies os = [] else id_ready s \<and> readies os = [Inr ()]) \<and>
     (safe_conn (id_conn s) \<longrightarrow> safe_conn (id_conn s'))"

lemma idle_line_fact: "idle_line t tag r bytes s = (s', os) \<Longrightarrow> idle_fact s s' os"
  by (auto simp: idle_line_def idle_fact_def idle_fail_def Let_def
      split: if_splits sum.splits idle_response.splits)

lemma idle_finish_fact: "idle_finish t tag r s = ((result, s'), os) \<Longrightarrow> idle_fact s s' os"
  by (auto simp: idle_finish_def idle_fact_def split: prod.splits dest: finish_idle_safe)

lemma idle_enter_fact:
  assumes "idle_enter t notify r s = (s', os)"
  shows "idle_fact s s' os"
proof (cases "enter_idle t (id_conn s)")
  case (Pair x c)
  then have "safe_conn (id_conn s) \<Longrightarrow> safe_conn c" using writes_safe writes_enter_idle by blast
  then show ?thesis using assms Pair
    by (cases x) (auto simp: idle_enter_def idle_fact_def idle_fail_def establish_def split: if_splits)
qed

lemma idle_fact_trans:
  "idle_fact s s' os \<Longrightarrow> id_ready s0 = id_ready s \<Longrightarrow> (safe_conn (id_conn s0) \<Longrightarrow> safe_conn (id_conn s))
     \<Longrightarrow> id_ready s1 = id_ready s' \<Longrightarrow> id_conn s1 = id_conn s' \<Longrightarrow> sleeps os' = sleeps os
     \<Longrightarrow> readies os' = readies os \<Longrightarrow> idle_fact s0 s1 os'"
  by (auto simp: idle_fact_def split: if_splits)

lemma idle_fact_silent:
  "id_ready s' = id_ready s \<Longrightarrow> (safe_conn (id_conn s) \<Longrightarrow> safe_conn (id_conn s')) \<Longrightarrow> idle_fact s s' []"
  by (simp add: idle_fact_def)

lemma idle_step_fact:
  assumes "idle_step t notify s i = Some (s', os)"
  shows "idle_fact s s' os"
proof (cases "id_pc s")
  case IdEnter
  with assms obtain b e r where i: "i = EnterIdle b e r" by (cases i) (auto simp: idle_step.simps)
  let ?s = "s\<lparr>id_conn := more_bytes b e (id_conn s)\<rparr>"
  have "idle_enter t notify r ?s = (s', os)" using assms by (simp add: IdEnter i idle_step.simps)
  from idle_fact_trans [OF idle_enter_fact [OF this]] show ?thesis by simp
next
  case (IdWait tag)
  note step = assms [unfolded idle_step.simps IdWait]
  show ?thesis
  proof (cases i)
    case (LineReady r)
    let ?s = "s\<lparr>id_conn := (id_conn s)\<lparr>cn_in := drop (length (line_chunk (cn_in (id_conn s)))) (cn_in (id_conn s))\<rparr>\<rparr>"
    have "idle_line t tag r (id_partial s @ line_chunk (cn_in (id_conn s))) ?s = (s', os)"
      using step by (simp add: LineReady Let_def split: if_splits)
    from idle_fact_trans [OF idle_line_fact [OF this]] show ?thesis by simp
  next
    case (ReadEnds r)
    let ?s = "s\<lparr>id_conn := (id_conn s)\<lparr>cn_in := []\<rparr>\<rparr>"
    have "idle_line t tag r (id_partial s @ cn_in (id_conn s)) ?s = (s', os)"
      using step by (simp add: ReadEnds split: if_splits)
    from idle_fact_trans [OF idle_line_fact [OF this]] show ?thesis by simp
  next
    case (IdleShutdown changed b e r)
    show ?thesis
    proof (cases "asks_stop changed")
      case True
      let ?s = "s\<lparr>id_conn := more_bytes b e (id_conn s)\<rparr>"
      obtain result s1 where f: "idle_finish t tag r ?s = ((result, s1), os)" "s' = s1\<lparr>id_pc := IdOver (Inr EndShutdown)\<rparr>"
        using step True by (auto simp: IdleShutdown split: prod.splits)
      from idle_fact_trans [OF idle_finish_fact [OF f(1)]] show ?thesis by (simp add: f(2))
    qed (use step in \<open>auto simp: IdleShutdown intro: idle_fact_silent\<close>)
  next
    case (IdleRefresh b e r)
    let ?s = "s\<lparr>id_conn := more_bytes b e (id_conn s)\<rparr>"
    obtain result s1 os1 where f: "idle_finish t tag r ?s = ((result, s1), os1)"
      by (metis surj_pair)
    have "id_ready s' = id_ready s1 \<and> id_conn s' = id_conn s1 \<and> sleeps os = sleeps os1 \<and> readies os = readies os1"
      using step f by (cases result) (auto simp: IdleRefresh idle_fail_def)
    with idle_fact_trans [OF idle_finish_fact [OF f]] show ?thesis by simp
  qed (use step in \<open>auto simp: idle_fail_def split: if_splits intro: idle_fact_silent\<close>)
qed (use assms in \<open>auto simp: idle_step.simps\<close>)

section \<open>Invariant of the watch loop\<close>

lemma writes_credentials: "writes P (io_credentials t net)"
proof (rule writes_silent)
  fix c
  show "cn_out (snd (io_credentials t net c)) = cn_out c"
    by (cases "credentials_for (ns_exec net) (mt_account t) (is_helper_timeout (mt_settings t)) (is_helper_max (mt_settings t))")
       (auto simp: io_credentials_def split: sum.split)
qed

lemma writes_handshake:
  assumes "\<And>x. no_crlf (mt_base64 t x)"
  shows "writes safe_chunk (run_mailbox_handshake t net)"
  unfolding run_mailbox_handshake_def Let_def
  by (intro writes_bind_result writes_bind writes_timeout writes_greeting writes_credentials writes_examine
      writes_authenticate assms)

text \<open>How a task that is over left its watcher entry and its readiness channel.\<close>

fun over_mark :: "mailbox_task \<Rightarrow> (imap_error, unit) result \<Rightarrow> imap_output list \<Rightarrow> bool" where
  "over_mark t (Inr _) h \<longleftrightarrow> ends_with h [ImMark (OpMarkWatcher (mt_watcher t) WStopped)]"
| "over_mark t (Inl e) h \<longleftrightarrow> permanent_imap_failure e \<and>
     (ends_with h [ImMark (OpMarkWatcher (mt_watcher t) WCrashed)] \<or>
      ends_with h [ImMark (OpMarkWatcher (mt_watcher t) WCrashed), ImReady (Inl e)])"

definition session_inv :: "mailbox_task \<Rightarrow> bool \<Rightarrow> idle_state \<Rightarrow> bool" where
  "session_inv t ready ids \<longleftrightarrow> id_ready ids = ready \<and>
     ((\<forall>x. no_crlf (mt_base64 t x)) \<longrightarrow> safe_conn (id_conn ids))"

definition ready_ok :: "bool \<Rightarrow> bool \<Rightarrow> imap_output list \<Rightarrow> bool" where
  "ready_ok asked ready h \<longleftrightarrow> (if ready then asked \<and> readies h = [] else length (readies h) = (if asked then 1 else 0))"

definition watch_inv :: "mailbox_task \<Rightarrow> bool \<Rightarrow> watch_state \<Rightarrow> imap_output list \<Rightarrow> bool" where
  "watch_inv t asked s h \<longleftrightarrow> retry.valid (wt_backoff s) \<and> list_all retry.valid (sleeps h) \<and>
     ready_ok asked (wt_ready s) h \<and>
     (case wt_pc s of
        WIdle ids \<Rightarrow> session_inv t (wt_ready s) ids
      | WOver result \<Rightarrow> over_mark t result h
      | _ \<Rightarrow> True)"

lemma watch_inv_start: "watch_inv t asked (watch_init asked) []"
  by (simp add: watch_inv_def watch_init_def retry.valid_first ready_ok_def)

lemma ready_ok_quiet: "ready_ok asked ready h \<Longrightarrow> readies os = [] \<Longrightarrow> ready_ok asked ready (h @ os)"
  by (simp add: ready_ok_def)

lemma watch_stop_inv:
  "watch_inv t asked s h \<Longrightarrow> watch_stop t s = (s', os) \<Longrightarrow> watch_inv t asked s' (h @ os)"
  by (auto simp: watch_inv_def watch_stop_def ready_ok_quiet)

text \<open>What a session leaves behind, whatever the effects of its last step were.\<close>

definition between_inv :: "bool \<Rightarrow> watch_state \<Rightarrow> imap_output list \<Rightarrow> bool" where
  "between_inv asked s h \<longleftrightarrow> retry.valid (wt_backoff s) \<and> list_all retry.valid (sleeps h) \<and> ready_ok asked (wt_ready s) h"

lemma watch_inv_between: "watch_inv t asked s h \<Longrightarrow> between_inv asked s h"
  by (simp add: watch_inv_def between_inv_def)

lemma after_session_inv:
  assumes inv: "between_inv asked s h" and r: "after_session t est result now s = (s', os)"
  shows "watch_inv t asked s' (h @ os)"
proof (cases result)
  case (Inr e)
  with assms show ?thesis
    by (cases e) (auto simp: after_session_def watch_stop_def between_inv_def watch_inv_def retry.valid_first
        ready_ok_quiet)
next
  case (Inl e)
  show ?thesis
  proof (cases "permanent_imap_failure e")
    case True
    with assms Inl show ?thesis
      by (cases "wt_ready s") (auto simp: after_session_def between_inv_def watch_inv_def ready_ok_def)
  next
    case False
    with assms Inl show ?thesis
      by (auto simp: after_session_def between_inv_def watch_inv_def retry.valid_first ready_ok_quiet Let_def)
  qed
qed

lemma idle_step_ready:
  assumes "ready_ok asked ready h" "idle_fact ids ids' os" "id_ready ids = ready"
  shows "ready_ok asked (id_ready ids') (h @ os)"
  using assms by (auto simp: ready_ok_def idle_fact_def split: if_splits)

lemma session_inv_start: "run_mailbox_handshake t net (fresh_conn c) = (r, c') \<Longrightarrow> session_inv t ready (session_start c' ready)"
  using writes_safe [OF writes_handshake, of t "fresh_conn c" net r c']
  by (auto simp: session_inv_def session_start_def safe_conn_def fresh_conn_def)

lemma watch_step_session:
  assumes inv: "watch_inv t asked s h" and pc: "wt_pc s = WIdle ids"
    and step: "watch_step t s (InSession i, now) = Some (s', os)"
  shows "watch_inv t asked s' (h @ os)"
proof -
  obtain ids' os1 where idle: "idle_step t (wt_connected_once s) ids i = Some (ids', os1)"
    using step pc by (auto simp: watch_step.simps split: option.splits)
  have fact: "idle_fact ids ids' os1" by (rule idle_step_fact [OF idle])
  let ?s = "s\<lparr>wt_ready := id_ready ids'\<rparr>"
  have ready: "ready_ok asked (id_ready ids') (h @ os1)"
    using inv pc fact by (intro idle_step_ready) (auto simp: watch_inv_def session_inv_def)
  have between: "between_inv asked ?s (h @ os1)"
    using inv fact ready by (simp add: watch_inv_def between_inv_def idle_fact_def)
  have sess: "session_inv t (id_ready ids') ids'"
    using inv pc fact by (auto simp: watch_inv_def session_inv_def idle_fact_def)
  show ?thesis
  proof (cases "id_pc ids'")
    case (IdOver result)
    obtain s2 os2 where a: "after_session t (id_established ids') result now ?s = (s2, os2)"
      by (cases "after_session t (id_established ids') result now ?s")
    with step pc idle IdOver have "s' = s2" "os = os1 @ os2" by (auto simp: watch_step.simps Let_def)
    with after_session_inv [OF between a] show ?thesis by simp
  qed (use step pc idle between sess in \<open>auto simp: watch_step.simps Let_def watch_inv_def between_inv_def\<close>)
qed

lemma watch_step_handshake:
  assumes inv: "watch_inv t asked s h" and pc: "wt_pc s = WHandshake"
    and step: "watch_step t s (Handshake net c, now) = Some (s', os)"
  shows "watch_inv t asked s' (h @ os)"
proof (cases "run_mailbox_handshake t net (fresh_conn c)")
  case (Pair r c')
  show ?thesis
  proof (cases r)
    case (Value u)
    with Pair step pc inv session_inv_start [OF Pair] show ?thesis
      by (auto simp: watch_step.simps watch_inv_def)
  next
    case (Raised e)
    with Pair step pc have "after_session t False (Inl e) now s = (s', os)" by (simp add: watch_step.simps)
    with after_session_inv watch_inv_between [OF inv] show ?thesis by blast
  qed (use Pair step pc inv in \<open>auto simp: watch_step.simps watch_inv_def\<close>)
qed

lemma watch_step_resume:
  assumes inv: "watch_inv t asked s h" and step: "watch_step t s (Resume, now) = Some (s', os)"
  shows "watch_inv t asked s' (h @ os)"
proof -
  have "after_session t est (Inr EndReconnect) now s = (s', os) \<Longrightarrow> ?thesis" for est
    using after_session_inv watch_inv_between [OF inv] by blast
  with assms show ?thesis
    by (cases "wt_pc s") (auto simp: watch_step.simps watch_inv_def retry.valid_first)
qed

lemma done_interrupted_finish:
  assumes "done_interrupted t bytes r ids = Some os"
  obtains tag result s' where "idle_finish t tag r (ids\<lparr>id_conn := more_bytes bytes PeerStalls (id_conn ids)\<rparr>) = ((result, s'), os)"
proof -
  obtain tag where pc: "id_pc ids = IdWait tag" using assms by (cases "id_pc ids") (auto simp: done_interrupted_def)
  obtain result s' os' where f: "idle_finish t tag r (ids\<lparr>id_conn := more_bytes bytes PeerStalls (id_conn ids)\<rparr>) = ((result, s'), os')"
    by (metis surj_pair)
  have "os' = os"
  proof (cases result)
    case (Raised e)
    with assms pc f show ?thesis by (cases e) (simp_all add: done_interrupted_def)
  qed (use assms pc f in \<open>simp_all add: done_interrupted_def\<close>)
  with f that show ?thesis by blast
qed

lemma done_interrupted_fact:
  assumes "done_interrupted t bytes r ids = Some os"
  shows "sleeps os = []" "readies os = []"
  by (rule done_interrupted_finish [OF assms]; auto simp: idle_finish_def split: prod.splits)+

lemma interrupted_step:
  assumes "watch_step t s (ResumeAtDone bytes r, now) = Some (s', os)"
  obtains ids os1 os2 where "wt_pc s = WIdle ids" "done_interrupted t bytes r ids = Some os1" "os = os1 @ os2"
    "after_session t (id_established ids) (Inr EndReconnect) now s = (s', os2)"
proof -
  obtain ids where "wt_pc s = WIdle ids" using assms by (cases "wt_pc s") (auto simp: watch_step.simps)
  moreover obtain s2 os2 where "after_session t (id_established ids) (Inr EndReconnect) now s = (s2, os2)" by fastforce
  ultimately show ?thesis using assms that by (auto simp: watch_step.simps)
qed

lemma watch_step_interrupted:
  assumes inv: "watch_inv t asked s h" and step: "watch_step t s (ResumeAtDone bytes r, now) = Some (s', os)"
  shows "watch_inv t asked s' (h @ os)"
proof (rule interrupted_step [OF step])
  fix ids os1 os2
  assume d: "done_interrupted t bytes r ids = Some os1" "os = os1 @ os2"
    "after_session t (id_established ids) (Inr EndReconnect) now s = (s', os2)"
  have "between_inv asked s (h @ os1)"
    using watch_inv_between [OF inv] done_interrupted_fact [OF d(1)] by (simp add: between_inv_def ready_ok_quiet)
  from after_session_inv [OF this d(3)] d(2) show ?thesis by simp
qed

lemma watch_step_inv:
  assumes inv: "watch_inv t asked s h" and step: "watch_step t s io = Some (s', os)"
  shows "watch_inv t asked s' (h @ os)"
proof (cases io)
  case (Pair i now)
  note step' = step [unfolded Pair]
  have retry_now: "watch_inv t asked (retry_now s) h"
    using inv retry.valid_grow by (simp add: watch_inv_def retry_now_def)
  show ?thesis
  proof (cases i)
    case (Handshake net c)
    have "wt_pc s = WHandshake" using step' Handshake by (cases "wt_pc s") (auto simp: watch_step.simps)
    with watch_step_handshake inv step' Handshake show ?thesis by blast
  next
    case (InSession i')
    obtain ids where "wt_pc s = WIdle ids" using step' InSession by (cases "wt_pc s") (auto simp: watch_step.simps)
    with watch_step_session inv step' InSession show ?thesis by blast
  next
    case Resume
    with watch_step_resume inv step' show ?thesis by blast
  next
    case (ResumeAtDone bytes r)
    with watch_step_interrupted inv step' show ?thesis by blast
  next
    case (LoopTop stop)
    with step' inv watch_stop_inv [OF inv] show ?thesis
      by (cases "wt_pc s") (auto simp: watch_step.simps watch_inv_def ready_ok_quiet split: if_splits)
  next
    case RetryTimer
    with step' inv retry_now show ?thesis
      by (cases "wt_pc s") (auto simp: watch_step.simps split: if_splits)
  next
    case (RetryShutdown changed)
    with step' inv retry_now watch_stop_inv [OF inv] show ?thesis
      by (cases "wt_pc s") (auto simp: watch_step.simps split: if_splits)
  qed
qed

definition watch_final :: "watch_state \<Rightarrow> bool" where
  "watch_final s \<longleftrightarrow> (case wt_pc s of WOver _ \<Rightarrow> True | WPanicked \<Rightarrow> True | _ \<Rightarrow> False)"

interpretation watcher: halting_machine "watch_step t" "watch_init asked" "watch_inv t asked" watch_final
proof
  show "watch_inv t asked (watch_init asked) []" by (rule watch_inv_start)
  show "watch_inv t asked s h \<Longrightarrow> watch_step t s i = Some (s', os) \<Longrightarrow> watch_inv t asked s' (h @ os)" for s h i s' os
    by (rule watch_step_inv)
  show "watch_final s \<Longrightarrow> watch_step t s i = None" for s i
    by (cases i) (auto simp: watch_final_def watch_step.simps split: watch_pc.splits)
qed

section \<open>Lines of an IDLE session\<close>

text \<open>The complete lines of a byte stream.\<close>

function stream_lines :: "string \<Rightarrow> string list" where
  "stream_lines s = (if LF \<in> set s then line_chunk s # stream_lines (drop (length (line_chunk s)) s) else [])"
  by pat_completeness auto

lemma line_chunk_nonempty: "s \<noteq> [] \<Longrightarrow> 0 < length (line_chunk s)"
  by (cases s) auto

termination stream_lines
proof (relation "measure length")
  fix s :: string assume "LF \<in> set s"
  then have "s \<noteq> []" by auto
  with line_chunk_nonempty [OF this] show "(drop (length (line_chunk s)) s, s) \<in> measure length"
    by (cases s) auto
qed simp

declare stream_lines.simps [simp del]

fun reading :: "idle_input \<Rightarrow> bool" where
  "reading (Arrive b) = True"
| "reading PollRead = True"
| "reading (LineReady r) = True"
| "reading _ = False"

fun arrived :: "idle_input list \<Rightarrow> string" where
  "arrived [] = []"
| "arrived (Arrive b # ins) = b @ arrived ins"
| "arrived (_ # ins) = arrived ins"

fun lines_read :: "idle_input list \<Rightarrow> nat" where
  "lines_read [] = 0"
| "lines_read (LineReady r # ins) = Suc (lines_read ins)"
| "lines_read (_ # ins) = lines_read ins"

definition is_change :: "string \<Rightarrow> string \<Rightarrow> bool" where
  "is_change tag line \<longleftrightarrow> classify_idle_response (trim_line line) tag = Inr IdleMailboxChange"

lemma line_chunk_append: "LF \<notin> set a \<Longrightarrow> line_chunk (a @ b) = a @ line_chunk b"
  by (induction a) auto

lemma line_chunk_more: "LF \<in> set a \<Longrightarrow> line_chunk (a @ b) = line_chunk a"
  by (induction a) auto

lemma stream_lines_step:
  assumes "LF \<notin> set p" "LF \<in> set a"
  shows "stream_lines (p @ a @ b) = (p @ line_chunk a) # stream_lines (drop (length (line_chunk a)) a @ b)"
proof -
  have c: "line_chunk (p @ a @ b) = p @ line_chunk a"
    by (simp add: line_chunk_append [OF assms(1)] line_chunk_more [OF assms(2)])
  have "length (line_chunk a) \<le> length a"
    using line_chunk_prefix [of a] by (metis length_append le_add1)
  with assms c show ?thesis by (subst stream_lines.simps) simp
qed

lemma idle_stuck: "reading i \<Longrightarrow> \<forall>tag. id_pc s \<noteq> IdWait tag \<Longrightarrow> idle_step t n s i = None"
  by (cases "id_pc s"; cases i) (auto simp: idle_step.simps)

lemma idle_line_stays:
  assumes "idle_line t tag r bytes s = (s', os)" "id_pc s = IdWait tag" "id_pc s' = IdWait tag'"
  shows "tag' = tag \<and> id_partial s' = [] \<and> id_conn s' = id_conn s \<and> queued_events os = (if is_change tag bytes then 1 else 0)"
  using assms by (auto simp: idle_line_def idle_fail_def is_change_def Let_def
      split: if_splits sum.splits idle_response.splits)

lemma idle_reading:
  assumes "run_machine (idle_step t n) s ins = Some (s', os)" "\<forall>i \<in> set ins. reading i"
    "id_pc s = IdWait tag" "id_pc s' = IdWait tag" "LF \<notin> set (id_partial s)"
  shows "queued_events os = length (filter (is_change tag)
     (take (lines_read ins) (stream_lines (id_partial s @ cn_in (id_conn s) @ arrived ins))))"
  using assms
proof (induction ins arbitrary: s os)
  case (Cons i ins)
  from Cons.prems(1) obtain s1 o1 o2 where step: "idle_step t n s i = Some (s1, o1)"
    and rest: "run_machine (idle_step t n) s1 ins = Some (s', o2)" "os = o1 @ o2"
    by (auto split: option.splits)
  have stays: "\<exists>tag'. id_pc s1 = IdWait tag'"
  proof (rule ccontr)
    assume no: "\<nexists>tag'. id_pc s1 = IdWait tag'"
    show False
    proof (cases ins)
      case Nil
      with rest no Cons.prems(4) show False by simp
    next
      case (Cons j js)
      with idle_stuck [of j s1 t n] Cons.prems(2) rest no show False by auto
    qed
  qed
  show ?case
  proof (cases i)
    case (Arrive b)
    with step Cons.prems Cons.IH [OF rest(1)] rest(2) show ?thesis by (auto simp: idle_step.simps more_bytes_def)
  next
    case PollRead
    with step Cons.prems Cons.IH [OF rest(1)] rest(2) show ?thesis by (auto simp: idle_step.simps split: if_splits)
  next
    case (LineReady r)
    let ?in = "cn_in (id_conn s)" and ?p = "id_partial s"
    let ?s = "s\<lparr>id_conn := (id_conn s)\<lparr>cn_in := drop (length (line_chunk ?in)) ?in\<rparr>\<rparr>"
    have lf: "LF \<in> set ?in" and line: "idle_line t tag r (?p @ line_chunk ?in) ?s = (s1, o1)"
      using step LineReady Cons.prems(3) by (auto simp: idle_step.simps Let_def split: if_splits)
    from stays obtain tag' where "id_pc s1 = IdWait tag'" by blast
    with idle_line_stays [OF line, of tag'] Cons.prems(3)
    have s1: "id_pc s1 = IdWait tag" "id_partial s1 = []" "cn_in (id_conn s1) = drop (length (line_chunk ?in)) ?in"
      "queued_events o1 = (if is_change tag (?p @ line_chunk ?in) then 1 else 0)" by auto
    have "queued_events o2 = length (filter (is_change tag)
        (take (lines_read ins) (stream_lines (drop (length (line_chunk ?in)) ?in @ arrived ins))))"
      using Cons.IH [OF rest(1)] s1 Cons.prems by simp
    with s1(4) rest(2) LineReady show ?thesis
      by (simp add: stream_lines_step [OF Cons.prems(5) lf])
  qed (use Cons.prems(2) in auto)
qed simp

section \<open>Retry schedule\<close>

definition attempt_fails :: "mailbox_task \<Rightarrow> net_script \<times> conn \<Rightarrow> bool" where
  "attempt_fails t a = (case run_mailbox_handshake t (fst a) (fresh_conn (snd a)) of
     (Raised e, _) \<Rightarrow> \<not> permanent_imap_failure e
   | _ \<Rightarrow> False)"

text \<open>The observations of consecutive attempts, each retried when its timer fires.\<close>

fun attempts :: "instant \<Rightarrow> duration \<Rightarrow> (net_script \<times> conn) list \<Rightarrow> (watch_input \<times> instant) list" where
  "attempts now b [] = []"
| "attempts now b (a # rest) = (LoopTop False, now) # (Handshake (fst a) (snd a), now) # (RetryTimer, now + b) #
     attempts (now + b) (next_backoff b) rest"

lemma attempt_run:
  assumes "attempt_fails t a" "wt_pc s = WLoop" "wt_backoff s = b"
  obtains s1 os where "run_machine (watch_step t) s [(LoopTop False, now), (Handshake (fst a) (snd a), now), (RetryTimer, now + b)]
      = Some (s1, os)" "wt_pc s1 = WLoop" "wt_backoff s1 = next_backoff b" "sleeps os = [b]" "readies os = []"
proof -
  obtain e c' where "run_mailbox_handshake t (fst a) (fresh_conn (snd a)) = (Raised e, c')" "\<not> permanent_imap_failure e"
    using assms(1) by (auto simp: attempt_fails_def split: prod.splits io_result.splits)
  with assms(2,3) show ?thesis
    by (intro that [of "s\<lparr>wt_connected_once := wt_connected_once s, wt_backoff := next_backoff b, wt_pc := WLoop\<rparr>"
          "[ImMark (OpMarkWatcher (mt_watcher t) WConnecting), ImMark (OpMarkWatcher (mt_watcher t) WReconnecting), ImSleep b]"])
       (simp_all add: watch_step.simps after_session_def retry_now_def Let_def)
qed

lemma attempts_run:
  assumes "list_all (attempt_fails t) as" "wt_pc s = WLoop" "wt_backoff s = (next_backoff ^^ k) INITIAL_BACKOFF"
  shows "\<exists>s' os. run_machine (watch_step t) s (attempts now (wt_backoff s) as) = Some (s', os) \<and>
     sleeps os = map (\<lambda>i. (next_backoff ^^ i) INITIAL_BACKOFF) [k..<k + length as] \<and> readies os = []"
  using assms
proof (induction as arbitrary: s k now)
  case (Cons a as)
  let ?b = "wt_backoff s"
  obtain s1 os1 where one: "run_machine (watch_step t) s [(LoopTop False, now), (Handshake (fst a) (snd a), now), (RetryTimer, now + ?b)]
      = Some (s1, os1)" "wt_pc s1 = WLoop" "wt_backoff s1 = next_backoff ?b" "sleeps os1 = [?b]" "readies os1 = []"
    using attempt_run [of t a s ?b now] Cons.prems by auto
  have "wt_backoff s1 = (next_backoff ^^ Suc k) INITIAL_BACKOFF" using one(3) Cons.prems(3) by simp
  with Cons.IH [of s1 "Suc k" "now + ?b"] Cons.prems(1) one obtain s2 os2 where
    two: "run_machine (watch_step t) s1 (attempts (now + ?b) (next_backoff ?b) as) = Some (s2, os2)"
      "sleeps os2 = map (\<lambda>i. (next_backoff ^^ i) INITIAL_BACKOFF) [Suc k..<Suc k + length as]" "readies os2 = []"
    by auto
  have "attempts now ?b (a # as) = [(LoopTop False, now), (Handshake (fst a) (snd a), now), (RetryTimer, now + ?b)] @
      attempts (now + ?b) (next_backoff ?b) as" by simp
  then have "run_machine (watch_step t) s (attempts now ?b (a # as)) = Some (s2, os1 @ os2)"
    using one(1) two(1) by (simp only: run_append) (simp add: apsnd_def)
  moreover have "[k..<k + length (a # as)] = k # [Suc k..<Suc k + length as]" by (simp add: upt_rec)
  ultimately show ?case using one two Cons.prems(3) by simp
qed simp

section \<open>Properties\<close>

text \<open>A failed readiness answer is always a permanent authentication failure.\<close>

lemma in_readies: "ImReady r \<in> set os \<Longrightarrow> r \<in> set (readies os)"
  by (induction os rule: readies.induct) auto

lemma after_session_ready:
  "after_session t est result now s = (s', os) \<Longrightarrow> ImReady (Inl e) \<in> set os \<Longrightarrow> permanent_imap_failure e"
  by (auto simp: after_session_def watch_stop_def Let_def split: sum.splits run_end.splits if_splits)

lemma watch_ready_error:
  assumes "watch_step t s (i, now) = Some (s', os)" "ImReady (Inl e) \<in> set os"
  shows "permanent_imap_failure e"
proof (cases "\<exists>ids i'. wt_pc s = WIdle ids \<and> i = InSession i'")
  case True
  then obtain ids i' where pc: "wt_pc s = WIdle ids" "i = InSession i'" by blast
  then obtain ids' os1 where idle: "idle_step t (wt_connected_once s) ids i' = Some (ids', os1)"
    using assms(1) by (auto simp: watch_step.simps split: option.splits)
  have "Inl e \<notin> set (readies os1)" using idle_step_fact [OF idle] by (auto simp: idle_fact_def split: if_splits)
  then have quiet: "ImReady (Inl e) \<notin> set os1" using in_readies by blast
  show ?thesis
  proof (cases "id_pc ids'")
    case (IdOver result)
    with assms pc idle quiet show ?thesis
      by (auto simp: watch_step.simps Let_def split: prod.splits dest: after_session_ready)
  qed (use assms pc idle quiet in \<open>auto simp: watch_step.simps Let_def\<close>)
next
  case False
  show ?thesis
  proof (cases "\<exists>bytes r. i = ResumeAtDone bytes r")
    case True
    then obtain bytes r where i: "i = ResumeAtDone bytes r" by blast
    show ?thesis
    proof (rule interrupted_step [OF assms(1) [unfolded i]])
      fix ids os1 os2
      assume d: "done_interrupted t bytes r ids = Some os1" "os = os1 @ os2"
        "after_session t (id_established ids) (Inr EndReconnect) now s = (s', os2)"
      have "ImReady (Inl e) \<notin> set os1" using in_readies [of "Inl e" os1] done_interrupted_fact(2) [OF d(1)] by auto
      with assms(2) d(2) after_session_ready [OF d(3)] show ?thesis by simp
    qed
  next
    case more: False
    with assms False show ?thesis
      by (cases "wt_pc s"; cases i)
         (auto simp: watch_step.simps watch_stop_def split: prod.splits io_result.splits if_splits dest: after_session_ready)
  qed
qed

lemma ready_error_permanent:
  assumes "run_machine (watch_step t) (watch_init asked) ins = Some (s, h)" "ImReady (Inl e) \<in> set h"
  shows "permanent_imap_failure e"
proof -
  obtain s1 i now s2 os where "watch_step t s1 (i, now) = Some (s2, os)" "ImReady (Inl e) \<in> set os"
    using run_effect [OF assms] by (metis surj_pair)
  then show ?thesis by (rule watch_ready_error)
qed

text \<open>The observations that ask the watcher to stop.\<close>

fun watch_stop_asked :: "watch_input \<Rightarrow> bool" where
  "watch_stop_asked (LoopTop stop) = stop"
| "watch_stop_asked (RetryShutdown changed) = asks_stop changed"
| "watch_stop_asked (InSession (IdleShutdown changed bytes e r)) = asks_stop changed"
| "watch_stop_asked _ = False"

lemma idle_line_over: "idle_line t tag r bytes s = (s', os) \<Longrightarrow> id_pc s = IdWait k \<Longrightarrow> id_pc s' \<noteq> IdOver (Inr e)"
  by (auto simp: idle_line_def idle_fail_def Let_def split: if_splits sum.splits idle_response.splits)

lemma idle_over_asked:
  assumes "idle_step t notify ids i = Some (ids', os)" "id_pc ids' = IdOver (Inr e)"
  shows "watch_stop_asked (InSession i)"
proof (cases "id_pc ids")
  case IdEnter
  with assms show ?thesis
    by (cases i) (auto simp: idle_step.simps idle_enter_def establish_def idle_fail_def
        split: prod.splits io_result.splits if_splits)
next
  case (IdWait tag)
  show ?thesis
  proof (cases i)
    case (LineReady r)
    with assms IdWait idle_line_over show ?thesis
      by (auto simp: idle_step.simps Let_def split: if_splits)
  qed (use assms IdWait idle_line_over in \<open>auto simp: idle_step.simps idle_fail_def split: prod.splits io_result.splits if_splits\<close>)
qed (use assms in \<open>simp_all add: idle_step.simps\<close>)

lemma after_session_stop:
  "after_session t est result now s = (s', os) \<Longrightarrow> wt_pc s' = WOver (Inr u) \<Longrightarrow> result = Inr EndShutdown"
  by (auto simp: after_session_def Let_def split: sum.splits run_end.splits if_splits)

lemma watch_over_asked:
  assumes "watch_step t s (i, now) = Some (s', os)" "wt_pc s' = WOver (Inr u)"
  shows "watch_stop_asked i"
proof (cases "\<exists>ids i'. wt_pc s = WIdle ids \<and> i = InSession i'")
  case True
  then obtain ids i' where pc: "wt_pc s = WIdle ids" "i = InSession i'" by blast
  then obtain ids' os1 where idle: "idle_step t (wt_connected_once s) ids i' = Some (ids', os1)"
    using assms(1) by (auto simp: watch_step.simps split: option.splits)
  show ?thesis
  proof (cases "id_pc ids'")
    case (IdOver result)
    with assms pc idle have "result = Inr EndShutdown"
      by (auto simp: watch_step.simps Let_def split: prod.splits dest: after_session_stop)
    with idle_over_asked [OF idle] IdOver pc(2) show ?thesis by simp
  qed (use assms pc idle in \<open>auto simp: watch_step.simps Let_def\<close>)
next
  case False
  with assms show ?thesis
    by (cases "wt_pc s"; cases i)
       (auto simp: watch_step.simps watch_stop_def retry_now_def after_session_def Let_def
         split: prod.splits io_result.splits if_splits)
qed

text \<open>
  C29. The watcher never gives up on a network failure: whatever the server, the network, the
  timers and the resume source do, every retry delay is between one second and five minutes,
  readiness is reported at most once (and has been when the channel is gone), everything
  written to the server is free of injected line endings, and the task is over only by an
  observation that asks it to stop (the stop flag at the loop's top, or a change of it that is
  set, during IDLE or a retry sleep), with its entry marked stopped, or after a permanent
  authentication failure, with its entry marked crashed.
\<close>

theorem watcher_run_sound:
  assumes "run_machine (watch_step t) (watch_init asked) ins = Some (s, h)"
  shows "list_all (\<lambda>d. secs 1 \<le> d \<and> d \<le> secs 300) (sleeps h) \<and>
    length (readies h) = (if asked \<and> \<not> wt_ready s then 1 else 0) \<and>
    (case wt_pc s of
       WIdle ids \<Rightarrow> (\<forall>x. no_crlf (mt_base64 t x)) \<longrightarrow> list_all safe_chunk (cn_out (id_conn ids))
     | WOver (Inr u) \<Rightarrow> over_mark t (Inr u) h \<and> watch_stop_asked (fst (List.last ins))
     | WOver (Inl e) \<Rightarrow> over_mark t (Inl e) h
     | _ \<Rightarrow> True)"
proof -
  note inv = watcher.run_inv [OF assms, unfolded watch_inv_def retry_valid_bounds]
  then have ready: "length (readies h) = (if asked \<and> \<not> wt_ready s then 1 else 0)"
    by (auto simp: ready_ok_def split: if_splits)
  have "watch_stop_asked (fst (List.last ins))" if "wt_pc s = WOver (Inr u)" for u
  proof (cases ins rule: rev_cases)
    case Nil
    with assms that show ?thesis by (auto simp: watch_init_def)
  next
    case (snoc js i)
    then obtain s1 h1 os where "watch_step t s1 i = Some (s, os)" using assms by (auto simp: run_snoc)
    with watch_over_asked [of t s1 "fst i" "snd i"] that snoc show ?thesis by simp
  qed
  with inv ready show ?thesis
    by (cases "wt_pc s") (auto simp: session_inv_def safe_conn_def retry_valid_bounds split: sum.split)
qed

definition demo_task :: mailbox_task where
  "demo_task = \<lparr>mt_account = demo_account, mt_mailbox = \<lparr>mb_name = ''INBOX'', mb_on_notify = ''true'', mb_debounce_seconds = None\<rparr>,
     mt_watcher = ''w'', mt_settings = \<lparr>is_idle_refresh = secs 1740, is_helper_timeout = secs 60, is_helper_max = 4096,
       is_connect_timeout = secs 30, is_operation_timeout = secs 60\<rparr>, mt_base64 = \<lambda>_. []\<rparr>"

definition demo_net :: net_script where
  "demo_net = \<lparr>ns_tcp = NetStalls, ns_tls_builder = NetOk, ns_tls = NetOk, ns_exec = \<lambda>_. None\<rparr>"

lemma demo_handshake:
  "run_mailbox_handshake demo_task demo_net c = (Raised (OperationTimedOut ''TCP connect'' 30), c)"
proof -
  have "no_crlf ''u''" "no_crlf ''INBOX''" by (simp_all add: literal_no_crlf)
  then show ?thesis
    by (simp add: run_mailbox_handshake_def demo_task_def demo_account_def demo_net_def connect_def io_bind_def
        io_of_result_def io_return_def io_raise_def validate_imap_string_def as_secs_def secs_def Let_def)
qed

lemma watcher_run_sound_witness:
  "over_mark demo_task (Inr ()) [ImMark (OpMarkWatcher ''w'' WConnecting), ImMark (OpMarkWatcher ''w'' WReconnecting),
     ImSleep INITIAL_BACKOFF, ImMark (OpMarkWatcher ''w'' WStopped)]"
proof -
  have "run_machine (watch_step demo_task) (watch_init True)
      [(LoopTop False, 0), (Handshake demo_net demo_conn, 0), (RetryShutdown (Changed True), 5)] =
    Some (\<lparr>wt_pc = WOver (Inr ()), wt_backoff = INITIAL_BACKOFF, wt_connected_once = False, wt_ready = True\<rparr>,
      [ImMark (OpMarkWatcher ''w'' WConnecting), ImMark (OpMarkWatcher ''w'' WReconnecting),
       ImSleep INITIAL_BACKOFF, ImMark (OpMarkWatcher ''w'' WStopped)])"
    by (simp add: watch_step.simps watch_init_def demo_handshake after_session_def watch_stop_def Let_def)
       (simp add: demo_task_def)
  from watcher_run_sound [OF this] show ?thesis by simp
qed

text \<open>
  Consecutive failed attempts are retried with doubling delays: the i-th delay is
  \<open>2 ^ i\<close> seconds, capped at five minutes, and a failure reports nothing as ready.
\<close>

lemma retry_delays_double:
  assumes "list_all (attempt_fails t) as"
  shows "\<exists>s h. run_machine (watch_step t) (watch_init asked) (attempts now INITIAL_BACKOFF as) = Some (s, h) \<and>
     sleeps h = map (\<lambda>i. min (2 ^ i * secs 1) (secs 300)) [0..<length as] \<and> readies h = []"
proof -
  have "(next_backoff ^^ i) INITIAL_BACKOFF = min (2 ^ i * secs 1) (secs 300)" for i
    using retry.grow_pow [of i] unfolding INITIAL_BACKOFF_def MAX_BACKOFF_def .
  with attempts_run [OF assms, of "watch_init asked" 0 now] show ?thesis
    by (simp add: watch_init_def)
qed

text \<open>
  C30. The IDLE loop does not depend on how the network splits the stream: while lines are only
  read (no refresh, no shutdown wake), the events queued are exactly the mailbox changes among
  the complete lines read so far, however the bytes arrived and were polled.
\<close>

theorem idle_reads_every_change:
  assumes "run_machine (idle_step t n) s ins = Some (s', os)" "\<forall>i \<in> set ins. reading i"
    "id_pc s = IdWait tag" "id_pc s' = IdWait tag" "id_partial s = []"
  shows "queued_events os = length (filter (\<lambda>line. classify_idle_response (trim_line line) tag = Inr IdleMailboxChange)
     (take (lines_read ins) (stream_lines (cn_in (id_conn s) @ arrived ins))))"
proof -
  have "is_change tag = (\<lambda>line. classify_idle_response (trim_line line) tag = Inr IdleMailboxChange)"
    by (simp add: fun_eq_iff is_change_def)
  with idle_reading [OF assms(1-4)] assms(5) show ?thesis by simp
qed

definition idling :: "string \<Rightarrow> idle_state" where
  "idling bytes = \<lparr>id_pc = IdWait ''A0001'', id_conn = \<lparr>cn_in = bytes, cn_end = PeerStalls, cn_writes = 1, cn_write_end = WriteStalls, cn_out = [], cn_tag = 1\<rparr>,
     id_partial = [], id_established = True, id_ready = False\<rparr>"

lemma demo_change: "classify_idle_response ''* 1 EXISTS'' (CHR ''A'' # tag) = Inr IdleMailboxChange"
  by (simp add: classify_idle_response_def is_tagged_ok_def is_tagged_completion_def tagged_rest_def is_mailbox_change_def
      to_ascii_uppercase_def upper_char_def starts_with_def Let_def)

lemma demo_other: "classify_idle_response ''STS'' (CHR ''A'' # tag) = Inr IdleOther"
  by (simp add: classify_idle_response_def is_tagged_ok_def is_tagged_completion_def tagged_rest_def is_mailbox_change_def
      to_ascii_uppercase_def upper_char_def starts_with_def Let_def)

lemma demo_completed: "classify_idle_response ''A0001 OK done'' ''A0001'' = Inr IdleCompleted"
  by (simp add: classify_idle_response_def demo_ok to_ascii_uppercase_def upper_char_def starts_with_def Let_def)

lemma demo_trim: "trim_line (''* 1 EXISTS'' @ [CR, LF]) = ''* 1 EXISTS''" "trim_line (''STS'' @ [CR, LF]) = ''STS''"
  by (simp_all add: trim_line_def trim_end_crlf_def is_crlf_def CR_def LF_def)

lemma demo_utf8: "utf8_valid (''* 1 EXISTS'' @ [CR, LF])" "utf8_valid (''STS'' @ [CR, LF])"
  by (simp_all add: byte_in_def CR_def LF_def)

definition half_line :: string where "half_line = ''* 1 EXI''"
definition line_rest :: string where "line_rest = ''STS'' @ [CR, LF]"

lemma half_line_joined: "half_line @ line_rest = ''* 1 EXISTS'' @ [CR, LF]"
  by (simp add: half_line_def line_rest_def)

lemma half_line_no_lf: "LF \<notin> set half_line" "half_line \<noteq> []"
  by (simp_all add: half_line_def LF_def)

lemma line_rest_chunk: "LF \<in> set line_rest" "line_chunk line_rest = line_rest"
  by (simp_all add: line_rest_def CR_def LF_def)

lemma demo_idle_line:
  "idle_line t ''A0001'' r (half_line @ line_rest) s = (s\<lparr>id_partial := []\<rparr>, mark_idling t @ queue_mailbox_event r)"
  unfolding half_line_joined by (simp add: idle_line_def demo_trim demo_utf8 demo_change del: append.simps)

lemma demo_split_read:
  "run_machine (idle_step t n) (idling []) [Arrive half_line, PollRead, Arrive line_rest, LineReady r] =
     Some (idling [], mark_idling t @ queue_mailbox_event r)"
  by (simp add: idle_step.simps idling_def more_bytes_def half_line_no_lf line_rest_chunk demo_idle_line)

lemma idle_reads_every_change_witness:
  "length (filter (\<lambda>line. classify_idle_response (trim_line line) ''A0001'' = Inr IdleMailboxChange)
     (take 1 (stream_lines (half_line @ line_rest)))) = 1"
proof -
  have "queued_events (mark_idling t @ queue_mailbox_event SendOk) = 1" for t by simp
  moreover have "id_pc (idling []) = IdWait ''A0001''" "id_partial (idling []) = []" "cn_in (id_conn (idling [])) = []"
    by (simp_all add: idling_def)
  ultimately show ?thesis
    using idle_reads_every_change [OF demo_split_read [of demo_task True SendOk], of "''A0001''"] by simp
qed

lemma read_text_line:
  assumes "no_crlf w" "utf8_valid (w @ [CR, LF])" "length w < 1000" "cn_in c = w @ [CR, LF] @ rest"
  shows "read_line c = (Value w, c\<lparr>cn_in := rest\<rparr>)"
proof -
  have "\<not> is_crlf (last w)" if "w \<noteq> []" using assms(1) that by (simp add: no_crlf_iff)
  then have "trim_line ((w @ [CR]) @ [LF]) = w"
    by (cases w rule: rev_cases) (simp_all add: trim_line_def trim_end_crlf_def is_crlf_def)
  moreover have "cn_in c = (w @ [CR]) @ LF # rest" by (simp add: assms(4))
  moreover have "LF \<notin> set (w @ [CR])" using assms(1) by (auto simp: no_crlf_iff is_crlf_def CR_def LF_def)
  moreover have "length (w @ [CR]) < MAX_RESPONSE_LINE_BYTES" using assms(3) by (simp add: MAX_RESPONSE_LINE_BYTES_def)
  moreover have "utf8_valid ((w @ [CR]) @ [LF])" using assms(2) by simp
  ultimately show ?thesis using read_line_line by metis
qed

lemma demo_lines: "no_crlf ''* 1 EXISTS''" "no_crlf ''STS''" "no_crlf ''A0001 OK done''" "no_crlf ''+ idling''"
  "utf8_valid (''A0001 OK done'' @ [CR, LF])" "utf8_valid (''+ idling'' @ [CR, LF])"
  by (simp_all add: literal_no_crlf byte_in_def)

lemma demo_finish:
  assumes "cn_in c = ''A0001 OK done'' @ [CR, LF]" "cn_writes c = Suc k"
  shows "\<exists>c'. finish_idle d ''A0001'' c = (0, Value (), c')"
proof -
  let ?c = "c\<lparr>cn_writes := k, cn_out := cn_out c @ [''DONE'' @ crlf]\<rparr>"
  have "read_line ?c = (Value ''A0001 OK done'', ?c\<lparr>cn_in := []\<rparr>)"
    by (rule read_text_line) (simp_all only: demo_lines, simp_all add: assms(1))
  then have "wait_idle_completion ''A0001'' False ?c = (0, Value (), ?c\<lparr>cn_in := []\<rparr>)"
    by (subst wait_idle_completion.simps) (simp add: demo_completed)
  then show ?thesis using assms(2) by (simp add: finish_idle_def with_imap_timeout_def write_raw_def)
qed

lemma demo_finish_rest:
  assumes "cn_in c = line_rest @ ''A0001 OK done'' @ [CR, LF]" "cn_writes c = Suc k"
  shows "\<exists>c'. finish_idle d ''A0001'' c = (0, Value (), c')"
proof -
  let ?c = "c\<lparr>cn_writes := k, cn_out := cn_out c @ [''DONE'' @ crlf]\<rparr>"
  let ?c1 = "?c\<lparr>cn_in := ''A0001 OK done'' @ [CR, LF]\<rparr>"
  have "read_line ?c = (Value ''STS'', ?c1)"
    by (rule read_text_line) (simp_all only: demo_lines demo_utf8, simp_all add: assms(1) line_rest_def)
  moreover have "read_line ?c1 = (Value ''A0001 OK done'', ?c1\<lparr>cn_in := []\<rparr>)"
    by (rule read_text_line) (simp_all only: demo_lines, simp_all)
  ultimately have "wait_idle_completion ''A0001'' False ?c = (0, Value (), ?c1\<lparr>cn_in := []\<rparr>)"
    by (subst wait_idle_completion.simps, subst wait_idle_completion.simps) (simp add: demo_completed demo_other)
  then show ?thesis using assms(2) by (simp add: finish_idle_def with_imap_timeout_def write_raw_def)
qed

lemma demo_continuation:
  assumes "cn_in c = half_line @ line_rest @ ''+ idling'' @ [CR, LF]"
  shows "wait_idle_continuation (CHR ''A'' # tag) c = (Value (), c\<lparr>cn_in := []\<rparr>)"
proof -
  let ?c1 = "c\<lparr>cn_in := ''+ idling'' @ [CR, LF]\<rparr>"
  have "read_line c = (Value ''* 1 EXISTS'', ?c1)"
    by (rule read_text_line) (simp_all only: demo_lines demo_utf8, simp_all add: assms half_line_def line_rest_def)
  moreover have "read_line ?c1 = (Value ''+ idling'', ?c1\<lparr>cn_in := []\<rparr>)"
    by (rule read_text_line) (simp_all only: demo_lines, simp_all)
  ultimately show ?thesis
    by (subst wait_idle_continuation.simps, subst wait_idle_continuation.simps)
       (simp add: starts_with_def is_tagged_completion_def tagged_rest_def)
qed

text \<open>
  C31. Two ways the IDLE loop misses a change. If the refresh timer fires while a line has
  arrived only in part, the part already read is dropped with the read and the change is never
  queued, although the same bytes without the refresh queue it. And a change the server
  reports between the IDLE command and its continuation is read and ignored.
\<close>

theorem idle_can_miss_changes:
  "(\<exists>s os. run_machine (idle_step t n) (idling [])
       [Arrive half_line, PollRead, IdleRefresh (line_rest @ ''A0001 OK done'' @ [CR, LF]) PeerStalls SendOk] = Some (s, os) \<and>
      id_pc s = IdEnter \<and> queued_events os = 0) \<and>
   (\<exists>s os. run_machine (idle_step t n) (idling [])
       [Arrive half_line, PollRead, Arrive line_rest, LineReady SendOk,
        IdleRefresh (''A0001 OK done'' @ [CR, LF]) PeerStalls SendOk] = Some (s, os) \<and>
      id_pc s = IdEnter \<and> queued_events os = 1) \<and>
   (\<exists>s os. idle_step t n ((idling [])\<lparr>id_pc := IdEnter\<rparr>)
       (EnterIdle (half_line @ line_rest @ ''+ idling'' @ [CR, LF]) PeerStalls SendOk) = Some (s, os) \<and>
      (\<exists>tag. id_pc s = IdWait tag) \<and> cn_in (id_conn s) = [] \<and> queued_events os = 0)"
proof -
  let ?done = "''A0001 OK done'' @ [CR, LF]"
  have a: "\<exists>s os. run_machine (idle_step t n) (idling [])
       [Arrive half_line, PollRead, IdleRefresh (line_rest @ ?done) PeerStalls SendOk] = Some (s, os) \<and>
      id_pc s = IdEnter \<and> queued_events os = 0"
    using demo_finish_rest [of "\<lparr>cn_in = line_rest @ ?done, cn_end = PeerStalls, cn_writes = Suc 0, cn_write_end = WriteStalls, cn_out = [], cn_tag = 1\<rparr>" 0
        "is_operation_timeout (mt_settings t)"]
    by (auto simp: idle_step.simps idling_def more_bytes_def half_line_no_lf idle_finish_def)
  have "\<exists>s os. idle_step t n (idling []) (IdleRefresh ?done PeerStalls SendOk) = Some (s, os) \<and>
      id_pc s = IdEnter \<and> queued_events os = 0"
    using demo_finish [of "\<lparr>cn_in = ?done, cn_end = PeerStalls, cn_writes = Suc 0, cn_write_end = WriteStalls, cn_out = [], cn_tag = 1\<rparr>" 0
        "is_operation_timeout (mt_settings t)"]
    by (auto simp: idle_step.simps idling_def more_bytes_def idle_finish_def)
  then have "\<exists>s os. run_machine (idle_step t n) (idling [])
      ([Arrive half_line, PollRead, Arrive line_rest, LineReady SendOk] @ [IdleRefresh ?done PeerStalls SendOk]) = Some (s, os) \<and>
      id_pc s = IdEnter \<and> queued_events os = 1"
    unfolding run_append demo_split_read by auto
  moreover have "\<exists>s os. idle_step t n ((idling [])\<lparr>id_pc := IdEnter\<rparr>)
       (EnterIdle (half_line @ line_rest @ ''+ idling'' @ [CR, LF]) PeerStalls SendOk) = Some (s, os) \<and>
      (\<exists>tag. id_pc s = IdWait tag) \<and> cn_in (id_conn s) = [] \<and> queued_events os = 0"
    by (simp add: idle_step.simps idling_def more_bytes_def idle_enter_def enter_idle_def io_bind_def take_tag_def
        next_tag_def write_raw_def with_imap_timeout_def io_return_def establish_def tag_text_def demo_continuation Let_def)
  ultimately show ?thesis using a by simp
qed

end
