(* ===== verification/Gmail_Poll.thy ===== *)
theory Gmail_Poll
  imports Auth_Helper Retry_Backoff
begin

text \<open>
  The Gmail API poller (\<^verbatim>\<open>src/src/gmail_api_poll.rs\<close>): the history tracker, the two requests with
  their decoding, the search for relevant history over labels and result pages, one poll, and
  the task that takes a baseline and polls. A request consumes the next of the replies the
  HTTP client will give; when they run out, the call is still waiting. The JSON decoder
  (\<^verbatim>\<open>serde_json\<close>) and the HTTP client (\<^verbatim>\<open>reqwest\<close>) are parameters.
\<close>

section \<open>Errors\<close>

datatype google_error_reason =
  InsufficientPermissions | DomainPolicy | DailyLimitExceeded | RateLimitExceeded | UserRateLimitExceeded

definition google_reason_from_str :: "string \<Rightarrow> google_error_reason option" where
  "google_reason_from_str s =
     (if s = ''insufficientPermissions'' then Some InsufficientPermissions
      else if s = ''domainPolicy'' then Some DomainPolicy
      else if s = ''dailyLimitExceeded'' then Some DailyLimitExceeded
      else if s = ''rateLimitExceeded'' then Some RateLimitExceeded
      else if s = ''userRateLimitExceeded'' then Some UserRateLimitExceeded
      else None)"

datatype gmail_error =
  GmailAuth auth_error
| HttpClient string
| GmailRequest string string
| HttpStatus string nat "google_error_reason option"
| StaleHistory
| GmailProtocol string

definition NOT_FOUND :: nat where "NOT_FOUND = 404"
definition UNAUTHORIZED :: nat where "UNAUTHORIZED = 401"
definition FORBIDDEN :: nat where "FORBIDDEN = 403"

definition status_is_success :: "nat \<Rightarrow> bool" where
  "status_is_success st \<longleftrightarrow> 200 \<le> st \<and> st < 300"

fun permanent_gmail_failure :: "gmail_error \<Rightarrow> bool" where
  "permanent_gmail_failure (GmailAuth HelperReauthRequired) = True"
| "permanent_gmail_failure (HttpStatus operation st reason) \<longleftrightarrow> st = UNAUTHORIZED \<or>
     (st = FORBIDDEN \<and> (reason = Some InsufficientPermissions \<or> reason = Some DomainPolicy))"
| "permanent_gmail_failure _ = False"

section \<open>Replies and their decoding\<close>

record google_error_detail = ge_reason :: "string option"
record google_error_body = ge_errors :: "google_error_detail list"
record google_error_envelope = ge_error :: google_error_body

record profile_response = pf_history_id :: string

record history_record = hr_id :: string

record history_page =
  hl_history :: "history_record list"
  hl_next_page_token :: "string option"

text \<open>The JSON decoder, per response type; a missing list is empty.\<close>

record gmail_json =
  gj_profile :: "string \<Rightarrow> profile_response option"
  gj_history :: "string \<Rightarrow> history_page option"
  gj_error :: "string \<Rightarrow> google_error_envelope option"

text \<open>A response: its status and its body, in chunks, which may break off.\<close>

record response =
  rp_status :: nat
  rp_chunks :: "string list"
  rp_complete :: bool

datatype http_reply = SendFails string | Reply response

definition MAX_GOOGLE_ERROR_BODY_BYTES :: nat where "MAX_GOOGLE_ERROR_BODY_BYTES = 65536"

definition parse_google_error_reason :: "gmail_json \<Rightarrow> string \<Rightarrow> google_error_reason option" where
  "parse_google_error_reason j body =
     (if MAX_GOOGLE_ERROR_BODY_BYTES < length body then None
      else (case gj_error j body of
         None \<Rightarrow> None
       | Some envelope \<Rightarrow> find_map google_reason_from_str (List.map_filter ge_reason (ge_errors (ge_error envelope)))))"

fun read_error_chunks :: "string \<Rightarrow> string list \<Rightarrow> bool \<Rightarrow> string option" where
  "read_error_chunks body [] whole = (if whole then Some body else None)"
| "read_error_chunks body (c # cs) whole =
     (if MAX_GOOGLE_ERROR_BODY_BYTES < length body + length c then None
      else read_error_chunks (body @ c) cs whole)"

definition read_google_error_reason :: "gmail_json \<Rightarrow> response \<Rightarrow> google_error_reason option" where
  "read_google_error_reason j r = (case read_error_chunks [] (rp_chunks r) (rp_complete r) of
     None \<Rightarrow> None
   | Some body \<Rightarrow> parse_google_error_reason j body)"

definition decode_response ::
  "gmail_json \<Rightarrow> (string \<Rightarrow> 'a option) \<Rightarrow> string \<Rightarrow> response \<Rightarrow> (gmail_error, 'a) result" where
  "decode_response j decode operation r =
     (if rp_status r = NOT_FOUND \<and> operation = ''history.list'' then Inl StaleHistory
      else if \<not> status_is_success (rp_status r) then
        Inl (HttpStatus operation (rp_status r)
          (if rp_status r = FORBIDDEN then read_google_error_reason j r else None))
      else if \<not> rp_complete r then Inl (GmailRequest operation ''error decoding response body'')
      else (case decode (concat (rp_chunks r)) of
         None \<Rightarrow> Inl (GmailRequest operation ''error decoding response body'')
       | Some x \<Rightarrow> Inr x))"

definition parse_history_id :: "string \<Rightarrow> string \<Rightarrow> (gmail_error, u64) result" where
  "parse_history_id s context' = (case parse_u64 s of None \<Rightarrow> Inl (GmailProtocol context') | Some n \<Rightarrow> Inr n)"

definition history_query :: "u64 \<Rightarrow> string \<Rightarrow> string option \<Rightarrow> u32 \<Rightarrow> (string \<times> string) list" where
  "history_query start_history_id label_id page_token max_results =
     [(''startHistoryId'', show_nat (unat start_history_id)), (''labelId'', label_id),
      (''maxResults'', show_nat (unat max_results))] @
     (case page_token of None \<Rightarrow> [] | Some t \<Rightarrow> [(''pageToken'', t)])"

definition history_page_has_changes :: "history_page \<Rightarrow> bool" where
  "history_page_has_changes page \<longleftrightarrow> list_ex (\<lambda>r. hr_id r \<noteq> []) (hl_history page)"

section \<open>Calls\<close>

datatype http_request =
  ProfileRequest secret_string
| HistoryRequest secret_string "(string \<times> string) list"

datatype 'a http_outcome = Waiting | HttpPanicked | Finished "(gmail_error, 'a) result" "http_reply list"

type_synonym 'a http = "http_reply list \<Rightarrow> http_request list \<times> 'a http_outcome"

definition http_result :: "(gmail_error, 'a) result \<Rightarrow> 'a http" where
  "http_result r replies = ([], Finished r replies)"

definition http_bind :: "'a http \<Rightarrow> ('a \<Rightarrow> 'b http) \<Rightarrow> 'b http" where
  "http_bind m f replies = (case m replies of
     (qs, Finished (Inr x) replies') \<Rightarrow> apfst (append qs) (f x replies')
   | (qs, Finished (Inl e) replies') \<Rightarrow> (qs, Finished (Inl e) replies')
   | (qs, Waiting) \<Rightarrow> (qs, Waiting)
   | (qs, HttpPanicked) \<Rightarrow> (qs, HttpPanicked))"

definition send_request :: "http_request \<Rightarrow> string \<Rightarrow> response http" where
  "send_request q operation replies = ([q], (case replies of
     [] \<Rightarrow> Waiting
   | SendFails e # rest \<Rightarrow> Finished (Inl (GmailRequest operation e)) rest
   | Reply r # rest \<Rightarrow> Finished (Inr r) rest))"

definition get_profile :: "gmail_json \<Rightarrow> secret_string \<Rightarrow> profile_response http" where
  "get_profile j token = http_bind (send_request (ProfileRequest token) ''getProfile'')
     (\<lambda>r. http_result (decode_response j (gj_profile j) ''getProfile'' r))"

definition list_history ::
  "gmail_json \<Rightarrow> secret_string \<Rightarrow> u64 \<Rightarrow> string \<Rightarrow> string option \<Rightarrow> u32 \<Rightarrow> history_page http" where
  "list_history j token start label page_token max_results =
     http_bind (send_request (HistoryRequest token (history_query start label page_token max_results)) ''history.list'')
       (\<lambda>r. http_result (decode_response j (gj_history j) ''history.list'' r))"

record poll_settings =
  gs_helper_timeout :: duration
  gs_helper_max :: usize
  gs_poll_interval :: duration

definition token_from_helper :: "shell_exec \<Rightarrow> string \<Rightarrow> poll_settings \<Rightarrow> secret_string http" where
  "token_from_helper exec command s replies =
     ([], (case run_secret_command exec command (gs_helper_timeout s) (gs_helper_max s) of
         Pending \<Rightarrow> Waiting
       | Panicked \<Rightarrow> HttpPanicked
       | Returned (Inl e) \<Rightarrow> Finished (Inl (GmailAuth e)) replies
       | Returned (Inr token) \<Rightarrow> Finished (Inr token) replies))"

lemma list_history_shrinks:
  "list_history j token start label page_token m replies = (qs, Finished r rest) \<Longrightarrow> length rest < length replies"
  by (auto simp: list_history_def http_bind_def send_request_def http_result_def apfst_def map_prod_def
      split: list.splits http_reply.splits)

section \<open>Relevant history\<close>

text \<open>The page loop; it follows page tokens as long as the server gives them.\<close>

function label_has_history ::
  "gmail_json \<Rightarrow> gmail_source \<Rightarrow> secret_string \<Rightarrow> u64 \<Rightarrow> string \<Rightarrow> string option \<Rightarrow> bool http" where
  "label_has_history j source token start label page_token replies =
     (case list_history j token start label page_token (history_page_size source) replies of
        (qs, Finished (Inr page) rest) \<Rightarrow>
          if history_page_has_changes page then (qs, Finished (Inr True) rest)
          else (case hl_next_page_token page of
             None \<Rightarrow> (qs, Finished (Inr False) rest)
           | Some next_page \<Rightarrow> apfst (append qs) (label_has_history j source token start label (Some next_page) rest))
      | (qs, Finished (Inl e) rest) \<Rightarrow> (qs, Finished (Inl e) rest)
      | (qs, Waiting) \<Rightarrow> (qs, Waiting)
      | (qs, HttpPanicked) \<Rightarrow> (qs, HttpPanicked))"
  by pat_completeness auto
termination
  by (relation "measure (\<lambda>(j, source, token, start, label, page_token, replies). length replies)")
     (auto dest: list_history_shrinks [OF sym])

declare label_has_history.simps [simp del]

datatype relevant_history = HistoryChanged | HistoryNoChange | HistoryStale

fun has_relevant_history ::
  "gmail_json \<Rightarrow> gmail_source \<Rightarrow> secret_string \<Rightarrow> u64 \<Rightarrow> string list \<Rightarrow> relevant_history http" where
  "has_relevant_history j source token start [] replies = ([], Finished (Inr HistoryNoChange) replies)"
| "has_relevant_history j source token start (label # labels) replies =
     (case label_has_history j source token start label None replies of
        (qs, Finished (Inr True) rest) \<Rightarrow> (qs, Finished (Inr HistoryChanged) rest)
      | (qs, Finished (Inr False) rest) \<Rightarrow>
          apfst (append qs) (has_relevant_history j source token start labels rest)
      | (qs, Finished (Inl StaleHistory) rest) \<Rightarrow> (qs, Finished (Inr HistoryStale) rest)
      | (qs, Finished (Inl e) rest) \<Rightarrow> (qs, Finished (Inl e) rest)
      | (qs, Waiting) \<Rightarrow> (qs, Waiting)
      | (qs, HttpPanicked) \<Rightarrow> (qs, HttpPanicked))"

section \<open>The tracker\<close>

record history_tracker = last_history_id :: "u64 option"

definition tracker_default :: history_tracker where "tracker_default = \<lparr>last_history_id = None\<rparr>"

definition baseline :: "u64 \<Rightarrow> history_tracker \<Rightarrow> history_tracker" where
  "baseline h tr = tr\<lparr>last_history_id := Some h\<rparr>"

definition has_baseline :: "history_tracker \<Rightarrow> bool" where
  "has_baseline tr \<longleftrightarrow> last_history_id tr \<noteq> None"

datatype history_decision = Unchanged | Advanced u64 u64

definition compare_history :: "history_tracker \<Rightarrow> u64 \<Rightarrow> (gmail_error, history_decision) result" where
  "compare_history tr latest = (case last_history_id tr of
     None \<Rightarrow> Inl (GmailProtocol ''comparing Gmail history before baseline'')
   | Some l \<Rightarrow> Inr (if l < latest then Advanced l latest else Unchanged))"

definition accept_history :: "u64 \<Rightarrow> history_tracker \<Rightarrow> history_tracker" where
  "accept_history h tr = tr\<lparr>last_history_id := Some h\<rparr>"

section \<open>One baseline, one poll\<close>

definition baseline_history :: "gmail_json \<Rightarrow> shell_exec \<Rightarrow> gmail_source \<Rightarrow> poll_settings \<Rightarrow> u64 http" where
  "baseline_history j exec source s =
     http_bind (token_from_helper exec (gm_token_cmd source) s) (\<lambda>token.
     http_bind (get_profile j token) (\<lambda>profile.
     http_result (parse_history_id (pf_history_id profile) ''profile historyId'')))"

text \<open>
  \<open>poll_once\<close> changes its tracker only at the end: it returns the history id to accept, if any,
  and whether an event is queued.
\<close>

definition should_trigger :: "gmail_json \<Rightarrow> gmail_source \<Rightarrow> secret_string \<Rightarrow> u64 \<Rightarrow> bool http" where
  "should_trigger j source token from_id =
     (if gm_label_ids source = [] then http_result (Inr True)
      else http_bind (has_relevant_history j source token from_id (gm_label_ids source))
        (\<lambda>relevant. http_result (Inr (relevant \<noteq> HistoryNoChange))))"

definition poll_decision ::
  "gmail_json \<Rightarrow> shell_exec \<Rightarrow> gmail_source \<Rightarrow> poll_settings \<Rightarrow> history_tracker \<Rightarrow> (u64 \<times> bool) option http" where
  "poll_decision j exec source s tr =
     http_bind (token_from_helper exec (gm_token_cmd source) s) (\<lambda>token.
     http_bind (get_profile j token) (\<lambda>profile.
     http_bind (http_result (parse_history_id (pf_history_id profile) ''profile historyId'')) (\<lambda>latest.
     http_bind (http_result (compare_history tr latest)) (\<lambda>decision.
     case decision of
       Unchanged \<Rightarrow> http_result (Inr None)
     | Advanced from_id to_id \<Rightarrow>
         http_bind (should_trigger j source token from_id) (\<lambda>trigger.
         http_result (Inr (Some (to_id, trigger))))))))"

definition poll_once ::
  "gmail_json \<Rightarrow> shell_exec \<Rightarrow> gmail_source \<Rightarrow> poll_settings \<Rightarrow> history_tracker \<Rightarrow> http_reply list
    \<Rightarrow> http_request list \<times> unit http_outcome \<times> history_tracker \<times> bool" where
  "poll_once j exec source s tr replies = (case poll_decision j exec source s tr replies of
     (qs, Finished (Inr None) rest) \<Rightarrow> (qs, Finished (Inr ()) rest, tr, False)
   | (qs, Finished (Inr (Some (to_id, trigger))) rest) \<Rightarrow>
       (qs, Finished (Inr ()) rest, accept_history to_id tr, trigger)
   | (qs, Finished (Inl e) rest) \<Rightarrow> (qs, Finished (Inl e) rest, tr, False)
   | (qs, Waiting) \<Rightarrow> (qs, Waiting, tr, False)
   | (qs, HttpPanicked) \<Rightarrow> (qs, HttpPanicked, tr, False))"

section \<open>The poll task\<close>

text \<open>The parameters of the task.\<close>

record poll_task =
  pt_source :: gmail_source
  pt_watcher :: string
  pt_settings :: poll_settings
  pt_json :: gmail_json

datatype poll_output =
  GmMark rt_op
| GmQueue send_result
| GmReady "(gmail_error, unit) result"
| GmRequest http_request
| GmSleep duration

datatype poll_pc =
  PStart
| PLoop
| PBaseline
| PBaselineRetry instant
| PInterval instant
| PPolling
| PPollRetry instant
| POver "(gmail_error, unit) result"
| PPanicked

record poll_state =
  pw_pc :: poll_pc
  pw_tracker :: history_tracker
  pw_backoff :: duration
  pw_ready :: bool

datatype poll_input =
  ClientBuilt "(string, unit) result"
| PollLoopTop bool
| BaselineReplies shell_exec "http_reply list"
| PollReplies shell_exec "http_reply list" send_result
| PollTimer
| PollShutdown watch_change

definition poll_init :: "bool \<Rightarrow> poll_state" where
  "poll_init ready = \<lparr>pw_pc = PStart, pw_tracker = tracker_default, pw_backoff = INITIAL_BACKOFF, pw_ready = ready\<rparr>"

definition mark_phase :: "poll_task \<Rightarrow> watcher_phase \<Rightarrow> poll_output" where
  "mark_phase t ph = GmMark (OpMarkWatcher (pt_watcher t) ph)"

definition fail_initial_ready :: "gmail_error \<Rightarrow> poll_state \<Rightarrow> poll_output list" where
  "fail_initial_ready e s = (if pw_ready s then [GmReady (Inl e)] else [])"

definition queue_source_event :: "send_result \<Rightarrow> poll_output list" where
  "queue_source_event r = [GmQueue r]"

definition poll_stop :: "poll_task \<Rightarrow> poll_state \<Rightarrow> poll_state \<times> poll_output list" where
  "poll_stop t s = (s\<lparr>pw_pc := POver (Inr ())\<rparr>, [mark_phase t WStopped])"

text \<open>The two error arms of a baseline or a poll: stop for good, or sleep before trying again.\<close>

definition poll_fails :: "poll_task \<Rightarrow> (instant \<Rightarrow> poll_pc) \<Rightarrow> gmail_error \<Rightarrow> instant \<Rightarrow> poll_state
    \<Rightarrow> poll_state \<times> poll_output list" where
  "poll_fails t retry e now s =
     (if permanent_gmail_failure e then
        (s\<lparr>pw_pc := POver (Inl e), pw_ready := False\<rparr>, fail_initial_ready e s @ [mark_phase t WCrashed])
      else (s\<lparr>pw_pc := retry (now + pw_backoff s)\<rparr>, [mark_phase t WReconnecting, GmSleep (pw_backoff s)]))"

text \<open>\<open>sleep_or_shutdown(poll_interval)\<close>: a zero duration does not sleep at all.\<close>

definition enter_interval :: "poll_task \<Rightarrow> instant \<Rightarrow> poll_state \<Rightarrow> poll_state" where
  "enter_interval t now s = (let d = gs_poll_interval (pt_settings t) in
     s\<lparr>pw_pc := (if d = 0 then PPolling else PInterval (now + d))\<rparr>)"

definition poll_loop_top :: "poll_task \<Rightarrow> bool \<Rightarrow> instant \<Rightarrow> poll_state \<Rightarrow> poll_state \<times> poll_output list" where
  "poll_loop_top t stop now s =
     (if stop then poll_stop t s
      else if \<not> has_baseline (pw_tracker s) then (s\<lparr>pw_pc := PBaseline\<rparr>, [mark_phase t WConnecting])
      else (enter_interval t now s, []))"

definition baseline_done :: "poll_task \<Rightarrow> u64 \<Rightarrow> instant \<Rightarrow> poll_state \<Rightarrow> poll_state \<times> poll_output list" where
  "baseline_done t history_id now s =
     (enter_interval t now (s\<lparr>pw_tracker := baseline history_id (pw_tracker s), pw_ready := False,
        pw_backoff := INITIAL_BACKOFF\<rparr>),
      mark_phase t WIdling # (if pw_ready s then [GmReady (Inr ())] else []))"

fun poll_step :: "poll_task \<Rightarrow> (poll_state, poll_input \<times> instant, poll_output) machine" where
  "poll_step t s (i, now) = (case (pw_pc s, i) of
     (PStart, ClientBuilt (Inl e)) \<Rightarrow> Some (s\<lparr>pw_pc := POver (Inl (HttpClient e))\<rparr>, [])
   | (PStart, ClientBuilt (Inr u)) \<Rightarrow> Some (s\<lparr>pw_pc := PLoop\<rparr>, [])
   | (PLoop, PollLoopTop stop) \<Rightarrow> Some (poll_loop_top t stop now s)
   | (PBaseline, BaselineReplies exec replies) \<Rightarrow>
       (case baseline_history (pt_json t) exec (pt_source t) (pt_settings t) replies of
          (qs, Finished (Inr history_id) rest) \<Rightarrow>
            Some (apsnd (append (map GmRequest qs)) (baseline_done t history_id now s))
        | (qs, Finished (Inl e) rest) \<Rightarrow>
            Some (apsnd (append (map GmRequest qs)) (poll_fails t PBaselineRetry e now s))
        | (qs, HttpPanicked) \<Rightarrow> Some (s\<lparr>pw_pc := PPanicked\<rparr>, map GmRequest qs)
        | (qs, Waiting) \<Rightarrow> None)
   | (PBaselineRetry until, PollTimer) \<Rightarrow>
       (if until \<le> now then Some (s\<lparr>pw_backoff := next_backoff (pw_backoff s), pw_pc := PLoop\<rparr>, []) else None)
   | (PBaselineRetry until, PollShutdown changed) \<Rightarrow>
       Some (if asks_stop changed then poll_stop t s
             else (s\<lparr>pw_backoff := next_backoff (pw_backoff s), pw_pc := PLoop\<rparr>, []))
   | (PInterval until, PollTimer) \<Rightarrow> (if until \<le> now then Some (s\<lparr>pw_pc := PPolling\<rparr>, []) else None)
   | (PInterval until, PollShutdown changed) \<Rightarrow>
       Some (if asks_stop changed then poll_stop t s else (s\<lparr>pw_pc := PPolling\<rparr>, []))
   | (PPolling, PollReplies exec replies r) \<Rightarrow>
       (case poll_once (pt_json t) exec (pt_source t) (pt_settings t) (pw_tracker s) replies of
          (qs, Finished (Inr u) rest, tr, queued) \<Rightarrow>
            Some (s\<lparr>pw_tracker := tr, pw_backoff := INITIAL_BACKOFF, pw_pc := PLoop\<rparr>,
              map GmRequest qs @ (if queued then queue_source_event r else []) @ [GmMark (OpWatcherProgress (pt_watcher t))])
        | (qs, Finished (Inl e) rest, tr, queued) \<Rightarrow>
            Some (apsnd (append (map GmRequest qs)) (poll_fails t PPollRetry e now (s\<lparr>pw_tracker := tr\<rparr>)))
        | (qs, HttpPanicked, tr, queued) \<Rightarrow> Some (s\<lparr>pw_pc := PPanicked\<rparr>, map GmRequest qs)
        | (qs, Waiting, tr, queued) \<Rightarrow> None)
   | (PPollRetry until, PollTimer) \<Rightarrow>
       (if until \<le> now then Some (s\<lparr>pw_backoff := next_backoff (pw_backoff s), pw_pc := PLoop\<rparr>, [mark_phase t WIdling])
        else None)
   | (PPollRetry until, PollShutdown changed) \<Rightarrow>
       Some (if asks_stop changed then poll_stop t s
             else (s\<lparr>pw_backoff := next_backoff (pw_backoff s), pw_pc := PLoop\<rparr>, [mark_phase t WIdling]))
   | _ \<Rightarrow> None)"

declare poll_step.simps [simp del]

section \<open>What one poll decides\<close>

lemma http_bind_finished:
  "http_bind m f replies = (qs, Finished (Inr y) rest) \<longleftrightarrow>
     (\<exists>q1 x mid q2. m replies = (q1, Finished (Inr x) mid) \<and> f x mid = (q2, Finished (Inr y) rest) \<and> qs = q1 @ q2)"
  by (auto simp: http_bind_def apfst_def map_prod_def split: prod.splits http_outcome.splits sum.splits)

lemma http_result_finished [simp]:
  "http_result r replies = (qs, Finished (Inr y) rest) \<longleftrightarrow> qs = [] \<and> r = Inr y \<and> rest = replies"
  by (auto simp: http_result_def)

lemma compare_history_Inr:
  "compare_history tr latest = Inr d \<longleftrightarrow>
     (\<exists>l. last_history_id tr = Some l \<and> d = (if l < latest then Advanced l latest else Unchanged))"
  by (auto simp: compare_history_def split: option.splits)

section \<open>Result pages\<close>

text \<open>Replies that decode to given pages, chained by page tokens up to the last.\<close>

definition page_reply :: "gmail_json \<Rightarrow> history_page \<Rightarrow> http_reply \<Rightarrow> bool" where
  "page_reply j page reply \<longleftrightarrow>
     (\<exists>r. reply = Reply r \<and> decode_response j (gj_history j) ''history.list'' r = Inr page)"

fun chained :: "history_page list \<Rightarrow> bool" where
  "chained [] = False"
| "chained [page] \<longleftrightarrow> hl_next_page_token page = None"
| "chained (page # pages) \<longleftrightarrow> hl_next_page_token page \<noteq> None \<and> chained pages"

text \<open>The requests a search makes: it stops at the first page with changes.\<close>

fun page_requests :: "secret_string \<Rightarrow> u64 \<Rightarrow> string \<Rightarrow> u32 \<Rightarrow> string option \<Rightarrow> history_page list \<Rightarrow> http_request list" where
  "page_requests token start label m page_token [] = []"
| "page_requests token start label m page_token (page # pages) =
     HistoryRequest token (history_query start label page_token m) #
     (if history_page_has_changes page then []
      else page_requests token start label m (hl_next_page_token page) pages)"

lemma list_history_page:
  "page_reply j page reply \<Longrightarrow> list_history j token start label page_token m (reply # replies) =
     ([HistoryRequest token (history_query start label page_token m)], Finished (Inr page) replies)"
  by (auto simp: page_reply_def list_history_def http_bind_def send_request_def http_result_def)

lemma label_search:
  assumes "list_all2 (page_reply j) pages replies" "chained pages"
  shows "\<exists>rest. label_has_history j source token start label page_token (replies @ later) =
     (page_requests token start label (history_page_size source) page_token pages,
      Finished (Inr (list_ex history_page_has_changes pages)) rest)"
  using assms
proof (induction pages arbitrary: replies page_token)
  case (Cons page pages)
  obtain reply replies' where r: "replies = reply # replies'" "page_reply j page reply" "list_all2 (page_reply j) pages replies'"
    using Cons.prems(1) by (auto simp: list_all2_Cons1)
  note first = list_history_page [OF r(2), of token start label page_token "history_page_size source" "replies' @ later"]
  show ?case
  proof (cases "history_page_has_changes page")
    case True
    with first r(1) show ?thesis by (simp add: label_has_history.simps [of j source token start label page_token])
  next
    case False
    show ?thesis
    proof (cases pages)
      case Nil
      with False first r(1) Cons.prems(2) show ?thesis
        by (simp add: label_has_history.simps [of j source token start label page_token])
    next
      case (Cons p ps)
      with Cons.prems(2) obtain tok where tok: "hl_next_page_token page = Some tok" "chained pages" by auto
      from Cons.IH [OF r(3) tok(2), of "Some tok"] False first r(1) tok(1) show ?thesis
        by (auto simp: label_has_history.simps [of j source token start label page_token] apfst_def)
    qed
  qed
qed simp

section \<open>The tracker over a run\<close>

lemma poll_decision_advance:
  assumes "poll_decision j exec source s tr replies = (qs, Finished (Inr (Some (to_id, trigger))) rest)"
  shows "(\<exists>l. last_history_id tr = Some l \<and> l < to_id) \<and> (gm_label_ids source = [] \<longrightarrow> trigger)"
  using assms
  by (auto simp: poll_decision_def http_bind_finished compare_history_Inr should_trigger_def split: if_splits)

lemma poll_decision_needs_baseline:
  "poll_decision j exec source s tr replies = (qs, Finished (Inr d) rest) \<Longrightarrow> has_baseline tr"
  by (auto simp: poll_decision_def http_bind_finished compare_history_Inr has_baseline_def)

lemma poll_once_tracker:
  assumes "poll_once j exec source s tr replies = (qs, r, tr', queued)"
  shows "(tr' = tr \<and> \<not> queued) \<or>
    (\<exists>l to_id rest. last_history_id tr = Some l \<and> l < to_id \<and> tr' = accept_history to_id tr \<and> r = Finished (Inr ()) rest \<and>
       (gm_label_ids source = [] \<longrightarrow> queued))"
proof -
  obtain q2 d where d: "poll_decision j exec source s tr replies = (q2, d)" by fastforce
  show ?thesis
  proof (cases d)
    case (Finished x rest)
    show ?thesis
    proof (cases x)
      case (Inr dec)
      show ?thesis
      proof (cases dec)
        case (Some tt)
        obtain to_id trigger where [simp]: "tt = (to_id, trigger)" by (cases tt)
        from d assms poll_decision_advance [of j exec source s tr replies q2 to_id trigger rest]
        show ?thesis by (auto simp: poll_once_def Finished Inr Some)
      qed (use assms d in \<open>simp add: poll_once_def Finished Inr\<close>)
    qed (use assms d in \<open>simp add: poll_once_def Finished\<close>)
  qed (use assms d in \<open>simp_all add: poll_once_def\<close>)
qed

fun poll_events :: "poll_output list \<Rightarrow> nat" where
  "poll_events [] = 0"
| "poll_events (GmQueue r # os) = Suc (poll_events os)"
| "poll_events (_ # os) = poll_events os"

fun poll_readies :: "poll_output list \<Rightarrow> (gmail_error, unit) result list" where
  "poll_readies [] = []"
| "poll_readies (GmReady r # os) = r # poll_readies os"
| "poll_readies (_ # os) = poll_readies os"

fun poll_sleeps :: "poll_output list \<Rightarrow> duration list" where
  "poll_sleeps [] = []"
| "poll_sleeps (GmSleep d # os) = d # poll_sleeps os"
| "poll_sleeps (_ # os) = poll_sleeps os"

lemma poll_outputs_append [simp]:
  "poll_events (xs @ ys) = poll_events xs + poll_events ys"
  "poll_readies (xs @ ys) = poll_readies xs @ poll_readies ys"
  "poll_sleeps (xs @ ys) = poll_sleeps xs @ poll_sleeps ys"
  by (induction xs rule: poll_events.induct) auto

lemma poll_outputs_requests [simp]:
  "poll_events (map GmRequest qs) = 0" "poll_readies (map GmRequest qs) = []" "poll_sleeps (map GmRequest qs) = []"
  by (induction qs) auto

lemma poll_outputs_parts [simp]:
  "poll_events (fail_initial_ready e s) = 0" "poll_sleeps (fail_initial_ready e s) = []"
  "poll_readies (fail_initial_ready e s) = (if pw_ready s then [Inl e] else [])"
  "poll_events (queue_source_event r) = 1" "poll_sleeps (queue_source_event r) = []" "poll_readies (queue_source_event r) = []"
  "poll_events (mark_phase t ph # os) = poll_events os" "poll_sleeps (mark_phase t ph # os) = poll_sleeps os"
  "poll_readies (mark_phase t ph # os) = poll_readies os"
  by (simp_all add: fail_initial_ready_def queue_source_event_def mark_phase_def)

section \<open>Invariant of the poll task\<close>

text \<open>How the task that is over left its watcher entry.\<close>

fun poll_over_mark :: "poll_task \<Rightarrow> (gmail_error, unit) result \<Rightarrow> poll_output list \<Rightarrow> bool" where
  "poll_over_mark t (Inr _) h \<longleftrightarrow> ends_with h [mark_phase t WStopped]"
| "poll_over_mark t (Inl e) h \<longleftrightarrow> (\<exists>msg. e = HttpClient msg \<and> h = []) \<or>
     (permanent_gmail_failure e \<and> ends_with h [mark_phase t WCrashed])"

definition ready_count :: "bool \<Rightarrow> bool \<Rightarrow> nat \<Rightarrow> bool" where
  "ready_count asked ready n \<longleftrightarrow> (ready \<longrightarrow> asked) \<and> n = (if asked \<and> \<not> ready then 1 else 0)"

text \<open>The facts every step but the start and the ends keeps.\<close>

definition poll_core :: "bool \<Rightarrow> poll_state \<Rightarrow> poll_output list \<Rightarrow> bool" where
  "poll_core asked s h \<longleftrightarrow> retry.valid (pw_backoff s) \<and> list_all retry.valid (poll_sleeps h) \<and>
     ready_count asked (pw_ready s) (length (poll_readies h)) \<and>
     (has_baseline (pw_tracker s) \<longrightarrow> \<not> pw_ready s)"

definition poll_inv :: "poll_task \<Rightarrow> bool \<Rightarrow> poll_state \<Rightarrow> poll_output list \<Rightarrow> bool" where
  "poll_inv t asked s h \<longleftrightarrow> poll_core asked s h \<and>
     (case pw_pc s of
        PStart \<Rightarrow> h = []
      | PBaseline \<Rightarrow> \<not> has_baseline (pw_tracker s)
      | PInterval u \<Rightarrow> has_baseline (pw_tracker s)
      | PPolling \<Rightarrow> has_baseline (pw_tracker s)
      | POver result \<Rightarrow> poll_over_mark t result h
      | _ \<Rightarrow> True)"

lemma poll_inv_start: "poll_inv t asked (poll_init asked) []"
  by (simp add: poll_inv_def poll_core_def poll_init_def retry.valid_first ready_count_def has_baseline_def tracker_default_def)

lemma poll_core_quiet:
  "poll_core asked s h \<Longrightarrow> poll_sleeps os = [] \<Longrightarrow> poll_readies os = [] \<Longrightarrow> poll_core asked s (h @ os)"
  by (simp add: poll_core_def)

lemma poll_core_fields:
  "poll_core asked (s\<lparr>pw_pc := pc\<rparr>) h = poll_core asked s h"
  by (simp add: poll_core_def)

lemma poll_core_grow:
  "poll_core asked s h \<Longrightarrow> poll_core asked (s\<lparr>pw_backoff := next_backoff (pw_backoff s)\<rparr>) h"
  using retry.valid_grow by (simp add: poll_core_def)

lemma mark_only_quiet: "poll_sleeps [mark_phase t ph] = []" "poll_readies [mark_phase t ph] = []"
  by simp_all

lemma poll_stop_inv: "poll_core asked s h \<Longrightarrow> poll_stop t s = (s', os) \<Longrightarrow> poll_inv t asked s' (h @ os)"
  by (auto simp: poll_inv_def poll_stop_def poll_core_fields intro: poll_core_quiet)

lemma poll_fails_inv:
  assumes core: "poll_core asked s h" and r: "poll_fails t retry_pc e now s = (s', os)"
    and pc: "\<And>u. retry_pc u = PBaselineRetry u \<or> retry_pc u = PPollRetry u"
  shows "poll_inv t asked s' (h @ map GmRequest qs @ os)"
proof (cases "permanent_gmail_failure e")
  case True
  then have s': "s' = s\<lparr>pw_pc := POver (Inl e), pw_ready := False\<rparr>"
    "os = fail_initial_ready e s @ [mark_phase t WCrashed]" using r by (auto simp: poll_fails_def)
  have "ends_with (h @ map GmRequest qs @ os) [mark_phase t WCrashed]"
    unfolding s' ends_with_def by (rule exI [of _ "h @ map GmRequest qs @ fail_initial_ready e s"]) simp
  with True core show ?thesis
    by (simp add: s' poll_inv_def poll_core_def ready_count_def)
next
  case False
  with r pc [of "now + pw_backoff s"] core show ?thesis
    by (auto simp: poll_fails_def poll_inv_def poll_core_def)
qed

lemma enter_interval_inv:
  "poll_core asked s h \<Longrightarrow> has_baseline (pw_tracker s) \<Longrightarrow> poll_inv t asked (enter_interval t now s) h"
  by (auto simp: enter_interval_def poll_inv_def poll_core_def Let_def)

lemma poll_loop_top_inv:
  assumes "poll_core asked s h" "poll_loop_top t stop now s = (s', os)"
  shows "poll_inv t asked s' (h @ os)"
proof (cases stop)
  case True
  with assms poll_stop_inv show ?thesis by (simp add: poll_loop_top_def)
next
  case False
  show ?thesis
  proof (cases "has_baseline (pw_tracker s)")
    case True
    with assms False enter_interval_inv show ?thesis by (auto simp: poll_loop_top_def)
  next
    case no: False
    with assms False show ?thesis
      by (auto simp: poll_loop_top_def poll_inv_def poll_core_fields intro: poll_core_quiet)
  qed
qed

lemma baseline_done_inv:
  assumes "poll_core asked s h" "baseline_done t history_id now s = (s', os)"
  shows "poll_inv t asked s' (h @ map GmRequest qs @ os)"
proof -
  let ?s = "s\<lparr>pw_tracker := baseline history_id (pw_tracker s), pw_ready := False, pw_backoff := INITIAL_BACKOFF\<rparr>"
  have b: "has_baseline (pw_tracker ?s)" by (simp add: has_baseline_def baseline_def)
  have "poll_core asked ?s (h @ map GmRequest qs @ os)"
    using assms by (auto simp: baseline_done_def poll_core_def retry.valid_first ready_count_def)
  from enter_interval_inv [OF this b] assms(2) show ?thesis by (auto simp: baseline_done_def)
qed

lemma poll_step_baseline:
  assumes inv: "poll_inv t asked s h" and pc: "pw_pc s = PBaseline"
    and step: "poll_step t s (BaselineReplies exec replies, now) = Some (s', os)"
  shows "poll_inv t asked s' (h @ os)"
proof -
  have core: "poll_core asked s h" using inv by (simp add: poll_inv_def)
  obtain qs x where b: "baseline_history (pt_json t) exec (pt_source t) (pt_settings t) replies = (qs, x)" by fastforce
  show ?thesis
  proof (cases x)
    case (Finished r rest)
    show ?thesis
    proof (cases r)
      case (Inl e)
      obtain s1 o1 where f: "poll_fails t PBaselineRetry e now s = (s1, o1)" by fastforce
      with step pc b Finished Inl have "s' = s1" "os = map GmRequest qs @ o1" by (auto simp: poll_step.simps)
      with poll_fails_inv [OF core f] show ?thesis by simp
    next
      case (Inr history_id)
      obtain s1 o1 where f: "baseline_done t history_id now s = (s1, o1)" by fastforce
      with step pc b Finished Inr have "s' = s1" "os = map GmRequest qs @ o1" by (auto simp: poll_step.simps)
      with baseline_done_inv [OF core f] show ?thesis by simp
    qed
  qed (use step pc b core in \<open>auto simp: poll_step.simps poll_inv_def poll_core_def\<close>)
qed

lemma poll_once_baseline:
  assumes "poll_once j exec source s tr replies = (qs, r, tr', queued)"
  shows "has_baseline tr' = has_baseline tr"
  using poll_once_tracker [OF assms] by (auto simp: has_baseline_def accept_history_def)

lemma poll_step_polling:
  assumes inv: "poll_inv t asked s h" and pc: "pw_pc s = PPolling"
    and step: "poll_step t s (PollReplies exec replies r, now) = Some (s', os)"
  shows "poll_inv t asked s' (h @ os)"
proof -
  have core: "poll_core asked s h" and base: "has_baseline (pw_tracker s)"
    using inv pc by (simp_all add: poll_inv_def)
  obtain qs x tr queued where p: "poll_once (pt_json t) exec (pt_source t) (pt_settings t) (pw_tracker s) replies = (qs, x, tr, queued)"
    by (metis prod_cases4)
  have tr: "has_baseline tr" using poll_once_baseline [OF p] base by simp
  have core': "poll_core asked (s\<lparr>pw_tracker := tr\<rparr>) h"
    using core base tr by (auto simp: poll_core_def)
  show ?thesis
  proof (cases x)
    case (Finished y rest)
    show ?thesis
    proof (cases y)
      case (Inl e)
      obtain s1 o1 where f: "poll_fails t PPollRetry e now (s\<lparr>pw_tracker := tr\<rparr>) = (s1, o1)" by fastforce
      with step pc p Finished Inl have "s' = s1" "os = map GmRequest qs @ o1" by (auto simp: poll_step.simps)
      with poll_fails_inv [OF core' f] show ?thesis by simp
    next
      case (Inr u)
      with step pc p Finished core' show ?thesis
        by (auto simp: poll_step.simps poll_inv_def poll_core_def retry.valid_first)
    qed
  qed (use step pc p core in \<open>auto simp: poll_step.simps poll_inv_def poll_core_def\<close>)
qed

lemma poll_step_inv:
  assumes inv: "poll_inv t asked s h" and step: "poll_step t s io = Some (s', os)"
  shows "poll_inv t asked s' (h @ os)"
proof (cases io)
  case (Pair i now)
  note step' = step [unfolded Pair]
  have core: "poll_core asked s h" using inv by (simp add: poll_inv_def)
  note quiet = poll_core_quiet [OF poll_core_grow [OF core], OF mark_only_quiet]
  show ?thesis
  proof (cases i)
    case (ClientBuilt r)
    with step' inv show ?thesis
      by (cases "pw_pc s"; cases r) (auto simp: poll_step.simps poll_inv_def poll_core_def)
  next
    case (PollLoopTop stop)
    with step' have "poll_loop_top t stop now s = (s', os)" by (cases "pw_pc s") (auto simp: poll_step.simps)
    with poll_loop_top_inv [OF core] show ?thesis by blast
  next
    case (BaselineReplies exec replies)
    have "pw_pc s = PBaseline" using step' BaselineReplies by (cases "pw_pc s") (auto simp: poll_step.simps)
    with poll_step_baseline inv step' BaselineReplies show ?thesis by blast
  next
    case (PollReplies exec replies r)
    have "pw_pc s = PPolling" using step' PollReplies by (cases "pw_pc s") (auto simp: poll_step.simps)
    with poll_step_polling inv step' PollReplies show ?thesis by blast
  next
    case PollTimer
    with step' inv core quiet show ?thesis
      by (cases "pw_pc s")
         (auto simp: poll_step.simps poll_inv_def poll_core_fields poll_core_grow split: if_splits)
  next
    case (PollShutdown changed)
    with step' inv core quiet poll_stop_inv [OF core] show ?thesis
      by (cases "pw_pc s")
         (auto simp: poll_step.simps poll_inv_def poll_core_fields poll_core_grow split: if_splits)
  qed
qed

definition poll_final :: "poll_state \<Rightarrow> bool" where
  "poll_final s \<longleftrightarrow> (case pw_pc s of POver _ \<Rightarrow> True | PPanicked \<Rightarrow> True | _ \<Rightarrow> False)"

interpretation poller: halting_machine "poll_step t" "poll_init asked" "poll_inv t asked" poll_final
proof
  show "poll_inv t asked (poll_init asked) []" by (rule poll_inv_start)
  show "poll_inv t asked s h \<Longrightarrow> poll_step t s i = Some (s', os) \<Longrightarrow> poll_inv t asked s' (h @ os)" for s h i s' os
    by (rule poll_step_inv)
  show "poll_final s \<Longrightarrow> poll_step t s i = None" for s i
    by (cases i) (auto simp: poll_final_def poll_step.simps split: poll_pc.splits)
qed

section \<open>Advances over a run\<close>

definition advanced :: "poll_task \<Rightarrow> poll_state \<Rightarrow> poll_state \<Rightarrow> poll_output list \<Rightarrow> bool" where
  "advanced t s s' os \<longleftrightarrow> (\<exists>l l'. last_history_id (pw_tracker s) = Some l \<and> last_history_id (pw_tracker s') = Some l' \<and>
     l \<le> l' \<and> (l' = l \<longrightarrow> poll_events os = 0) \<and>
     (gm_label_ids (pt_source t) = [] \<longrightarrow> l < l' \<longrightarrow> 0 < poll_events os))"

lemma advanced_same: "has_baseline (pw_tracker s) \<Longrightarrow> pw_tracker s' = pw_tracker s \<Longrightarrow> poll_events os = 0 \<Longrightarrow> advanced t s s' os"
  by (auto simp: advanced_def has_baseline_def)

lemma advanced_trans: "advanced t s s1 os \<Longrightarrow> advanced t s1 s' os' \<Longrightarrow> advanced t s s' (os @ os')"
  by (auto simp: advanced_def)

lemma poll_fails_same: "poll_fails t pc e now s = (s', os) \<Longrightarrow> pw_tracker s' = pw_tracker s \<and> poll_events os = 0"
  by (auto simp: poll_fails_def split: if_splits)

lemma poll_stop_same: "poll_stop t s = (s', os) \<Longrightarrow> pw_tracker s' = pw_tracker s \<and> poll_events os = 0"
  by (auto simp: poll_stop_def)

lemma advanced_polling:
  assumes base: "has_baseline (pw_tracker s)" and pc: "pw_pc s = PPolling"
    and step: "poll_step t s (PollReplies exec replies r, now) = Some (s', os)"
  shows "advanced t s s' os"
proof -
  obtain qs x tr queued where p: "poll_once (pt_json t) exec (pt_source t) (pt_settings t) (pw_tracker s) replies = (qs, x, tr, queued)"
    by (metis prod_cases4)
  note tracker = poll_once_tracker [OF p]
  show ?thesis
  proof (cases x)
    case (Finished y rest)
    show ?thesis
    proof (cases y)
      case (Inl e)
      obtain s1 o1 where f: "poll_fails t PPollRetry e now (s\<lparr>pw_tracker := tr\<rparr>) = (s1, o1)" by fastforce
      with step pc p Finished Inl have "s' = s1" "os = map GmRequest qs @ o1" by (auto simp: poll_step.simps)
      with poll_fails_same [OF f] tracker base Finished Inl show ?thesis by (intro advanced_same) auto
    next
      case (Inr u)
      with step pc p Finished have s': "pw_tracker s' = tr" "poll_events os = (if queued then 1 else 0)"
        by (auto simp: poll_step.simps)
      from base obtain l where "last_history_id (pw_tracker s) = Some l" by (auto simp: has_baseline_def)
      with tracker s' show ?thesis by (auto simp: advanced_def accept_history_def)
    qed
  qed (use step pc p base in \<open>auto simp: poll_step.simps intro: advanced_same\<close>)
qed

lemma advanced_step:
  assumes base: "has_baseline (pw_tracker s)" and inv: "poll_inv t asked s h" and step: "poll_step t s io = Some (s', os)"
  shows "advanced t s s' os"
proof (cases io)
  case (Pair i now)
  note step' = step [unfolded Pair]
  show ?thesis
  proof (cases i)
    case (PollReplies exec replies r)
    have "pw_pc s = PPolling" using step' PollReplies by (cases "pw_pc s") (auto simp: poll_step.simps)
    with advanced_polling base step' PollReplies show ?thesis by blast
  next
    case (BaselineReplies exec replies)
    have "pw_pc s = PBaseline" using step' BaselineReplies by (cases "pw_pc s") (auto simp: poll_step.simps)
    with inv base show ?thesis by (simp add: poll_inv_def)
  next
    case (ClientBuilt r)
    with step' have "pw_tracker s' = pw_tracker s \<and> poll_events os = 0"
      by (cases "pw_pc s"; cases r) (auto simp: poll_step.simps)
    with advanced_same [OF base] show ?thesis by blast
  next
    case (PollLoopTop stop)
    with step' have "pw_tracker s' = pw_tracker s \<and> poll_events os = 0"
      by (cases "pw_pc s")
         (auto simp: poll_step.simps poll_loop_top_def poll_stop_def enter_interval_def Let_def split: if_splits)
    with advanced_same [OF base] show ?thesis by blast
  next
    case PollTimer
    with step' have "pw_tracker s' = pw_tracker s \<and> poll_events os = 0"
      by (cases "pw_pc s") (auto simp: poll_step.simps split: if_splits)
    with advanced_same [OF base] show ?thesis by blast
  next
    case (PollShutdown changed)
    with step' have "pw_tracker s' = pw_tracker s \<and> poll_events os = 0"
      by (cases "pw_pc s") (auto simp: poll_step.simps poll_stop_def split: if_splits)
    with advanced_same [OF base] show ?thesis by blast
  qed
qed

lemma advanced_run:
  assumes "has_baseline (pw_tracker s)" "poll_inv t asked s h" "run_machine (poll_step t) s ins = Some (s', os)"
  shows "advanced t s s' os"
  using assms
proof (induction ins arbitrary: s h os)
  case Nil
  then show ?case by (auto intro: advanced_same)
next
  case (Cons i ins)
  from Cons.prems(3) obtain s1 o1 o2 where step: "poll_step t s i = Some (s1, o1)"
    and rest: "run_machine (poll_step t) s1 ins = Some (s', o2)" "os = o1 @ o2"
    by (auto split: option.splits)
  have adv: "advanced t s s1 o1" by (rule advanced_step [OF Cons.prems(1,2) step])
  then have "has_baseline (pw_tracker s1)" by (auto simp: advanced_def has_baseline_def)
  from Cons.IH [OF this poll_step_inv [OF Cons.prems(2) step] rest(1)] advanced_trans [OF adv] rest(2)
  show ?case by simp
qed

section \<open>Demonstration instances\<close>

definition demo_source :: gmail_source where
  "demo_source = \<lparr>gm_name = ''g'', gm_on_event = ''c'', gm_token_cmd = ''helper'', gm_label_ids = [], gm_run_on_startup = False,
     gm_debounce_seconds = None, gm_poll_interval_seconds = Some 7200, gm_api_timeout_seconds = None, gm_history_page_size = None\<rparr>"

definition demo_command :: command_config where
  "demo_command = \<lparr>cc_name = ''c'', cc_lane = None, cc_cmd = ''true'', cc_timeout_seconds = None, cc_min_interval_seconds = None,
     cc_output_mode = None, cc_output_max_bytes = None, cc_output_tail_lines = None\<rparr>"

definition slow_config :: config where
  "slow_config = demo_config\<lparr>accounts := [], commands := [demo_command], sources := [GmailApiPoll demo_source]\<rparr>"

definition demo_json :: gmail_json where
  "demo_json = \<lparr>gj_profile = (\<lambda>b. Some \<lparr>pf_history_id = b\<rparr>), gj_history = (\<lambda>_. Some \<lparr>hl_history = [], hl_next_page_token = None\<rparr>), gj_error = (\<lambda>_. None)\<rparr>"

definition demo_poll :: poll_task where
  "demo_poll = \<lparr>pt_source = demo_source, pt_watcher = ''g'',
     pt_settings = \<lparr>gs_helper_timeout = secs 5, gs_helper_max = 10, gs_poll_interval = poll_interval demo_source\<rparr>,
     pt_json = demo_json\<rparr>"

definition profile_reply :: "string \<Rightarrow> http_reply" where
  "profile_reply body = Reply \<lparr>rp_status = 200, rp_chunks = [body], rp_complete = True\<rparr>"

lemma demo_profile:
  "http_bind (token_from_helper (shell_exec demo_helper) (gm_token_cmd demo_source) (pt_settings demo_poll)) (\<lambda>token.
     http_bind (get_profile demo_json token) (f token)) (profile_reply body # replies) =
   apfst (append [ProfileRequest (Secret ''tok'')]) (f (Secret ''tok'') \<lparr>pf_history_id = body\<rparr> replies)"
proof -
  have t: "token_from_helper (shell_exec demo_helper) (gm_token_cmd demo_source) (pt_settings demo_poll) rs =
      ([], Finished (Inr (Secret ''tok'')) rs)" for rs
    by (simp add: token_from_helper_def demo_poll_def demo_source_def demo_helper_run)
  have p: "get_profile demo_json token (profile_reply body # rs) = ([ProfileRequest token], Finished (Inr \<lparr>pf_history_id = body\<rparr>) rs)" for token rs
    by (simp add: get_profile_def http_bind_def send_request_def http_result_def profile_reply_def decode_response_def
        NOT_FOUND_def status_is_success_def demo_json_def)
  show ?thesis unfolding http_bind_def t
    by (simp add: p [unfolded http_bind_def] apfst_def map_prod_def split: prod.split)
qed

lemma demo_ids: "parse_history_id ''7'' ctx = Inr 7" "parse_history_id ''9'' ctx = Inr 9"
  by (simp_all add: parse_history_id_def parse_u64_def parse_unsigned_def digit_val_def Let_def)

lemma demo_baseline:
  "baseline_history demo_json (shell_exec demo_helper) demo_source (pt_settings demo_poll) [profile_reply ''7''] =
     ([ProfileRequest (Secret ''tok'')], Finished (Inr 7) [])"
  unfolding baseline_history_def demo_profile by (simp add: http_result_def demo_ids)

lemma demo_poll_once:
  "poll_once demo_json (shell_exec demo_helper) demo_source (pt_settings demo_poll) \<lparr>last_history_id = Some 7\<rparr> [profile_reply ''9''] =
     ([ProfileRequest (Secret ''tok'')], Finished (Inr ()) [], \<lparr>last_history_id = Some 9\<rparr>, True)"
proof -
  have "gm_label_ids demo_source = []" by (simp add: demo_source_def)
  then show ?thesis unfolding poll_once_def poll_decision_def demo_profile
    by (simp add: http_bind_def http_result_def demo_ids compare_history_def should_trigger_def accept_history_def)
qed

lemma demo_steps:
  "run_machine (poll_step demo_poll) (poll_init True)
     [(ClientBuilt (Inr ()), 0), (PollLoopTop False, 0), (BaselineReplies (shell_exec demo_helper) [profile_reply ''7''], 0)] =
   Some (\<lparr>pw_pc = PInterval (secs 7200), pw_tracker = \<lparr>last_history_id = Some 7\<rparr>, pw_backoff = INITIAL_BACKOFF, pw_ready = False\<rparr>,
     [GmMark (OpMarkWatcher ''g'' WConnecting), GmRequest (ProfileRequest (Secret ''tok'')),
      GmMark (OpMarkWatcher ''g'' WIdling), GmReady (Inr ())])"
proof -
  have "poll_interval demo_source = secs 7200"
    by (simp add: poll_interval_def demo_source_def unwrap_or_def from_secs_def secs_def)
  moreover have "pt_json demo_poll = demo_json" "pt_source demo_poll = demo_source" "pt_watcher demo_poll = ''g''"
    "gs_poll_interval (pt_settings demo_poll) = poll_interval demo_source"
    by (simp_all add: demo_poll_def)
  ultimately show ?thesis
    by (simp add: poll_step.simps poll_init_def poll_loop_top_def has_baseline_def tracker_default_def demo_baseline
        baseline_done_def enter_interval_def baseline_def mark_phase_def secs_def Let_def)
qed

lemma demo_next_poll:
  "run_machine (poll_step demo_poll)
     \<lparr>pw_pc = PInterval (secs 7200), pw_tracker = \<lparr>last_history_id = Some 7\<rparr>, pw_backoff = INITIAL_BACKOFF, pw_ready = False\<rparr>
     [(PollTimer, secs 7200), (PollReplies (shell_exec demo_helper) [profile_reply ''9''] SendOk, secs 7201)] =
   Some (\<lparr>pw_pc = PLoop, pw_tracker = \<lparr>last_history_id = Some 9\<rparr>, pw_backoff = INITIAL_BACKOFF, pw_ready = False\<rparr>,
     [GmRequest (ProfileRequest (Secret ''tok'')), GmQueue SendOk, GmMark (OpWatcherProgress ''g'')])"
proof -
  have "pt_json demo_poll = demo_json" "pt_source demo_poll = demo_source" "pt_watcher demo_poll = ''g''"
    by (simp_all add: demo_poll_def)
  then show ?thesis by (simp add: poll_step.simps demo_poll_once queue_source_event_def)
qed

fun poll_marks :: "poll_output list \<Rightarrow> rt_op list" where
  "poll_marks [] = []"
| "poll_marks (GmMark op # os) = op # poll_marks os"
| "poll_marks (_ # os) = poll_marks os"

section \<open>Properties\<close>

text \<open>
  C32. The search for relevant history ends and misses nothing: over any chain of result pages it
  requests them in order with the page tokens it was given, stops at the first page with
  changes, and reports a change exactly if some page has one.
\<close>

theorem all_pages_are_searched:
  assumes "list_all2 (page_reply j) pages replies" "chained pages"
  shows "\<exists>rest. label_has_history j source token start label None (replies @ later) =
     (page_requests token start label (history_page_size source) None pages,
      Finished (Inr (list_ex history_page_has_changes pages)) rest)"
  by (rule label_search [OF assms])

lemma all_pages_are_searched_witness:
  "\<exists>rest. label_has_history (demo_json\<lparr>gj_history := \<lambda>b. Some \<lparr>hl_history = [\<lparr>hr_id = b\<rparr>], hl_next_page_token =
       (if b = [] then Some ''p2'' else None)\<rparr>\<rparr>) demo_source (Secret ''t'') 7 ''INBOX'' None ([profile_reply [], profile_reply ''9''] @ []) =
     ([HistoryRequest (Secret ''t'') (history_query 7 ''INBOX'' None 100),
       HistoryRequest (Secret ''t'') (history_query 7 ''INBOX'' (Some ''p2'') 100)], Finished (Inr True) rest)"
proof -
  let ?j = "demo_json\<lparr>gj_history := \<lambda>b. Some \<lparr>hl_history = [\<lparr>hr_id = b\<rparr>], hl_next_page_token =
       (if b = [] then Some ''p2'' else None)\<rparr>\<rparr>"
  let ?pages = "[\<lparr>hl_history = [\<lparr>hr_id = []\<rparr>], hl_next_page_token = Some ''p2''\<rparr>,
       \<lparr>hl_history = [\<lparr>hr_id = ''9''\<rparr>], hl_next_page_token = None\<rparr>]"
  have "list_all2 (page_reply ?j) ?pages [profile_reply [], profile_reply ''9'']"
    by (simp add: page_reply_def profile_reply_def decode_response_def NOT_FOUND_def status_is_success_def)
  moreover have "chained ?pages" by simp
  moreover have "history_page_size demo_source = 100"
    by (simp add: history_page_size_def demo_source_def unwrap_or_def DEFAULT_GMAIL_API_HISTORY_PAGE_SIZE_def)
  ultimately show ?thesis
    using all_pages_are_searched [of ?j ?pages "[profile_reply [], profile_reply ''9'']" demo_source "Secret ''t''" 7 "''INBOX''" "[]"]
    by (simp add: history_page_has_changes_def)
qed

text \<open>
  C9. No history is lost or repeated: from any point of a run after the baseline, the accepted
  history id only grows, failed polls included; an event is queued only with an advance, and
  without a label filter every advance queues one.
\<close>

theorem history_advances_are_reported:
  assumes "run_machine (poll_step t) (poll_init asked) ins = Some (s, h)"
    and "last_history_id (pw_tracker s) = Some l"
    and "run_machine (poll_step t) s later = Some (s', os)"
  shows "\<exists>l'. last_history_id (pw_tracker s') = Some l' \<and> l \<le> l' \<and> (l' = l \<longrightarrow> poll_events os = 0) \<and>
    (gm_label_ids (pt_source t) = [] \<longrightarrow> l < l' \<longrightarrow> 0 < poll_events os)"
proof -
  have "has_baseline (pw_tracker s)" using assms(2) by (simp add: has_baseline_def)
  from advanced_run [OF this poller.run_inv [OF assms(1)] assms(3)] assms(2) show ?thesis
    by (auto simp: advanced_def)
qed

lemma history_advances_are_reported_witness:
  "\<exists>l'. Some (9::u64) = Some l' \<and> 7 \<le> l' \<and> (gm_label_ids (pt_source demo_poll) = [] \<longrightarrow> 7 < l' \<longrightarrow>
     0 < poll_events [GmRequest (ProfileRequest (Secret ''tok'')), GmQueue SendOk, GmMark (OpWatcherProgress ''g'')])"
  using history_advances_are_reported [OF demo_steps _ demo_next_poll] by auto

text \<open>A failed readiness answer is always a permanent authentication failure.\<close>

lemma poll_fails_ready:
  "poll_fails t retry e now s = (s', os) \<Longrightarrow> GmReady (Inl e') \<in> set os \<Longrightarrow> permanent_gmail_failure e'"
  by (auto simp: poll_fails_def fail_initial_ready_def mark_phase_def split: if_splits)

lemma poll_ready_error:
  assumes "poll_step t s (i, now) = Some (s', os)" "GmReady (Inl e) \<in> set os"
  shows "permanent_gmail_failure e"
  using assms
  by (cases "pw_pc s"; cases i)
     (auto simp: poll_step.simps poll_loop_top_def poll_stop_def baseline_done_def mark_phase_def queue_source_event_def
       apsnd_def map_prod_def split: prod.splits http_outcome.splits sum.splits if_splits dest: poll_fails_ready)

lemma poll_ready_error_permanent:
  assumes "run_machine (poll_step t) (poll_init asked) ins = Some (s, h)" "GmReady (Inl e) \<in> set h"
  shows "permanent_gmail_failure e"
proof -
  obtain s1 i now s2 os where "poll_step t s1 (i, now) = Some (s2, os)" "GmReady (Inl e) \<in> set os"
    using run_effect [OF assms] by (metis surj_pair)
  then show ?thesis by (rule poll_ready_error)
qed

text \<open>The observations that ask the poller to stop.\<close>

fun poll_stop_asked :: "poll_input \<Rightarrow> bool" where
  "poll_stop_asked (PollLoopTop stop) = stop"
| "poll_stop_asked (PollShutdown changed) = asks_stop changed"
| "poll_stop_asked _ = False"

lemma poll_fails_over: "poll_fails t retry e now s = (s', os) \<Longrightarrow> \<forall>u r. retry u \<noteq> POver r \<Longrightarrow> pw_pc s' \<noteq> POver (Inr v)"
  by (auto simp: poll_fails_def split: if_splits)

lemma poll_over_asked:
  assumes "poll_step t s (i, now) = Some (s', os)" "pw_pc s' = POver (Inr u)"
  shows "poll_stop_asked i"
proof (cases "pw_pc s")
  case PStart
  with assms show ?thesis by (cases i) (auto simp: poll_step.simps split: sum.splits)
next
  case PBaseline
  with assms show ?thesis
    by (cases i) (auto simp: poll_step.simps baseline_done_def enter_interval_def poll_fails_def Let_def
        split: prod.splits http_outcome.splits sum.splits if_splits)
next
  case PPolling
  with assms show ?thesis
    by (cases i) (auto simp: poll_step.simps poll_fails_def split: prod.splits http_outcome.splits sum.splits if_splits)
qed (insert assms, (cases i; auto simp: poll_step.simps poll_loop_top_def poll_stop_def enter_interval_def Let_def split: if_splits)+)

text \<open>
  C33. Every run of the poller is sound: retry delays stay between one second and five minutes,
  readiness is reported at most once, before any poll, and the task is over only by an
  observation that asks it to stop (the stop flag at the loop's top, or a change of it that is set,
  during a sleep), marked stopped, after a permanent authentication failure, marked crashed, or
  because the HTTP client could not be built.
\<close>

theorem poller_run_sound:
  assumes "run_machine (poll_step t) (poll_init asked) ins = Some (s, h)"
  shows "list_all (\<lambda>d. secs 1 \<le> d \<and> d \<le> secs 300) (poll_sleeps h) \<and>
    length (poll_readies h) = (if asked \<and> \<not> pw_ready s then 1 else 0) \<and>
    (has_baseline (pw_tracker s) \<longrightarrow> \<not> pw_ready s) \<and>
    (\<forall>result. pw_pc s = POver result \<longrightarrow> poll_over_mark t result h \<and>
       (\<forall>u. result = Inr u \<longrightarrow> poll_stop_asked (fst (List.last ins))))"
proof -
  note inv = poller.run_inv [OF assms, unfolded poll_inv_def poll_core_def]
  have "retry.valid = (\<lambda>d. secs 1 \<le> d \<and> d \<le> secs 300)"
    by (rule ext) (rule retry_valid_bounds)
  moreover have "poll_stop_asked (fst (List.last ins))" if "pw_pc s = POver (Inr u)" for u
  proof (cases ins rule: rev_cases)
    case Nil
    with assms that show ?thesis by (auto simp: poll_init_def)
  next
    case (snoc js i)
    then obtain s1 h1 os where "poll_step t s1 i = Some (s, os)" using assms by (auto simp: run_snoc)
    with poll_over_asked [of t s1 "fst i" "snd i"] that snoc show ?thesis by simp
  qed
  ultimately show ?thesis using inv by (auto simp: ready_count_def)
qed

lemma poller_run_sound_witness:
  "length (poll_readies [GmMark (OpMarkWatcher ''g'' WConnecting), GmRequest (ProfileRequest (Secret ''tok'')),
      GmMark (OpMarkWatcher ''g'' WIdling), GmReady (Inr ())]) = 1"
  using poller_run_sound [OF demo_steps] by simp

text \<open>
  C34. A healthy poller can be reported unhealthy: a configuration whose poll interval exceeds the
  stale limit is accepted, the poller marks progress only with a poll, and between two polls
  the health check fails one second after the limit, an hour before the next poll is due.
\<close>

theorem slow_poller_is_reported_stale:
  "validate slow_config = Inr () \<and>
   (\<exists>s h. run_machine (poll_step demo_poll) (poll_init True)
       [(ClientBuilt (Inr ()), 0), (PollLoopTop False, 0), (BaselineReplies (shell_exec demo_helper) [profile_reply ''7''], 0)]
        = Some (s, h) \<and>
      pw_pc s = PInterval (secs 7200) \<and> poll_step demo_poll s (PollTimer, secs 7199) = None \<and>
      (let st = apply_ops (map (\<lambda>op. (op, 0)) (OpRegisterWatcher ''g'' # poll_marks h))
           (new_runtime_state 0 (source_count slow_config) 0 (config_watcher_stale slow_config) 0)
       in is_healthy (secs 3600) st \<and> \<not> is_healthy (secs 3601) st))"
proof
  have nb: "\<not> blank (c # s)" if "\<not> ascii_ws c" "of_char c < (128::nat)" for c s
    by (rule not_blank_ascii [OF that])
  have "command_ok demo_command"
    by (simp add: command_ok_def demo_command_def opt_ok_def nb ascii_ws_def)
  moreover have "source_ok {} (GmailApiPoll demo_source)"
    by (simp add: demo_source_def opt_ok_def nb ascii_ws_def)
  moreover have "globals_ok slow_config"
    by (simp add: slow_config_def globals_ok_def demo_config_def source_count_def mailbox_count_def idle_refresh_def
        config_watcher_stale_def DEFAULT_IDLE_REFRESH_SECONDS_def DEFAULT_WATCHER_STALE_SECONDS_def
        from_secs_def secs_def)
  ultimately have "config_ok slow_config"
    by (simp add: config_ok_def slow_config_def demo_config_def legacy_names_def demo_command_def demo_source_def nb ascii_ws_def)
  then show "validate slow_config = Inr ()" by (simp add: validate_iff)
next
  let ?s = "\<lparr>pw_pc = PInterval (secs 7200), pw_tracker = \<lparr>last_history_id = Some 7\<rparr>, pw_backoff = INITIAL_BACKOFF, pw_ready = False\<rparr>"
  let ?h = "[GmMark (OpMarkWatcher ''g'' WConnecting), GmRequest (ProfileRequest (Secret ''tok'')),
      GmMark (OpMarkWatcher ''g'' WIdling), GmReady (Inr ())]"
  have silent: "pw_pc ?s = PInterval (secs 7200)" "poll_step demo_poll ?s (PollTimer, secs 7199) = None"
    by (simp_all add: poll_step.simps secs_def)
  have "config_watcher_stale slow_config = secs 3600"
    by (simp add: slow_config_def demo_config_def config_watcher_stale_def DEFAULT_WATCHER_STALE_SECONDS_def from_secs_def secs_def)
  moreover have "source_count slow_config = 1"
    by (simp add: slow_config_def demo_config_def source_count_def mailbox_count_def)
  ultimately have "let st = apply_ops (map (\<lambda>op. (op, 0)) (OpRegisterWatcher ''g'' # poll_marks ?h))
           (new_runtime_state 0 (source_count slow_config) 0 (config_watcher_stale slow_config) 0)
       in is_healthy (secs 3600) st \<and> \<not> is_healthy (secs 3601) st"
    by (simp add: new_runtime_state_def register_watcher_def mark_watcher_def watcher_entry_def is_healthy_def
        health_problem_def watchers_health_problem_def command_runners_health_problem_def watcher_problem_def
        elapsed_def secs_def Let_def)
  with silent demo_steps show "\<exists>s h. run_machine (poll_step demo_poll) (poll_init True)
       [(ClientBuilt (Inr ()), 0), (PollLoopTop False, 0), (BaselineReplies (shell_exec demo_helper) [profile_reply ''7''], 0)]
        = Some (s, h) \<and>
      pw_pc s = PInterval (secs 7200) \<and> poll_step demo_poll s (PollTimer, secs 7199) = None \<and>
      (let st = apply_ops (map (\<lambda>op. (op, 0)) (OpRegisterWatcher ''g'' # poll_marks h))
           (new_runtime_state 0 (source_count slow_config) 0 (config_watcher_stale slow_config) 0)
       in is_healthy (secs 3600) st \<and> \<not> is_healthy (secs 3601) st)"
    by blast
qed

end
