(* ===== verification/Fs_Watch.thy ===== *)
theory Fs_Watch
  imports Auth_Helper Command_Lane
begin

text \<open>
  The filesystem source (\<^verbatim>\<open>src/src/fs_state.rs\<close>): the state command and its result, the runner
  that settles batches of events, compares the state with its baseline, triggers the command
  and takes a new baseline, and the watcher task around it. The runner is one step machine
  whose suspension points are the \<^verbatim>\<open>select!\<close>s of the source's methods; a method's parameters
  and local variables are the arguments of its suspension point. Filesystem notification
  (\<^verbatim>\<open>notify\<close>) is a parameter: it delivers events and the results of its set-up calls.
\<close>

section \<open>Reading the state\<close>

datatype state_read_error =
  ReadStart string
| ReadWait string
| ReadOutput string
| ReadFailed string
| ReadTimedOut nat
| ReadCancelled
| ReadTooLarge nat
| ReadUtf8

definition STATE_CMD_MAX_OUTPUT_BYTES :: usize where "STATE_CMD_MAX_OUTPUT_BYTES = 1048576"
definition SELF_SETTLE_AFTER_COMMAND :: duration where "SELF_SETTLE_AFTER_COMMAND = secs 1"

fun state_read_error_from :: "process_error \<Rightarrow> state_read_error" where
  "state_read_error_from (StartError e) = ReadStart e"
| "state_read_error_from (WaitError e) = ReadWait e"
| "state_read_error_from (OutputError e) = ReadOutput e"

definition state_shell :: "string \<Rightarrow> duration \<Rightarrow> shell_config" where
  "state_shell command limit =
     run_shell_process command True False limit (Some STATE_CMD_MAX_OUTPUT_BYTES) True"

text \<open>\<open>ShellStateReader::read\<close>; \<open>None\<close> while the command runs.\<close>

definition shell_state_read ::
  "shell_exec \<Rightarrow> string \<Rightarrow> duration \<Rightarrow> (state_read_error, string) result option" where
  "shell_state_read exec command limit = (case exec (state_shell command limit) of
     None \<Rightarrow> None
   | Some (Inl e) \<Rightarrow> Some (Inl (state_read_error_from e))
   | Some (Inr (Completed st c)) \<Rightarrow>
       Some (if \<not> exit_success st then Inl (ReadFailed (describe_status st))
             else if \<not> utf8_valid (co_stdout c) then Inl ReadUtf8
             else Inr (trim_end_crlf (co_stdout c)))
   | Some (Inr (TimedOut c)) \<Rightarrow> Some (Inl (ReadTimedOut (as_secs limit)))
   | Some (Inr (Cancelled c)) \<Rightarrow> Some (Inl ReadCancelled)
   | Some (Inr (OutputLimitExceeded st l c)) \<Rightarrow> Some (Inl (ReadTooLarge (unat l))))"

section \<open>Batches and trackers\<close>

datatype fs_event = FsChanged | FsOverflow

datatype fs_baseline = Known string | Unknown

record event_batch =
  eb_first :: instant
  eb_last :: instant

definition new_batch :: "instant \<Rightarrow> event_batch" where
  "new_batch first = \<lparr>eb_first = first, eb_last = first\<rparr>"

record dirty_tracker =
  dt_first :: "instant option"
  dt_last :: "instant option"

definition clean :: dirty_tracker where "clean = \<lparr>dt_first = None, dt_last = None\<rparr>"

definition note_now :: "instant \<Rightarrow> dirty_tracker \<Rightarrow> dirty_tracker" where
  "note_now now d = d\<lparr>dt_first := (if dt_first d = None then Some now else dt_first d), dt_last := Some now\<rparr>"

datatype operation_result = ResIdle | ResDirtyAgain dirty_tracker | ResShutdown

definition into_operation_result :: "dirty_tracker \<Rightarrow> operation_result" where
  "into_operation_result d = (case dt_first d of Some _ \<Rightarrow> ResDirtyAgain d | None \<Rightarrow> ResIdle)"

text \<open>\<open>None\<close> is the panic of \<^verbatim>\<open>expect\<close>.\<close>

definition into_batch :: "dirty_tracker \<Rightarrow> event_batch option" where
  "into_batch d = map_option (\<lambda>first. \<lparr>eb_first = first, eb_last = unwrap_or (dt_last d) first\<rparr>) (dt_first d)"

section \<open>The runner\<close>

record fs_config =
  fc_debounce :: duration
  fc_max_debounce :: duration
  fc_self_settle :: duration
  fc_has_reader :: bool
  fc_has_state :: bool

text \<open>The constructors of \<open>FsStateRunner\<close>; its name is only logged.\<close>

definition new_fs_runner_with_settle :: "duration \<Rightarrow> duration \<Rightarrow> duration \<Rightarrow> bool \<Rightarrow> bool \<Rightarrow> fs_config" where
  "new_fs_runner_with_settle debounce max_debounce self_settle has_reader has_state =
     \<lparr>fc_debounce = debounce, fc_max_debounce = max_debounce, fc_self_settle = self_settle,
      fc_has_reader = has_reader, fc_has_state = has_state\<rparr>"

definition new_fs_runner :: "duration \<Rightarrow> duration \<Rightarrow> bool \<Rightarrow> bool \<Rightarrow> fs_config" where
  "new_fs_runner debounce max_debounce = new_fs_runner_with_settle debounce max_debounce SELF_SETTLE_AFTER_COMMAND"

datatype trigger_kind = BatchTrigger | StartupTrigger

datatype fs_pc =
  FStart
| FInitRead
| FTop
| FRecv
| FSettling event_batch instant
| FReading dirty_tracker bool
| FSubmitting trigger_kind dirty_tracker bool
| FRunning trigger_kind dirty_tracker bool bool
| FSelfSettle instant dirty_tracker bool
| FRebaseline dirty_tracker bool
| FOver
| FPanicked

record fs_state =
  fr_pc :: fs_pc
  fr_baseline :: "fs_baseline option"
  fr_startup :: bool
  fr_ready :: bool

datatype fs_input =
  FsBegin
| FsTop bool
| FsShutdown watch_change
| FsStartup "bool option"
| FsEvent "fs_event option"
| FsTimer
| FsRead "(state_read_error, string) result"
| FsStartResult "(trigger_error, unit) result"
| FsLifecycle "command_lifecycle option"

datatype read_purpose = StartupRead | CheckRead | RebaselineRead

text \<open>
  Effects. \<open>FoEvent\<close> is an event taken from the channel, with its time and whether the source
  suppresses it as its own command's; \<open>FoCommandOver\<close> is the end of a triggered command.
\<close>

datatype fs_output =
  FoMark rt_op
| FoReady "(state_read_error, unit) result"
| FoEvent instant bool
| FoRead instant read_purpose
| FoSubmit instant trigger_kind
| FoCommandOver instant trigger_kind bool

definition record_event :: "fs_config \<Rightarrow> instant \<Rightarrow> bool \<Rightarrow> fs_output list" where
  "record_event cfg now suppressed =
     FoEvent now suppressed # (if fc_has_state cfg then [FoMark OpEvent] else [])"

definition send_initial_ready :: "fs_state \<Rightarrow> fs_output list" where
  "send_initial_ready s = (if fr_ready s then [FoReady (Inr ())] else [])"

definition fs_goto :: "fs_pc \<Rightarrow> fs_state \<Rightarrow> fs_state" where
  "fs_goto pc s = s\<lparr>fr_pc := pc\<rparr>"

definition fs_init :: "bool \<Rightarrow> bool \<Rightarrow> fs_state" where
  "fs_init ready startup = \<lparr>fr_pc = FStart, fr_baseline = None, fr_startup = startup, fr_ready = ready\<rparr>"

text \<open>The three ways to run the source, and the choice \<open>watch_fs_state_forever\<close> makes.\<close>

definition fs_run :: fs_state where "fs_run = fs_init False False"

definition fs_run_with_initial_ready :: "bool \<Rightarrow> fs_state" where
  "fs_run_with_initial_ready startup = fs_init True startup"

definition fs_run_with_startup_signal :: fs_state where
  "fs_run_with_startup_signal = fs_init False True"

definition fs_run_choice :: "bool \<Rightarrow> bool \<Rightarrow> fs_state" where
  "fs_run_choice ready startup =
     (if ready then fs_run_with_initial_ready startup else if startup then fs_run_with_startup_signal else fs_run)"

lemma fs_run_choice [simp]: "fs_run_choice ready startup = fs_init ready startup"
  by (simp add: fs_run_choice_def fs_run_def fs_run_with_initial_ready_def fs_run_with_startup_signal_def)

text \<open>The start of \<open>run_inner\<close> and the result of its first read.\<close>

definition fs_begin :: "fs_config \<Rightarrow> instant \<Rightarrow> fs_state \<Rightarrow> fs_state \<times> fs_output list" where
  "fs_begin cfg now s =
     (if fc_has_reader cfg then (fs_goto FInitRead s, [FoRead now StartupRead])
      else (fs_goto FTop (s\<lparr>fr_ready := False\<rparr>), send_initial_ready s))"

fun fs_initial_baseline :: "(state_read_error, string) result \<Rightarrow> fs_state \<Rightarrow> fs_state \<times> fs_output list" where
  "fs_initial_baseline (Inr st) s =
     (fs_goto FTop (s\<lparr>fr_baseline := Some (Known st), fr_ready := False\<rparr>), send_initial_ready s)"
| "fs_initial_baseline (Inl ReadCancelled) s = (fs_goto FOver s, [])"
| "fs_initial_baseline (Inl e) s =
     (if fr_ready s then (fs_goto FOver (s\<lparr>fr_ready := False\<rparr>), [FoReady (Inl e)])
      else (fs_goto FTop (s\<lparr>fr_baseline := Some Unknown\<rparr>), []))"

text \<open>\<open>trigger_collecting_events\<close> up to its first suspension.\<close>

definition fs_trigger :: "trigger_kind \<Rightarrow> instant \<Rightarrow> fs_state \<Rightarrow> fs_state \<times> fs_output list" where
  "fs_trigger k now s = (fs_goto (FSubmitting k clean True) s, [FoSubmit now k])"

text \<open>The start of \<open>process_dirty_batch\<close>.\<close>

definition fs_check_now :: "fs_config \<Rightarrow> instant \<Rightarrow> fs_state \<Rightarrow> fs_state \<times> fs_output list" where
  "fs_check_now cfg now s =
     (if fc_has_reader cfg then (fs_goto (FReading clean True) s, [FoRead now CheckRead])
      else fs_trigger BatchTrigger now s)"

text \<open>The top of the loop of \<open>wait_for_settled_batch\<close>; the additions panic when they overflow.\<close>

definition fs_settle :: "fs_config \<Rightarrow> instant \<Rightarrow> event_batch \<Rightarrow> fs_state \<Rightarrow> fs_state \<times> fs_output list" where
  "fs_settle cfg now b s =
     (case (instant_add (eb_last b) (fc_debounce cfg), instant_add (eb_first b) (fc_max_debounce cfg)) of
        (Some quiet, Some bound) \<Rightarrow>
          (let due = min quiet bound in
             if due \<le> now then fs_check_now cfg now s else (fs_goto (FSettling b due) s, []))
      | _ \<Rightarrow> (fs_goto FPanicked s, []))"

text \<open>What \<open>run_inner\<close> does with the result of an operation.\<close>

fun fs_finish :: "fs_config \<Rightarrow> instant \<Rightarrow> operation_result \<Rightarrow> fs_state \<Rightarrow> fs_state \<times> fs_output list" where
  "fs_finish cfg now ResIdle s = (fs_goto FTop s, [])"
| "fs_finish cfg now ResShutdown s = (fs_goto FOver s, [])"
| "fs_finish cfg now (ResDirtyAgain d) s = (case into_batch d of
     None \<Rightarrow> (fs_goto FPanicked s, [])
   | Some b \<Rightarrow> fs_settle cfg now b s)"

definition fs_done :: "fs_config \<Rightarrow> instant \<Rightarrow> dirty_tracker \<Rightarrow> fs_state \<Rightarrow> fs_state \<times> fs_output list" where
  "fs_done cfg now d s = fs_finish cfg now (into_operation_result d) s"

text \<open>After a successful command: settle, then take a new baseline.\<close>

definition fs_rebaseline :: "fs_config \<Rightarrow> instant \<Rightarrow> dirty_tracker \<Rightarrow> fs_state \<Rightarrow> fs_state \<times> fs_output list" where
  "fs_rebaseline cfg now d s =
     (if fc_has_reader cfg then (fs_goto (FRebaseline d True) s, [FoRead now RebaselineRead])
      else fs_done cfg now d s)"

definition settle_after_own_command ::
  "fs_config \<Rightarrow> instant \<Rightarrow> dirty_tracker \<Rightarrow> fs_state \<Rightarrow> fs_state \<times> fs_output list" where
  "settle_after_own_command cfg now d s =
     (if fc_self_settle cfg = 0 then fs_rebaseline cfg now d s
      else (fs_goto (FSelfSettle (now + fc_self_settle cfg) d True) s, []))"

text \<open>A command that failed or was lost: a batch stays dirty, a startup trigger does not.\<close>

definition fs_command_failed ::
  "fs_config \<Rightarrow> trigger_kind \<Rightarrow> instant \<Rightarrow> dirty_tracker \<Rightarrow> fs_state \<Rightarrow> fs_state \<times> fs_output list" where
  "fs_command_failed cfg k now d s =
     apsnd (Cons (FoCommandOver now k False))
       (fs_done cfg now (if k = BatchTrigger then note_now now d else d) s)"

datatype trigger_operation =
  TriggerFinished command_run_report dirty_tracker
| TriggerFailed dirty_tracker
| TriggerShutdown

text \<open>\<open>process_dirty_batch\<close> and \<open>process_startup_trigger\<close> from the end of their command.\<close>

fun process_dirty_batch :: "fs_config \<Rightarrow> instant \<Rightarrow> trigger_operation \<Rightarrow> fs_state \<Rightarrow> fs_state \<times> fs_output list" where
  "process_dirty_batch cfg now (TriggerFinished report d) s =
     (if report_success report
      then apsnd (Cons (FoCommandOver now BatchTrigger True)) (settle_after_own_command cfg now d s)
      else apsnd (Cons (FoCommandOver now BatchTrigger False)) (fs_done cfg now (note_now now d) s))"
| "process_dirty_batch cfg now (TriggerFailed d) s =
     apsnd (Cons (FoCommandOver now BatchTrigger False)) (fs_done cfg now (note_now now d) s)"
| "process_dirty_batch cfg now TriggerShutdown s = (fs_goto FOver s, [])"

fun process_startup_trigger :: "fs_config \<Rightarrow> instant \<Rightarrow> trigger_operation \<Rightarrow> fs_state \<Rightarrow> fs_state \<times> fs_output list" where
  "process_startup_trigger cfg now (TriggerFinished report d) s =
     (if report_success report
      then apsnd (Cons (FoCommandOver now StartupTrigger True)) (settle_after_own_command cfg now d s)
      else apsnd (Cons (FoCommandOver now StartupTrigger False)) (fs_done cfg now d s))"
| "process_startup_trigger cfg now (TriggerFailed d) s =
     apsnd (Cons (FoCommandOver now StartupTrigger False)) (fs_done cfg now d s)"
| "process_startup_trigger cfg now TriggerShutdown s = (fs_goto FOver s, [])"

definition fs_triggered ::
  "fs_config \<Rightarrow> trigger_kind \<Rightarrow> instant \<Rightarrow> trigger_operation \<Rightarrow> fs_state \<Rightarrow> fs_state \<times> fs_output list" where
  "fs_triggered cfg k now = (case k of
     BatchTrigger \<Rightarrow> process_dirty_batch cfg now | StartupTrigger \<Rightarrow> process_startup_trigger cfg now)"

lemma fs_triggered_simps [simp]:
  "fs_triggered cfg k now (TriggerFinished report d) s =
     (if report_success report
      then apsnd (Cons (FoCommandOver now k True)) (settle_after_own_command cfg now d s)
      else fs_command_failed cfg k now d s)"
  "fs_triggered cfg k now (TriggerFailed d) s = fs_command_failed cfg k now d s"
  "fs_triggered cfg k now TriggerShutdown s = (fs_goto FOver s, [])"
  by (cases k; simp add: fs_triggered_def fs_command_failed_def)+

text \<open>The source's \<open>startup\<close> receiver is dropped with the one startup trigger.\<close>

definition run_on_startup_trigger :: "instant \<Rightarrow> fs_state \<Rightarrow> fs_state \<times> fs_output list" where
  "run_on_startup_trigger now s = fs_trigger StartupTrigger now (s\<lparr>fr_startup := False\<rparr>)"

text \<open>The methods at their suspension points.\<close>

fun recv_work :: "fs_config \<Rightarrow> instant \<Rightarrow> fs_state \<Rightarrow> fs_input \<Rightarrow> (fs_state \<times> fs_output list) option" where
  "recv_work cfg now s (FsShutdown changed) = Some (fs_goto (if asks_stop changed then FOver else FTop) s, [])"
| "recv_work cfg now s (FsStartup v) =
     (if \<not> fr_startup s then None
      else (case v of
         Some True \<Rightarrow> Some (run_on_startup_trigger now s)
       | Some False \<Rightarrow> Some (fs_goto FTop s, [])
       | None \<Rightarrow> Some (fs_goto FTop (s\<lparr>fr_startup := False\<rparr>), [])))"
| "recv_work cfg now s (FsEvent None) = Some (fs_goto FOver s, [])"
| "recv_work cfg now s (FsEvent (Some e)) =
     Some (apsnd (append (record_event cfg now False)) (fs_settle cfg now (new_batch now) s))"
| "recv_work cfg now s _ = None"

fun wait_for_settled_batch ::
  "fs_config \<Rightarrow> instant \<Rightarrow> fs_state \<Rightarrow> event_batch \<Rightarrow> instant \<Rightarrow> fs_input \<Rightarrow> (fs_state \<times> fs_output list) option" where
  "wait_for_settled_batch cfg now s b due FsTimer = (if due \<le> now then Some (fs_check_now cfg now s) else None)"
| "wait_for_settled_batch cfg now s b due (FsShutdown changed) =
     Some (if asks_stop changed then (fs_goto FOver s, []) else fs_settle cfg now b s)"
| "wait_for_settled_batch cfg now s b due (FsEvent None) = Some (fs_goto FOver s, [])"
| "wait_for_settled_batch cfg now s b due (FsEvent (Some e)) =
     Some (apsnd (append (record_event cfg now False)) (fs_settle cfg now (b\<lparr>eb_last := now\<rparr>) s))"
| "wait_for_settled_batch cfg now s b due _ = None"

fun compare_state ::
  "fs_config \<Rightarrow> instant \<Rightarrow> fs_state \<Rightarrow> dirty_tracker \<Rightarrow> (state_read_error, string) result \<Rightarrow> fs_state \<times> fs_output list" where
  "compare_state cfg now s d (Inr st) =
     (if fr_baseline s = Some (Known st) then fs_done cfg now d s else fs_trigger BatchTrigger now s)"
| "compare_state cfg now s d (Inl ReadCancelled) = (fs_goto FOver s, [])"
| "compare_state cfg now s d (Inl e) = fs_done cfg now d s"

fun accept_state ::
  "fs_config \<Rightarrow> instant \<Rightarrow> fs_state \<Rightarrow> dirty_tracker \<Rightarrow> (state_read_error, string) result \<Rightarrow> fs_state \<times> fs_output list" where
  "accept_state cfg now s d (Inr st) = fs_done cfg now d (s\<lparr>fr_baseline := Some (Known st)\<rparr>)"
| "accept_state cfg now s d (Inl ReadCancelled) = (fs_goto FOver s, [])"
| "accept_state cfg now s d (Inl e) = fs_done cfg now d s"

text \<open>
  The common branches of the four collecting loops: a stop request, an event while the channel is
  open, and its closing. \<open>resume\<close> rebuilds the suspension point, \<open>suppress\<close> ignores the event.
\<close>

fun collecting_events ::
  "fs_config \<Rightarrow> instant \<Rightarrow> fs_state \<Rightarrow> (dirty_tracker \<Rightarrow> bool \<Rightarrow> fs_pc) \<Rightarrow> bool \<Rightarrow> dirty_tracker \<Rightarrow> bool \<Rightarrow> fs_input
    \<Rightarrow> (fs_state \<times> fs_output list) option" where
  "collecting_events cfg now s resume suppress d events_open (FsShutdown changed) =
     Some (fs_goto (if asks_stop changed then FOver else resume d events_open) s, [])"
| "collecting_events cfg now s resume suppress d True (FsEvent None) = Some (fs_goto (resume d False) s, [])"
| "collecting_events cfg now s resume suppress d True (FsEvent (Some e)) =
     Some (fs_goto (resume (if suppress then d else note_now now d) True) s, record_event cfg now suppress)"
| "collecting_events cfg now s resume suppress d _ _ = None"

fun command_running ::
  "fs_config \<Rightarrow> instant \<Rightarrow> fs_state \<Rightarrow> trigger_kind \<Rightarrow> dirty_tracker \<Rightarrow> bool \<Rightarrow> bool \<Rightarrow> command_lifecycle option
    \<Rightarrow> fs_state \<times> fs_output list" where
  "command_running cfg now s k d events_open own (Some Started) = (fs_goto (FRunning k d events_open True) s, [])"
| "command_running cfg now s k d events_open own (Some (Finished report)) =
     fs_triggered cfg k now (TriggerFinished report d) s"
| "command_running cfg now s k d events_open own None = fs_triggered cfg k now (TriggerFailed d) s"

text \<open>\<open>read_state_collecting_events\<close> before a decision.\<close>

definition fs_reading :: "fs_config \<Rightarrow> instant \<Rightarrow> fs_state \<Rightarrow> dirty_tracker \<Rightarrow> bool \<Rightarrow> fs_input \<Rightarrow> (fs_state \<times> fs_output list) option" where
  "fs_reading cfg now s d events_open i = (case i of
     FsRead r \<Rightarrow> Some (compare_state cfg now s d r)
   | _ \<Rightarrow> collecting_events cfg now s FReading False d events_open i)"

text \<open>The two loops of \<open>trigger_collecting_events\<close>.\<close>

definition fs_submitting :: "fs_config \<Rightarrow> instant \<Rightarrow> fs_state \<Rightarrow> trigger_kind \<Rightarrow> dirty_tracker \<Rightarrow> bool \<Rightarrow> fs_input
    \<Rightarrow> (fs_state \<times> fs_output list) option" where
  "fs_submitting cfg now s k d events_open i = (case i of
     FsStartResult (Inr _) \<Rightarrow> Some (fs_goto (FRunning k d events_open False) s, [])
   | FsStartResult (Inl e) \<Rightarrow> Some (fs_triggered cfg k now (TriggerFailed d) s)
   | _ \<Rightarrow> collecting_events cfg now s (FSubmitting k) False d events_open i)"

definition fs_running :: "fs_config \<Rightarrow> instant \<Rightarrow> fs_state \<Rightarrow> trigger_kind \<Rightarrow> dirty_tracker \<Rightarrow> bool \<Rightarrow> bool \<Rightarrow> fs_input
    \<Rightarrow> (fs_state \<times> fs_output list) option" where
  "fs_running cfg now s k d events_open own i = (case i of
     FsLifecycle l \<Rightarrow> Some (command_running cfg now s k d events_open own l)
   | _ \<Rightarrow> collecting_events cfg now s (\<lambda>d' open'. FRunning k d' open' own) own d events_open i)"

text \<open>The loop of \<open>settle_after_own_command\<close>.\<close>

definition fs_own_settling :: "fs_config \<Rightarrow> instant \<Rightarrow> fs_state \<Rightarrow> instant \<Rightarrow> dirty_tracker \<Rightarrow> bool \<Rightarrow> fs_input
    \<Rightarrow> (fs_state \<times> fs_output list) option" where
  "fs_own_settling cfg now s until d events_open i = (case i of
     FsTimer \<Rightarrow> if until \<le> now then Some (fs_rebaseline cfg now d s) else None
   | _ \<Rightarrow> collecting_events cfg now s (FSelfSettle until) True d events_open i)"

text \<open>\<open>read_state_collecting_events\<close> with its events suppressed, for the new baseline.\<close>

definition fs_rebaselining :: "fs_config \<Rightarrow> instant \<Rightarrow> fs_state \<Rightarrow> dirty_tracker \<Rightarrow> bool \<Rightarrow> fs_input
    \<Rightarrow> (fs_state \<times> fs_output list) option" where
  "fs_rebaselining cfg now s d events_open i = (case i of
     FsRead r \<Rightarrow> Some (accept_state cfg now s d r)
   | _ \<Rightarrow> collecting_events cfg now s FRebaseline True d events_open i)"

text \<open>The check at the top of the loop of \<open>recv_work\<close>.\<close>

definition recv_work_top :: "instant \<Rightarrow> fs_state \<Rightarrow> fs_input \<Rightarrow> (fs_state \<times> fs_output list) option" where
  "recv_work_top now s i = (case i of
     FsTop started \<Rightarrow> Some (if fr_startup s \<and> started then run_on_startup_trigger now s else (fs_goto FRecv s, []))
   | _ \<Rightarrow> None)"

fun fs_step :: "fs_config \<Rightarrow> (fs_state, fs_input \<times> instant, fs_output) machine" where
  "fs_step cfg s (i, now) = (case fr_pc s of
     FStart \<Rightarrow> (case i of FsBegin \<Rightarrow> Some (fs_begin cfg now s) | _ \<Rightarrow> None)
   | FInitRead \<Rightarrow> (case i of FsRead r \<Rightarrow> Some (fs_initial_baseline r s) | _ \<Rightarrow> None)
   | FTop \<Rightarrow> recv_work_top now s i
   | FRecv \<Rightarrow> recv_work cfg now s i
   | FSettling b due \<Rightarrow> wait_for_settled_batch cfg now s b due i
   | FReading d events_open \<Rightarrow> fs_reading cfg now s d events_open i
   | FSubmitting k d events_open \<Rightarrow> fs_submitting cfg now s k d events_open i
   | FRunning k d events_open own \<Rightarrow> fs_running cfg now s k d events_open own i
   | FSelfSettle until d events_open \<Rightarrow> fs_own_settling cfg now s until d events_open i
   | FRebaseline d events_open \<Rightarrow> fs_rebaselining cfg now s d events_open i
   | FOver \<Rightarrow> None
   | FPanicked \<Rightarrow> None)"

lemmas fs_points = fs_reading_def fs_submitting_def fs_running_def fs_own_settling_def fs_rebaselining_def
  recv_work_top_def run_on_startup_trigger_def

declare fs_step.simps [simp del]

section \<open>Outstanding work\<close>

text \<open>
  What is still to be checked after a history: the times of the events since the last check
  that were not suppressed, and of failed batch commands, which keep the source dirty. A failed
  startup command does not.
\<close>

fun fs_unserved :: "instant list \<Rightarrow> fs_output list \<Rightarrow> instant list" where
  "fs_unserved ts [] = ts"
| "fs_unserved ts (FoEvent t suppressed # os) = fs_unserved (if suppressed then ts else ts @ [t]) os"
| "fs_unserved ts (FoRead t CheckRead # os) = fs_unserved [] os"
| "fs_unserved ts (FoSubmit t k # os) = fs_unserved [] os"
| "fs_unserved ts (FoCommandOver t BatchTrigger False # os) = fs_unserved (ts @ [t]) os"
| "fs_unserved ts (_ # os) = fs_unserved ts os"

text \<open>When a batch is due: after a quiet period, but no later than the bound from its first event.\<close>

definition fs_due :: "fs_config \<Rightarrow> instant list \<Rightarrow> instant" where
  "fs_due cfg ts = min (last ts + fc_debounce cfg) (hd ts + fc_max_debounce cfg)"

definition batch_is_due :: "fs_config \<Rightarrow> instant list \<Rightarrow> instant \<Rightarrow> bool" where
  "batch_is_due cfg ts t \<longleftrightarrow> ts \<noteq> [] \<and> fs_due cfg ts \<le> t"

text \<open>Every check of a history is due when it begins.\<close>

fun checks_due :: "fs_config \<Rightarrow> instant list \<Rightarrow> fs_output list \<Rightarrow> bool" where
  "checks_due cfg ts [] = True"
| "checks_due cfg ts (FoRead t CheckRead # os) \<longleftrightarrow> batch_is_due cfg ts t \<and> checks_due cfg [] os"
| "checks_due cfg ts (FoSubmit t k # os) \<longleftrightarrow>
     (k = BatchTrigger \<longrightarrow> \<not> fc_has_reader cfg \<longrightarrow> batch_is_due cfg ts t) \<and> checks_due cfg [] os"
| "checks_due cfg ts (x # os) = checks_due cfg (fs_unserved ts [x]) os"

lemma fs_unserved_append [simp]: "fs_unserved ts (xs @ ys) = fs_unserved (fs_unserved ts xs) ys"
  by (induction ts xs rule: fs_unserved.induct) auto

lemma checks_due_append [simp]:
  "checks_due cfg ts (xs @ ys) \<longleftrightarrow> checks_due cfg ts xs \<and> checks_due cfg (fs_unserved ts xs) ys"
proof (induction xs arbitrary: ts)
  case (Cons x xs)
  then show ?case
  proof (cases x)
    case (FoRead t p)
    with Cons show ?thesis by (cases p) auto
  next
    case (FoCommandOver t k ok)
    with Cons show ?thesis by (cases k; cases ok) auto
  qed auto
qed simp

lemma record_event_work [simp]:
  "fs_unserved ts (record_event cfg now suppressed) = (if suppressed then ts else ts @ [now])"
  "checks_due cfg ts (record_event cfg now suppressed)"
  by (simp_all add: record_event_def)

lemma send_initial_ready_work [simp]:
  "fs_unserved ts (send_initial_ready s) = ts" "checks_due cfg ts (send_initial_ready s)"
  by (simp_all add: send_initial_ready_def)

definition tracks :: "dirty_tracker \<Rightarrow> instant list \<Rightarrow> bool" where
  "tracks d ts \<longleftrightarrow> dt_first d = (if ts = [] then None else Some (hd ts)) \<and>
     dt_last d = (if ts = [] then None else Some (last ts))"

lemma tracks_clean [simp]: "tracks clean []"
  by (simp add: tracks_def clean_def)

lemma tracks_note [simp]: "tracks d ts \<Longrightarrow> tracks (note_now now d) (ts @ [now])"
  by (auto simp: tracks_def note_now_def)

definition covers :: "event_batch \<Rightarrow> instant list \<Rightarrow> bool" where
  "covers b ts \<longleftrightarrow> ts \<noteq> [] \<and> eb_first b = hd ts \<and> eb_last b = last ts"

text \<open>How a suspension point accounts for the outstanding work.\<close>

definition pc_ok :: "fs_config \<Rightarrow> instant list \<Rightarrow> fs_pc \<Rightarrow> bool" where
  "pc_ok cfg ts pc \<longleftrightarrow> (case pc of
     FStart \<Rightarrow> ts = [] | FInitRead \<Rightarrow> ts = [] | FTop \<Rightarrow> ts = [] | FRecv \<Rightarrow> ts = []
   | FSettling b due \<Rightarrow> covers b ts \<and> due = fs_due cfg ts
   | FReading d events_open \<Rightarrow> fc_has_reader cfg \<and> tracks d ts
   | FSubmitting k d events_open \<Rightarrow> tracks d ts
   | FRunning k d events_open own \<Rightarrow> tracks d ts
   | FSelfSettle until d events_open \<Rightarrow> tracks d ts
   | FRebaseline d events_open \<Rightarrow> tracks d ts
   | FOver \<Rightarrow> True
   | FPanicked \<Rightarrow> ts \<noteq> [] \<and> instant_limit \<le> max (last ts + fc_debounce cfg) (hd ts + fc_max_debounce cfg))"

definition fs_ok :: "fs_config \<Rightarrow> instant list \<Rightarrow> fs_state \<times> fs_output list \<Rightarrow> bool" where
  "fs_ok cfg ts r \<longleftrightarrow> checks_due cfg ts (snd r) \<and> pc_ok cfg (fs_unserved ts (snd r)) (fr_pc (fst r))"

named_theorems fs_rules \<open>what the pieces of the runner do to the outstanding work\<close>

lemma fs_goto_ok [fs_rules]: "pc_ok cfg ts pc \<Longrightarrow> fs_ok cfg ts (fs_goto pc s, [])"
  by (simp add: fs_ok_def fs_goto_def)

lemma fs_ok_append [fs_rules]:
  "checks_due cfg ts os \<Longrightarrow> fs_ok cfg (fs_unserved ts os) r \<Longrightarrow> fs_ok cfg ts (apsnd (append os) r)"
  by (cases r) (simp add: fs_ok_def)

lemma fs_trigger_ok [fs_rules]:
  "(k = BatchTrigger \<Longrightarrow> \<not> fc_has_reader cfg \<Longrightarrow> batch_is_due cfg ts now) \<Longrightarrow> fs_ok cfg ts (fs_trigger k now s)"
  by (auto simp: fs_ok_def fs_trigger_def fs_goto_def pc_ok_def)

text \<open>With a debounce time of the size TOML can express, the first change after the clock's origin panics.\<close>

lemma huge_debounce_panics:
  assumes "fc_debounce cfg = from_secs 9223372036854775807" "secs 1 \<le> eb_last b"
  shows "fs_settle cfg now b s = (fs_goto FPanicked s, [])"
  using assms by (simp add: fs_settle_def instant_add_def instant_limit_def from_secs_def secs_def)

lemma fs_check_ok [fs_rules]: "batch_is_due cfg ts now \<Longrightarrow> fs_ok cfg ts (fs_check_now cfg now s)"
  unfolding fs_check_now_def by (simp add: fs_trigger_ok) (simp add: fs_ok_def fs_goto_def pc_ok_def)

lemma fs_settle_ok [fs_rules]:
  assumes "covers b ts"
  shows "fs_ok cfg ts (fs_settle cfg now b s)"
proof (cases "instant_add (eb_last b) (fc_debounce cfg)")
  case None
  then have "instant_limit \<le> last ts + fc_debounce cfg" using assms by (simp add: covers_def)
  moreover have "fs_settle cfg now b s = (fs_goto FPanicked s, [])" by (simp add: fs_settle_def None)
  ultimately show ?thesis using assms by (simp add: covers_def pc_ok_def le_max_iff_disj fs_goto_ok)
next
  case (Some quiet)
  show ?thesis
  proof (cases "instant_add (eb_first b) (fc_max_debounce cfg)")
    case None
    then have "instant_limit \<le> hd ts + fc_max_debounce cfg" using assms by (simp add: covers_def)
    moreover have "fs_settle cfg now b s = (fs_goto FPanicked s, [])" by (simp add: fs_settle_def Some None)
    ultimately show ?thesis using assms by (simp add: covers_def pc_ok_def le_max_iff_disj fs_goto_ok)
  next
    case bound: (Some bound)
    have due: "min quiet bound = fs_due cfg ts" using Some bound assms by (simp add: fs_due_def covers_def)
    show ?thesis
    proof (cases "fs_due cfg ts \<le> now")
      case True
      then have "batch_is_due cfg ts now" using assms by (simp add: batch_is_due_def covers_def)
      with True show ?thesis by (simp add: fs_settle_def Some bound due fs_check_ok Let_def)
    next
      case False
      with assms show ?thesis by (auto simp: fs_settle_def Some bound due pc_ok_def Let_def intro: fs_goto_ok)
    qed
  qed
qed

lemma fs_done_ok [fs_rules]:
  assumes "tracks d ts"
  shows "fs_ok cfg ts (fs_done cfg now d s)"
proof (cases "ts = []")
  case True
  with assms show ?thesis
    by (auto simp: fs_done_def into_operation_result_def tracks_def pc_ok_def intro!: fs_goto_ok)
next
  case False
  let ?b = "\<lparr>eb_first = hd ts, eb_last = last ts\<rparr>"
  have "into_operation_result d = ResDirtyAgain d" "into_batch d = Some ?b"
    using assms False by (simp_all add: into_operation_result_def into_batch_def tracks_def unwrap_or_def)
  moreover have "covers ?b ts" using False by (simp add: covers_def)
  ultimately show ?thesis by (simp add: fs_done_def fs_settle_ok)
qed

lemma fs_rebaseline_ok [fs_rules]: "tracks d ts \<Longrightarrow> fs_ok cfg ts (fs_rebaseline cfg now d s)"
  unfolding fs_rebaseline_def by (simp add: fs_done_ok) (simp add: fs_ok_def fs_goto_def pc_ok_def)

lemma settle_after_own_ok [fs_rules]: "tracks d ts \<Longrightarrow> fs_ok cfg ts (settle_after_own_command cfg now d s)"
  unfolding settle_after_own_command_def by (simp add: fs_rebaseline_ok) (simp add: fs_ok_def fs_goto_def pc_ok_def)

lemma fs_ok_over [fs_rules]:
  "fs_ok cfg (fs_unserved ts [FoCommandOver now k ok]) r \<Longrightarrow> fs_ok cfg ts (apsnd (Cons (FoCommandOver now k ok)) r)"
  by (cases r; cases k; cases ok) (simp_all add: fs_ok_def)

lemma fs_command_failed_ok [fs_rules]: "tracks d ts \<Longrightarrow> fs_ok cfg ts (fs_command_failed cfg k now d s)"
  unfolding fs_command_failed_def by (rule fs_ok_over) (cases k; simp add: fs_done_ok)

lemma covers_new [simp]: "covers (new_batch now) [now]"
  by (simp add: covers_def new_batch_def)

lemma covers_more [simp]: "covers b ts \<Longrightarrow> covers (b\<lparr>eb_last := now\<rparr>) (ts @ [now])"
  by (auto simp: covers_def)

text \<open>The suspension points one by one.\<close>

lemma recv_work_ok: "recv_work cfg now s i = Some r \<Longrightarrow> fs_ok cfg [] r"
  by (cases "(cfg, now, s, i)" rule: recv_work.cases)
     (auto simp: pc_ok_def run_on_startup_trigger_def split: if_splits option.splits bool.splits
       intro!: fs_goto_ok fs_ok_append fs_settle_ok fs_trigger_ok)

lemma settling_ok:
  assumes "wait_for_settled_batch cfg now s b due i = Some r" "covers b ts" "due = fs_due cfg ts"
  shows "fs_ok cfg ts r"
proof -
  have "ts \<noteq> []" using assms(2) by (simp add: covers_def)
  with assms show ?thesis
    by (cases "(cfg, now, s, b, due, i)" rule: wait_for_settled_batch.cases)
       (auto simp: pc_ok_def batch_is_due_def split: if_splits
         intro!: fs_goto_ok fs_ok_append fs_settle_ok fs_check_ok)
qed

lemma collecting_ok:
  assumes "collecting_events cfg now s resume suppress d events_open i = Some r" "tracks d ts"
    "\<And>d' open' ts'. tracks d' ts' \<Longrightarrow> pc_ok cfg ts' (resume d' open')"
  shows "fs_ok cfg ts r"
  using assms
  by (cases "(cfg, now, s, resume, suppress, d, events_open, i)" rule: collecting_events.cases)
     (auto simp: pc_ok_def fs_ok_def fs_goto_def split: if_splits)

lemma compare_state_ok: "tracks d ts \<Longrightarrow> fc_has_reader cfg \<Longrightarrow> fs_ok cfg ts (compare_state cfg now s d r)"
  by (cases "(cfg, now, s, d, r)" rule: compare_state.cases)
     (auto simp: pc_ok_def intro!: fs_goto_ok fs_done_ok fs_trigger_ok)

lemma accept_state_ok: "tracks d ts \<Longrightarrow> fs_ok cfg ts (accept_state cfg now s d r)"
  by (cases "(cfg, now, s, d, r)" rule: accept_state.cases) (auto simp: pc_ok_def intro!: fs_goto_ok fs_done_ok)

lemma command_running_ok: "tracks d ts \<Longrightarrow> fs_ok cfg ts (command_running cfg now s k d events_open own l)"
proof (cases "(cfg, now, s, k, d, events_open, own, l)" rule: command_running.cases)
  case (2 cfg' now' s' k' d' o' own' report)
  then show "tracks d ts \<Longrightarrow> ?thesis"
    by (cases "k") (auto intro!: fs_ok_over settle_after_own_ok fs_command_failed_ok)
qed (auto simp: pc_ok_def intro!: fs_goto_ok fs_command_failed_ok)

lemma initial_baseline_ok: "fs_ok cfg [] (fs_initial_baseline r s)"
  by (cases "(r, s)" rule: fs_initial_baseline.cases) (auto simp: pc_ok_def fs_ok_def fs_goto_def)

lemma fs_begin_ok: "fs_ok cfg [] (fs_begin cfg now s)"
  by (simp add: fs_begin_def pc_ok_def fs_ok_def fs_goto_def)

definition fs_inv :: "fs_config \<Rightarrow> fs_state \<Rightarrow> fs_output list \<Rightarrow> bool" where
  "fs_inv cfg s h \<longleftrightarrow> checks_due cfg [] h \<and> pc_ok cfg (fs_unserved [] h) (fr_pc s)"

lemma collecting_pcs:
  "fc_has_reader cfg \<Longrightarrow> tracks d ts \<Longrightarrow> pc_ok cfg ts (FReading d o1)" "tracks d ts \<Longrightarrow> pc_ok cfg ts (FSubmitting k d o1)"
  "tracks d ts \<Longrightarrow> pc_ok cfg ts (FRunning k d o1 own)" "tracks d ts \<Longrightarrow> pc_ok cfg ts (FSelfSettle u d o1)"
  "tracks d ts \<Longrightarrow> pc_ok cfg ts (FRebaseline d o1)"
  by (simp_all add: pc_ok_def)

lemma fs_step_ok:
  assumes pc: "pc_ok cfg ts (fr_pc s)" and step: "fs_step cfg s io = Some r"
  shows "fs_ok cfg ts r"
proof (cases io)
  case (Pair i now)
  note step' = step [unfolded Pair fs_step.simps fs_points]
  show ?thesis
  proof (cases "fr_pc s")
    case FStart
    with pc step' fs_begin_ok show ?thesis by (cases i) (auto simp: pc_ok_def)
  next
    case FInitRead
    with pc step' initial_baseline_ok show ?thesis by (cases i) (auto simp: pc_ok_def)
  next
    case FTop
    with pc step' show ?thesis
      by (cases i) (auto simp: pc_ok_def intro!: fs_trigger_ok fs_goto_ok split: if_splits)
  next
    case FRecv
    with pc step' recv_work_ok show ?thesis by (auto simp: pc_ok_def)
  next
    case (FSettling b due)
    with pc step' settling_ok show ?thesis by (auto simp: pc_ok_def)
  next
    case (FReading d events_open)
    then have d: "tracks d ts" "fc_has_reader cfg" using pc by (simp_all add: pc_ok_def)
    show ?thesis
    proof (cases "\<exists>x. i = FsRead x")
      case False
      with step' FReading have "collecting_events cfg now s FReading False d events_open i = Some r" by (cases i) auto
      then show ?thesis by (rule collecting_ok [OF _ d(1)]) (rule collecting_pcs(1) [OF d(2)])
    qed (use step' FReading compare_state_ok [OF d] in auto)
  next
    case (FSubmitting k d events_open)
    then have d: "tracks d ts" using pc by (simp add: pc_ok_def)
    show ?thesis
    proof (cases "\<exists>x. i = FsStartResult x")
      case False
      with step' FSubmitting have "collecting_events cfg now s (FSubmitting k) False d events_open i = Some r" by (cases i) auto
      then show ?thesis by (rule collecting_ok [OF _ d]) (rule collecting_pcs(2))
    next
      case True
      then obtain x where "i = FsStartResult x" by blast
      with step' FSubmitting d show ?thesis
        by (cases x) (auto intro!: fs_goto_ok collecting_pcs fs_command_failed_ok)
    qed
  next
    case (FRunning k d events_open own)
    then have d: "tracks d ts" using pc by (simp add: pc_ok_def)
    show ?thesis
    proof (cases "\<exists>x. i = FsLifecycle x")
      case False
      with step' FRunning have "collecting_events cfg now s (\<lambda>d' open'. FRunning k d' open' own) own d events_open i = Some r"
        by (cases i) auto
      then show ?thesis by (rule collecting_ok [OF _ d]) (rule collecting_pcs(3))
    qed (use step' FRunning command_running_ok [OF d] in auto)
  next
    case (FSelfSettle until d events_open)
    then have d: "tracks d ts" using pc by (simp add: pc_ok_def)
    show ?thesis
    proof (cases "i = FsTimer")
      case False
      with step' FSelfSettle have "collecting_events cfg now s (FSelfSettle until) True d events_open i = Some r" by (cases i) auto
      then show ?thesis by (rule collecting_ok [OF _ d]) (rule collecting_pcs(4))
    qed (use step' FSelfSettle fs_rebaseline_ok [OF d] in \<open>auto split: if_splits\<close>)
  next
    case (FRebaseline d events_open)
    then have d: "tracks d ts" using pc by (simp add: pc_ok_def)
    show ?thesis
    proof (cases "\<exists>x. i = FsRead x")
      case False
      with step' FRebaseline have "collecting_events cfg now s FRebaseline True d events_open i = Some r" by (cases i) auto
      then show ?thesis by (rule collecting_ok [OF _ d]) (rule collecting_pcs(5))
    qed (use step' FRebaseline accept_state_ok [OF d] in auto)
  qed (use step' in auto)
qed

definition fs_final :: "fs_state \<Rightarrow> bool" where
  "fs_final s \<longleftrightarrow> fr_pc s = FOver \<or> fr_pc s = FPanicked"

interpretation fs_runner: halting_machine "fs_step cfg" "fs_init ready startup" "fs_inv cfg" fs_final
proof
  show "fs_inv cfg (fs_init ready startup) []" by (simp add: fs_inv_def fs_init_def pc_ok_def)
  show "fs_inv cfg s h \<Longrightarrow> fs_step cfg s i = Some (s', os) \<Longrightarrow> fs_inv cfg s' (h @ os)" for s h i s' os
    using fs_step_ok [of cfg "fs_unserved [] h" s i "(s', os)"] by (simp add: fs_inv_def fs_ok_def)
  show "fs_final s \<Longrightarrow> fs_step cfg s i = None" for s i
    by (cases i) (auto simp: fs_final_def fs_step.simps)
qed

section \<open>A command's own events\<close>

text \<open>The suspension points at which events are taken for the command's own.\<close>

definition suppressing :: "fs_pc \<Rightarrow> bool" where
  "suppressing pc \<longleftrightarrow> (case pc of
     FRunning k d events_open own \<Rightarrow> events_open \<and> own
   | FSelfSettle until d events_open \<Rightarrow> events_open
   | FRebaseline d events_open \<Rightarrow> events_open
   | _ \<Rightarrow> False)"

definition events_only :: "(fs_input \<times> instant) list \<Rightarrow> bool" where
  "events_only ins \<longleftrightarrow> (\<forall>i \<in> set ins. \<exists>e. fst i = FsEvent (Some e))"

fun submissions :: "fs_output list \<Rightarrow> nat" where
  "submissions [] = 0"
| "submissions (FoSubmit t k # os) = Suc (submissions os)"
| "submissions (_ # os) = submissions os"

lemma submissions_append [simp]: "submissions (xs @ ys) = submissions xs + submissions ys"
  by (induction xs rule: submissions.induct) auto

lemma submissions_record [simp]: "submissions (record_event cfg now suppressed) = 0"
  by (simp add: record_event_def)

lemma suppressed_event:
  "suppressing (fr_pc s) \<Longrightarrow> fs_step cfg s (FsEvent (Some e), now) = Some (s, record_event cfg now True)"
  by (cases "fr_pc s") (auto simp: suppressing_def fs_step.simps fs_points fs_goto_def)

lemma suppressed_events:
  assumes "events_only ins" "suppressing (fr_pc s)"
  shows "\<exists>os. run_machine (fs_step cfg) s ins = Some (s, os) \<and> fs_unserved ts os = ts \<and> submissions os = 0"
  using assms
proof (induction ins)
  case (Cons i ins)
  then obtain e now where i: "i = (FsEvent (Some e), now)" by (cases i) (auto simp: events_only_def)
  obtain os where "run_machine (fs_step cfg) s ins = Some (s, os)" "fs_unserved ts os = ts" "submissions os = 0"
    using Cons by (auto simp: events_only_def)
  with suppressed_event [OF Cons.prems(2), of cfg e now] show ?case by (simp add: i)
qed simp

section \<open>The watcher task\<close>

text \<open>The event kinds of \<^verbatim>\<open>notify\<close> that the source distinguishes.\<close>

datatype access_mode = AccessWrite | AccessModeOther
datatype access_kind = AccessClose access_mode | AccessOther
datatype event_kind = EventAccess access_kind | EventOther

fun fs_event_from_notify :: "event_kind \<Rightarrow> fs_event option" where
  "fs_event_from_notify (EventAccess (AccessClose AccessWrite)) = Some FsChanged"
| "fs_event_from_notify (EventAccess k) = None"
| "fs_event_from_notify EventOther = Some FsChanged"

text \<open>The callback: what is sent, if anything; an error of the watcher counts as a change.\<close>

definition watcher_callback :: "(string, event_kind) result \<Rightarrow> fs_event option" where
  "watcher_callback r = (case r of Inr kind \<Rightarrow> fs_event_from_notify kind | Inl e \<Rightarrow> Some FsOverflow)"

definition build_watcher ::
  "(string, unit) result \<Rightarrow> (string \<Rightarrow> bool \<Rightarrow> (string, unit) result) \<Rightarrow> fs_source \<Rightarrow> (string, unit) result" where
  "build_watcher created watch source = and_then created
     (\<lambda>_. first_error (map (\<lambda>path. watch path (recursive_watch source)) (fs_watch_paths source)))"

text \<open>The heartbeat task; a change that does not ask to stop starts its sleep again.\<close>

datatype heartbeat_state = HbSleeping instant | HbOver
datatype heartbeat_input = HbTimer | HbShutdown watch_change

fun heartbeat_step :: "duration \<Rightarrow> string \<Rightarrow> (heartbeat_state, heartbeat_input \<times> instant, rt_op) machine" where
  "heartbeat_step interval watcher (HbSleeping until) (HbTimer, now) =
     (if until \<le> now then Some (HbSleeping (now + interval), [OpWatcherProgress watcher]) else None)"
| "heartbeat_step interval watcher (HbSleeping until) (HbShutdown changed, now) =
     Some (if asks_stop changed then HbOver else HbSleeping (now + interval), [])"
| "heartbeat_step interval watcher HbOver _ = None"

record fs_watch_task =
  fw_source :: fs_source
  fw_config :: fs_config
  fw_watcher :: string

datatype fs_watch_pc = FwStart bool bool | FwRun fs_state | FwOver | FwPanicked

datatype fs_watch_input = FwBuild "(string, unit) result" "string \<Rightarrow> bool \<Rightarrow> (string, unit) result" | FwIn fs_input

datatype fs_watch_output =
  FwMark rt_op
| FwReady "(string, unit) result"
| FwOut fs_output
| FwSpawnHeartbeat
| FwAbortHeartbeat

fun fs_watch_step :: "fs_watch_task \<Rightarrow> (fs_watch_pc, fs_watch_input \<times> instant, fs_watch_output) machine" where
  "fs_watch_step t (FwStart ready startup) (FwBuild created watch, now) =
     (case build_watcher created watch (fw_source t) of
        Inr _ \<Rightarrow> Some (FwRun (fs_run_choice ready startup),
          [FwMark (OpMarkWatcher (fw_watcher t) WConnecting), FwMark (OpMarkWatcher (fw_watcher t) WIdling), FwSpawnHeartbeat])
      | Inl e \<Rightarrow> Some (FwOver, [FwMark (OpMarkWatcher (fw_watcher t) WConnecting)] @ (if ready then [FwReady (Inl e)] else [])
          @ [FwMark (OpMarkWatcher (fw_watcher t) WCrashed)]))"
| "fs_watch_step t (FwRun s) (FwIn i, now) = (case fs_step (fw_config t) s (i, now) of
     None \<Rightarrow> None
   | Some (s', os) \<Rightarrow>
       (case fr_pc s' of
          FOver \<Rightarrow> Some (FwOver, map FwOut os @ [FwAbortHeartbeat, FwMark (OpMarkWatcher (fw_watcher t) WStopped)])
        | FPanicked \<Rightarrow> Some (FwPanicked, map FwOut os)
        | _ \<Rightarrow> Some (FwRun s', map FwOut os)))"
| "fs_watch_step t _ _ = None"

section \<open>Properties\<close>

definition demo_fs :: fs_config where
  "demo_fs = \<lparr>fc_debounce = secs 2, fc_max_debounce = secs 10, fc_self_settle = SELF_SETTLE_AFTER_COMMAND,
     fc_has_reader = True, fc_has_state = True\<rparr>"

definition demo_fs_inputs :: "(fs_input \<times> instant) list" where
  "demo_fs_inputs = [(FsBegin, 0), (FsRead (Inr ''v1''), 0), (FsTop False, 0), (FsEvent (Some FsChanged), secs 5),
     (FsEvent (Some FsOverflow), secs 6)]"

lemmas fs_eval = demo_fs_def demo_fs_inputs_def fs_step.simps fs_points fs_init_def fs_begin_def fs_goto_def send_initial_ready_def
  fs_settle_def fs_check_now_def fs_trigger_def new_batch_def instant_add_def instant_limit_def secs_def record_event_def

lemma demo_fs_run:
  "run_machine (fs_step demo_fs) (fs_init True False) demo_fs_inputs =
   Some (\<lparr>fr_pc = FSettling \<lparr>eb_first = secs 5, eb_last = secs 6\<rparr> (secs 8), fr_baseline = Some (Known ''v1''),
       fr_startup = False, fr_ready = False\<rparr>,
     [FoRead 0 StartupRead, FoReady (Inr ()), FoEvent (secs 5) False, FoMark OpEvent, FoEvent (secs 6) False, FoMark OpEvent])"
  by (simp add: fs_eval)

lemma demo_fs_check:
  "run_machine (fs_step demo_fs) (fs_init True False) (demo_fs_inputs @ [(FsTimer, secs 8)]) =
   Some (\<lparr>fr_pc = FReading clean True, fr_baseline = Some (Known ''v1''), fr_startup = False, fr_ready = False\<rparr>,
     [FoRead 0 StartupRead, FoReady (Inr ()), FoEvent (secs 5) False, FoMark OpEvent, FoEvent (secs 6) False, FoMark OpEvent,
      FoRead (secs 8) CheckRead])"
  unfolding run_append demo_fs_run by (simp add: fs_eval)

text \<open>
  C35. Checks are due: in every run, a state check, or for a source without a state command the
  submission itself, begins only with an event or a failed run outstanding, and only after the
  quiet period since the last of them or the maximal delay since the first.
\<close>

theorem fs_checks_are_due:
  assumes "run_machine (fs_step cfg) (fs_init ready startup) ins = Some (s, h)"
  shows "checks_due cfg [] h"
  using fs_runner.run_inv [OF assms] by (simp add: fs_inv_def)

lemma fs_checks_are_due_witness:
  "batch_is_due demo_fs [secs 5, secs 6] (secs 8)"
  using fs_checks_are_due [OF demo_fs_check] by simp



text \<open>
  C36. A command does not trigger itself: the events of a successful run, of its settling time and
  of the new baseline's read, however many, are absorbed; the source becomes idle with the new
  baseline and nothing outstanding, and submits nothing.
\<close>

theorem own_events_do_not_retrigger:
  assumes "fr_pc s = FRunning k clean True True" "fc_has_reader cfg" "0 < fc_self_settle cfg" "report_success report"
    and "events_only e1" "events_only e2" "events_only e3"
  shows "\<exists>s' os. run_machine (fs_step cfg) s
      (e1 @ [(FsLifecycle (Some (Finished report)), t)] @ e2 @ [(FsTimer, t + fc_self_settle cfg)] @ e3 @ [(FsRead (Inr st), t')])
        = Some (s', os) \<and>
    fr_pc s' = FTop \<and> fr_baseline s' = Some (Known st) \<and> fs_unserved [] os = [] \<and> submissions os = 0"
proof -
  let ?s2 = "fs_goto (FSelfSettle (t + fc_self_settle cfg) clean True) s" and ?s3 = "fs_goto (FRebaseline clean True) s"
  have "suppressing (fr_pc s)" "suppressing (fr_pc ?s2)" "suppressing (fr_pc ?s3)"
    using assms(1) by (simp_all add: suppressing_def fs_goto_def)
  from suppressed_events [OF assms(5) this(1), of cfg "[]"] suppressed_events [OF assms(6) this(2), of cfg "[]"]
    suppressed_events [OF assms(7) this(3), of cfg "[]"]
  obtain o1 o2 o3 where runs: "run_machine (fs_step cfg) s e1 = Some (s, o1)"
      "run_machine (fs_step cfg) ?s2 e2 = Some (?s2, o2)" "run_machine (fs_step cfg) ?s3 e3 = Some (?s3, o3)"
    and work: "fs_unserved [] o1 = []" "fs_unserved [] o2 = []" "fs_unserved [] o3 = []"
      "submissions o1 = 0" "submissions o2 = 0" "submissions o3 = 0" by blast
  have s1: "fs_step cfg s (FsLifecycle (Some (Finished report)), t) = Some (?s2, [FoCommandOver t k True])"
    using assms(1,3,4) by (simp add: fs_step.simps fs_points settle_after_own_command_def)
  have s2: "fs_step cfg ?s2 (FsTimer, t + fc_self_settle cfg) = Some (?s3, [FoRead (t + fc_self_settle cfg) RebaselineRead])"
    using assms(2) by (simp add: fs_step.simps fs_points fs_rebaseline_def fs_goto_def)
  have s3: "fs_step cfg ?s3 (FsRead (Inr st), t') = Some (fs_goto FTop (s\<lparr>fr_baseline := Some (Known st)\<rparr>), [])"
    by (simp add: fs_step.simps fs_points fs_goto_def fs_done_def into_operation_result_def clean_def)
  let ?os = "o1 @ [FoCommandOver t k True] @ o2 @ [FoRead (t + fc_self_settle cfg) RebaselineRead] @ o3"
  have "run_machine (fs_step cfg) s
      (e1 @ [(FsLifecycle (Some (Finished report)), t)] @ e2 @ [(FsTimer, t + fc_self_settle cfg)] @ e3 @ [(FsRead (Inr st), t')])
        = Some (fs_goto FTop (s\<lparr>fr_baseline := Some (Known st)\<rparr>), ?os)"
    by (simp add: run_append runs s1 s2 s3)
  moreover have "fs_unserved [] ?os = []" by (cases k) (simp_all add: work)
  moreover have "submissions ?os = 0" by (simp add: work)
  ultimately show ?thesis by (intro exI [of _ "fs_goto FTop (s\<lparr>fr_baseline := Some (Known st)\<rparr>)"] exI [of _ ?os])
      (simp add: fs_goto_def)
qed

lemma own_events_do_not_retrigger_witness:
  "\<exists>s' os. run_machine (fs_step demo_fs) \<lparr>fr_pc = FRunning BatchTrigger clean True True, fr_baseline = Some Unknown,
       fr_startup = False, fr_ready = False\<rparr>
     ([(FsEvent (Some FsChanged), 1)] @ [(FsLifecycle (Some (Finished (ReportOutcome (outcome_cancelled\<lparr>success := True\<rparr>)))), 2)] @
      [(FsEvent (Some FsChanged), 3)] @ [(FsTimer, 2 + fc_self_settle demo_fs)] @ [] @ [(FsRead (Inr ''v2''), 9)]) = Some (s', os) \<and>
    fr_pc s' = FTop"
proof -
  let ?s = "\<lparr>fr_pc = FRunning BatchTrigger clean True True, fr_baseline = Some Unknown, fr_startup = False, fr_ready = False\<rparr>"
  have "fc_has_reader demo_fs" "0 < fc_self_settle demo_fs" "events_only [(FsEvent (Some FsChanged), 1)]"
    "events_only [(FsEvent (Some FsChanged), 3)]" "events_only []"
    by (simp_all add: demo_fs_def SELF_SETTLE_AFTER_COMMAND_def secs_def events_only_def)
  with own_events_do_not_retrigger [of ?s BatchTrigger demo_fs "ReportOutcome (outcome_cancelled\<lparr>success := True\<rparr>)"
      "[(FsEvent (Some FsChanged), 1)]" "[(FsEvent (Some FsChanged), 3)]" "[]" 2 "''v2''" 9]
  show ?thesis by auto
qed

end
