(* ===== verification/Resume_Source.thy ===== *)
theory Resume_Source
  imports Fs_Watch
begin

text \<open>
  The system-resume source (\<^verbatim>\<open>src/src/system_resume.rs\<close>): the broadcaster that tells the IMAP
  watchers about a resume once however many listeners report it, the runner that waits for
  quiet and submits the command, and the listener on the login manager's signal. The D-Bus
  connection (\<^verbatim>\<open>zbus\<close>) is a parameter: it delivers set-up results and decoded signals.
\<close>

section \<open>The broadcaster\<close>

datatype resume_signal = Suspending | Resumed

record resume_id =
  ri_sender :: "string option"
  ri_serial :: u32

record resume_event =
  re_signal :: resume_signal
  re_id :: resume_id

definition RECENT_RESUME_EVENTS :: nat where "RECENT_RESUME_EVENTS = 64"

text \<open>\<open>broadcast\<close> on the shared history; the flag says whether the resume is sent on.\<close>

definition broadcast :: "resume_event \<Rightarrow> resume_id list \<Rightarrow> resume_id list \<times> bool" where
  "broadcast e recent =
     (if re_signal e \<noteq> Resumed then (recent, False)
      else if re_id e \<in> set recent then (recent, False)
      else ((if length recent = RECENT_RESUME_EVENTS then tl recent else recent) @ [re_id e], True))"

fun broadcast_all :: "resume_event list \<Rightarrow> resume_id list \<Rightarrow> resume_id list \<times> resume_id list" where
  "broadcast_all [] recent = (recent, [])"
| "broadcast_all (e # es) recent = (case broadcast e recent of
     (recent', sent) \<Rightarrow> apsnd (append (if sent then [re_id e] else [])) (broadcast_all es recent'))"

definition resumed_ids :: "resume_event list \<Rightarrow> resume_id list" where
  "resumed_ids es = map re_id (filter (\<lambda>e. re_signal e = Resumed) es)"

text \<open>The last entries of a history.\<close>

definition window :: "'a list \<Rightarrow> 'a list" where
  "window xs = drop (length xs - RECENT_RESUME_EVENTS) xs"

lemma window_short: "length xs \<le> RECENT_RESUME_EVENTS \<Longrightarrow> window xs = xs"
  by (simp add: window_def)

lemma window_snoc:
  "window (xs @ [x]) = (if length (window xs) = RECENT_RESUME_EVENTS then tl (window xs) else window xs) @ [x]"
proof (cases "RECENT_RESUME_EVENTS \<le> length xs")
  case True
  then have "Suc (length xs) - RECENT_RESUME_EVENTS = Suc (length xs - RECENT_RESUME_EVENTS)" by (rule Suc_diff_le)
  with True show ?thesis by (simp add: window_def drop_Suc tl_drop RECENT_RESUME_EVENTS_def)
qed (auto simp: window_def)

text \<open>
  The bounded history is the window of the unbounded one: a resume is sent on exactly if its id
  is not among the last 64 that were.
\<close>

fun sent_ids :: "resume_id list \<Rightarrow> resume_event list \<Rightarrow> resume_id list" where
  "sent_ids before [] = before"
| "sent_ids before (e # es) =
     sent_ids (if re_signal e = Resumed \<and> re_id e \<notin> set (window before) then before @ [re_id e] else before) es"

lemma broadcast_window:
  "broadcast e (window before) =
     (if re_signal e = Resumed \<and> re_id e \<notin> set (window before) then (window (before @ [re_id e]), True) else (window before, False))"
  by (simp add: broadcast_def window_snoc)

lemma broadcast_all_window:
  "broadcast_all es (window before) = (window (sent_ids before es), drop (length before) (sent_ids before es)) \<and>
   (\<exists>more. sent_ids before es = before @ more)"
proof (induction es arbitrary: before)
  case (Cons e es)
  let ?next = "if re_signal e = Resumed \<and> re_id e \<notin> set (window before) then before @ [re_id e] else before"
  obtain later where l: "sent_ids ?next es = ?next @ later" using Cons.IH by blast
  have "broadcast_all es (window ?next) = (window (?next @ later), later)" using Cons.IH [of ?next] l by simp
  with l show ?case by (auto simp: broadcast_window)
qed simp

lemma sent_ids_distinct:
  assumes "card (set before \<union> set (resumed_ids es)) \<le> RECENT_RESUME_EVENTS" "distinct before"
  shows "distinct (sent_ids before es) \<and> set (sent_ids before es) = set before \<union> set (resumed_ids es)"
  using assms
proof (induction es arbitrary: before)
  case (Cons e es)
  show ?case
  proof (cases "re_signal e = Resumed")
    case True
    have "card (set before) \<le> RECENT_RESUME_EVENTS"
      using Cons.prems(1) card_mono [of "set before \<union> set (resumed_ids (e # es))" "set before"] by simp
    then have w: "window before = before" using Cons.prems(2) by (simp add: window_short distinct_card)
    have ids: "set (resumed_ids (e # es)) = insert (re_id e) (set (resumed_ids es))" using True by (simp add: resumed_ids_def)
    show ?thesis
    proof (cases "re_id e \<in> set before")
      case old: True
      then have "set before \<union> set (resumed_ids (e # es)) = set before \<union> set (resumed_ids es)" using ids by auto
      with Cons.IH [of before] Cons.prems old w show ?thesis by simp
    next
      case new: False
      have "set before \<union> set (resumed_ids (e # es)) = set (before @ [re_id e]) \<union> set (resumed_ids es)" using ids by auto
      with Cons.IH [of "before @ [re_id e]"] Cons.prems new w True show ?thesis by simp
    qed
  next
    case False
    then have "resumed_ids (e # es) = resumed_ids es" by (simp add: resumed_ids_def)
    with Cons False show ?thesis by simp
  qed
qed (simp add: resumed_ids_def)

section \<open>The runner\<close>

record resume_config =
  rc_settle :: duration
  rc_has_state :: bool

text \<open>\<open>SystemResumeRunner::new\<close>; its name is only logged.\<close>

definition new_resume_runner :: "duration \<Rightarrow> bool \<Rightarrow> resume_config" where
  "new_resume_runner settle has_state = \<lparr>rc_settle = settle, rc_has_state = has_state\<rparr>"

datatype resume_pc =
  RWait
| RQuiet instant
| RQuietDrain
| RStarting
| RFinishing
| RDrain
| ROver
| RPanicked

datatype resume_input =
  RsShutdown watch_change
| RsEvent "unit option"
| RsTimer
| RsDrained nat
| RsStartResult "(trigger_error, unit) result"
| RsFinished "(trigger_error, command_run_report) result"

datatype resume_output =
  RoMark rt_op
| RoEvent instant
| RoSubmit instant

definition resume_mark_event :: "resume_config \<Rightarrow> instant \<Rightarrow> resume_output list" where
  "resume_mark_event cfg now = RoEvent now # (if rc_has_state cfg then [RoMark OpEvent] else [])"

definition resume_drain_events :: "resume_config \<Rightarrow> nat \<Rightarrow> instant \<Rightarrow> resume_output list" where
  "resume_drain_events cfg n now = concat (replicate n (resume_mark_event cfg now))"

text \<open>\<open>wait_for_quiet\<close>: its deadline, from the last event; a zero settle time only drains.\<close>

definition settle_until :: "resume_config \<Rightarrow> instant \<Rightarrow> resume_pc" where
  "settle_until cfg now = (case instant_add now (rc_settle cfg) of None \<Rightarrow> RPanicked | Some u \<Rightarrow> RQuiet u)"

definition enter_quiet :: "resume_config \<Rightarrow> instant \<Rightarrow> resume_pc" where
  "enter_quiet cfg now = (if rc_settle cfg = 0 then RQuietDrain else settle_until cfg now)"

definition resume_submit :: "instant \<Rightarrow> resume_pc \<times> resume_output list" where
  "resume_submit now = (RStarting, [RoSubmit now])"

fun wait_for_quiet :: "resume_config \<Rightarrow> instant \<Rightarrow> instant \<Rightarrow> resume_input \<Rightarrow> (resume_pc \<times> resume_output list) option" where
  "wait_for_quiet cfg now until RsTimer = (if until \<le> now then Some (resume_submit now) else None)"
| "wait_for_quiet cfg now until (RsEvent (Some u)) = Some (settle_until cfg now, resume_mark_event cfg now)"
| "wait_for_quiet cfg now until (RsEvent None) = Some (resume_submit now)"
| "wait_for_quiet cfg now until (RsShutdown changed) = Some (if asks_stop changed then (ROver, []) else resume_submit now)"
| "wait_for_quiet cfg now until _ = None"

text \<open>\<open>run_once\<close> after its submission: both of its \<^verbatim>\<open>select!\<close>s.\<close>

fun resume_run_once :: "resume_pc \<Rightarrow> resume_input \<Rightarrow> resume_pc option" where
  "resume_run_once RStarting (RsStartResult (Inr _)) = Some RFinishing"
| "resume_run_once RStarting (RsStartResult (Inl e)) = Some RDrain"
| "resume_run_once RFinishing (RsFinished r) = Some RDrain"
| "resume_run_once pc (RsShutdown changed) = Some (if asks_stop changed then ROver else RDrain)"
| "resume_run_once _ _ = None"

fun resume_step :: "resume_config \<Rightarrow> (resume_pc, resume_input \<times> instant, resume_output) machine" where
  "resume_step cfg RWait (i, now) = (case i of
     RsShutdown changed \<Rightarrow> Some (if asks_stop changed then ROver else RWait, [])
   | RsEvent None \<Rightarrow> Some (ROver, [])
   | RsEvent (Some _) \<Rightarrow> Some (enter_quiet cfg now, resume_mark_event cfg now)
   | _ \<Rightarrow> None)"
| "resume_step cfg (RQuiet until) (i, now) = wait_for_quiet cfg now until i"
| "resume_step cfg RQuietDrain (i, now) = (case i of
     RsDrained n \<Rightarrow> Some (apsnd (append (resume_drain_events cfg n now)) (resume_submit now))
   | _ \<Rightarrow> None)"
| "resume_step cfg RStarting (i, now) = map_option (\<lambda>pc. (pc, [])) (resume_run_once RStarting i)"
| "resume_step cfg RFinishing (i, now) = map_option (\<lambda>pc. (pc, [])) (resume_run_once RFinishing i)"
| "resume_step cfg RDrain (i, now) = (case i of
     RsDrained n \<Rightarrow> Some (if n = 0 then RWait else enter_quiet cfg now, resume_drain_events cfg n now)
   | _ \<Rightarrow> None)"
| "resume_step cfg ROver _ = None"
| "resume_step cfg RPanicked _ = None"

text \<open>With a settle time of the size TOML can express, the first resume after the clock's origin panics.\<close>

lemma huge_settle_panics:
  assumes "rc_settle cfg = from_secs 9223372036854775807" "secs 1 \<le> now"
  shows "resume_step cfg RWait (RsEvent (Some ()), now) = Some (RPanicked, resume_mark_event cfg now)"
  using assms by (simp add: enter_quiet_def settle_until_def instant_add_def instant_limit_def from_secs_def secs_def)

section \<open>Outstanding resumes\<close>

fun resume_unserved :: "instant list \<Rightarrow> resume_output list \<Rightarrow> instant list" where
  "resume_unserved ts [] = ts"
| "resume_unserved ts (RoEvent t # os) = resume_unserved (ts @ [t]) os"
| "resume_unserved ts (RoSubmit t # os) = resume_unserved [] os"
| "resume_unserved ts (RoMark op # os) = resume_unserved ts os"

text \<open>
  Every submission serves an outstanding resume; in a calm run, it comes a full settle time
  after the last of them.
\<close>

fun submissions_served :: "resume_config \<Rightarrow> bool \<Rightarrow> instant list \<Rightarrow> resume_output list \<Rightarrow> bool" where
  "submissions_served cfg calm ts [] = True"
| "submissions_served cfg calm ts (RoSubmit t # os) \<longleftrightarrow> ts \<noteq> [] \<and>
     (calm \<longrightarrow> rc_settle cfg = 0 \<or> last ts + rc_settle cfg \<le> t) \<and> submissions_served cfg calm [] os"
| "submissions_served cfg calm ts (x # os) = submissions_served cfg calm (resume_unserved ts [x]) os"

fun calm_input :: "resume_input \<times> instant \<Rightarrow> bool" where
  "calm_input (RsShutdown changed, now) = asks_stop changed"
| "calm_input (RsEvent None, now) = False"
| "calm_input _ = True"

lemma resume_unserved_append [simp]: "resume_unserved ts (xs @ ys) = resume_unserved (resume_unserved ts xs) ys"
  by (induction ts xs rule: resume_unserved.induct) auto

lemma submissions_served_append [simp]:
  "submissions_served cfg calm ts (xs @ ys) \<longleftrightarrow>
     submissions_served cfg calm ts xs \<and> submissions_served cfg calm (resume_unserved ts xs) ys"
  by (induction cfg calm ts xs rule: submissions_served.induct) auto

lemma resume_mark_work [simp]:
  "resume_unserved ts (resume_mark_event cfg now) = ts @ [now]" "submissions_served cfg calm ts (resume_mark_event cfg now)"
  by (simp_all add: resume_mark_event_def)

lemma resume_drain_Suc: "resume_drain_events cfg (Suc n) now = resume_mark_event cfg now @ resume_drain_events cfg n now"
  by (simp add: resume_drain_events_def)

lemma resume_drain_0 [simp]: "resume_drain_events cfg 0 now = []"
  by (simp add: resume_drain_events_def)

lemma resume_drain_unserved [simp]: "resume_unserved ts (resume_drain_events cfg n now) = ts @ replicate n now"
  by (induction n arbitrary: ts) (simp_all add: resume_drain_Suc)

lemma resume_drain_served [simp]: "submissions_served cfg calm ts (resume_drain_events cfg n now)"
  by (induction n arbitrary: ts) (simp_all add: resume_drain_Suc)

definition resume_pc_ok :: "resume_config \<Rightarrow> instant list \<Rightarrow> resume_pc \<Rightarrow> bool" where
  "resume_pc_ok cfg ts pc \<longleftrightarrow> (case pc of
     RQuiet u \<Rightarrow> ts \<noteq> [] \<and> u = last ts + rc_settle cfg
   | RQuietDrain \<Rightarrow> ts \<noteq> [] \<and> rc_settle cfg = 0
   | ROver \<Rightarrow> True
   | RPanicked \<Rightarrow> ts \<noteq> [] \<and> instant_limit \<le> last ts + rc_settle cfg
   | _ \<Rightarrow> ts = [])"

definition resume_inv :: "resume_config \<Rightarrow> bool \<Rightarrow> resume_pc \<Rightarrow> resume_output list \<Rightarrow> bool" where
  "resume_inv cfg calm pc h \<longleftrightarrow> submissions_served cfg calm [] h \<and> resume_pc_ok cfg (resume_unserved [] h) pc"

lemma settle_until_ok: "ts \<noteq> [] \<Longrightarrow> last ts = now \<Longrightarrow> resume_pc_ok cfg ts (settle_until cfg now)"
  by (auto simp: settle_until_def resume_pc_ok_def split: option.split)

lemma enter_quiet_ok: "ts \<noteq> [] \<Longrightarrow> last ts = now \<Longrightarrow> resume_pc_ok cfg ts (enter_quiet cfg now)"
  by (simp add: enter_quiet_def settle_until_ok) (simp add: resume_pc_ok_def)

lemma wait_for_quiet_ok:
  assumes "wait_for_quiet cfg now u i = Some (pc', os)" "ts \<noteq> []" "u = last ts + rc_settle cfg" "calm \<longrightarrow> calm_input (i, now)"
  shows "submissions_served cfg calm ts os \<and> resume_pc_ok cfg (resume_unserved ts os) pc'"
  using assms settle_until_ok [of "ts @ [now]" now cfg]
  by (cases "(cfg, now, u, i)" rule: wait_for_quiet.cases)
     (auto simp: resume_submit_def resume_pc_ok_def [of cfg "[]"] resume_pc_ok_def [of cfg _ ROver] split: if_splits)

lemma resume_run_once_ok: "resume_run_once pc i = Some pc' \<Longrightarrow> resume_pc_ok cfg [] pc'"
  by (cases "(pc, i)" rule: resume_run_once.cases) (auto simp: resume_pc_ok_def)

lemma resume_step_ok:
  assumes "resume_pc_ok cfg ts pc" "resume_step cfg pc (i, now) = Some (pc', os)" "calm \<longrightarrow> calm_input (i, now)"
  shows "submissions_served cfg calm ts os \<and> resume_pc_ok cfg (resume_unserved ts os) pc'"
proof (cases pc)
  case RWait
  with assms enter_quiet_ok [of "[now]" now cfg] show ?thesis
    by (cases i) (auto simp: resume_pc_ok_def [of cfg _ RWait] resume_pc_ok_def [of cfg _ ROver] split: option.splits if_splits)
next
  case (RQuiet u)
  with assms wait_for_quiet_ok show ?thesis by (simp add: resume_pc_ok_def)
next
  case RQuietDrain
  with assms show ?thesis by (cases i) (auto simp: resume_submit_def resume_pc_ok_def)
next
  case RDrain
  with assms enter_quiet_ok [of "replicate n now" now cfg for n] show ?thesis
    by (cases i) (auto simp: resume_pc_ok_def [of cfg _ RDrain] resume_pc_ok_def [of cfg _ RWait] split: if_splits)
qed (use assms resume_run_once_ok in \<open>auto simp: resume_pc_ok_def [of cfg ts]\<close>)

definition resume_final :: "resume_pc \<Rightarrow> bool" where
  "resume_final pc \<longleftrightarrow> pc = ROver \<or> pc = RPanicked"

interpretation resume_runner: halting_machine "resume_step cfg" RWait "resume_inv cfg False" resume_final
proof
  show "resume_inv cfg False RWait []" by (simp add: resume_inv_def resume_pc_ok_def)
  show "resume_inv cfg False s h \<Longrightarrow> resume_step cfg s i = Some (s', os) \<Longrightarrow> resume_inv cfg False s' (h @ os)" for s h i s' os
    using resume_step_ok [of cfg "resume_unserved [] h" s "fst i" "snd i" s' os False] by (simp add: resume_inv_def)
  show "resume_final s \<Longrightarrow> resume_step cfg s i = None" for s i
    by (cases i) (auto simp: resume_final_def)
qed

interpretation calm_runner: step_machine "guarded calm_input (resume_step cfg)" RWait "resume_inv cfg True"
proof
  show "resume_inv cfg True RWait []" by (simp add: resume_inv_def resume_pc_ok_def)
  show "resume_inv cfg True s h \<Longrightarrow> guarded calm_input (resume_step cfg) s i = Some (s', os) \<Longrightarrow> resume_inv cfg True s' (h @ os)"
    for s h i s' os
    using resume_step_ok [of cfg "resume_unserved [] h" s "fst i" "snd i" s' os True] by (simp add: resume_inv_def)
qed

section \<open>The listener\<close>

datatype resume_error = BusConnect string | BusSubscribe string | BusBody string | SetupTimeout duration

definition DBUS_SETUP_TIMEOUT :: duration where "DBUS_SETUP_TIMEOUT = secs 30"

text \<open>A message of the signal stream: its decoded body, sender and serial number.\<close>

record bus_message =
  bm_body :: "(string, bool) result"
  bm_sender :: "string option"
  bm_serial :: u32

definition next_event :: "bus_message option \<Rightarrow> (resume_error, resume_event option) result" where
  "next_event message = (case message of
     None \<Rightarrow> Inr None
   | Some m \<Rightarrow> (case bm_body m of
        Inl e \<Rightarrow> Inl (BusBody e)
      | Inr sleeping \<Rightarrow> Inr (Some \<lparr>re_signal = (if sleeping then Suspending else Resumed),
          re_id = \<lparr>ri_sender = bm_sender m, ri_serial = bm_serial m\<rparr>\<rparr>)))"

record resume_watch_task =
  rw_watcher :: string
  rw_broadcaster :: bool

datatype listener_pc = ListenerSetup bool | ListenerRun | ListenerOver

datatype setup_result = SetupOk | SetupFails resume_error | SetupTimesOut

datatype listener_input =
  ListenerConnect setup_result
| ListenerMessage "bus_message option" send_result
| ListenerShutdown watch_change

datatype listener_output =
  LiMark rt_op
| LiReady "(resume_error, unit) result"
| LiBroadcast resume_event
| LiQueue send_result
| LiSpawnHeartbeat
| LiAbortHeartbeat

definition listener_mark :: "resume_watch_task \<Rightarrow> watcher_phase \<Rightarrow> listener_output" where
  "listener_mark t ph = LiMark (OpMarkWatcher (rw_watcher t) ph)"

definition report_system_resume_setup_error ::
  "resume_watch_task \<Rightarrow> bool \<Rightarrow> resume_error \<Rightarrow> listener_pc \<times> listener_output list" where
  "report_system_resume_setup_error t ready e =
     (ListenerOver, (if ready then [LiReady (Inl e)] else []) @ [listener_mark t WCrashed])"

text \<open>A received signal; a queue without a receiver ends the loop.\<close>

definition listener_event ::
  "resume_watch_task \<Rightarrow> (resume_error, resume_event option) result \<Rightarrow> send_result \<Rightarrow> listener_pc \<times> listener_output list" where
  "listener_event t event r = apsnd (Cons (LiMark (OpWatcherProgress (rw_watcher t)))) (case event of
     Inr (Some e) \<Rightarrow>
       if re_signal e = Suspending then (ListenerRun, [])
       else (let os = [LiMark OpEvent] @ (if rw_broadcaster t then [LiBroadcast e] else []) @ [LiQueue r]
         in if r = SendClosed then (ListenerOver, os @ [LiAbortHeartbeat]) else (ListenerRun, os))
   | Inr None \<Rightarrow> (ListenerOver, [listener_mark t WCrashed, LiAbortHeartbeat])
   | Inl e \<Rightarrow> (ListenerOver, [listener_mark t WCrashed, LiAbortHeartbeat]))"

definition watch_system_resume_forever :: "resume_watch_task \<Rightarrow> bool \<Rightarrow> setup_result \<Rightarrow> listener_pc \<times> listener_output list" where
  "watch_system_resume_forever t ready r = apsnd (Cons (listener_mark t WConnecting)) (case r of
     SetupOk \<Rightarrow> (ListenerRun, [listener_mark t WIdling] @ (if ready then [LiReady (Inr ())] else []) @ [LiSpawnHeartbeat])
   | SetupFails e \<Rightarrow> report_system_resume_setup_error t ready e
   | SetupTimesOut \<Rightarrow> report_system_resume_setup_error t ready (SetupTimeout DBUS_SETUP_TIMEOUT))"

fun listener_step :: "resume_watch_task \<Rightarrow> (listener_pc, listener_input, listener_output) machine" where
  "listener_step t (ListenerSetup ready) (ListenerConnect r) = Some (watch_system_resume_forever t ready r)"
| "listener_step t ListenerRun (ListenerMessage message r) = Some (listener_event t (next_event message) r)"
| "listener_step t ListenerRun (ListenerShutdown changed) =
     Some (if asks_stop changed then (ListenerOver, [listener_mark t WStopped, LiAbortHeartbeat]) else (ListenerRun, []))"
| "listener_step t _ _ = None"

text \<open>The heartbeat task is the same code as the filesystem source's.\<close>

definition resume_heartbeat_step :: "duration \<Rightarrow> string \<Rightarrow> (heartbeat_state, heartbeat_input \<times> instant, rt_op) machine" where
  "resume_heartbeat_step = heartbeat_step"

text \<open>What a listener broadcasts is exactly the resumes it received, in order.\<close>

fun broadcasts :: "listener_output list \<Rightarrow> resume_event list" where
  "broadcasts [] = []"
| "broadcasts (LiBroadcast e # os) = e # broadcasts os"
| "broadcasts (_ # os) = broadcasts os"

fun received :: "listener_input list \<Rightarrow> resume_event list" where
  "received [] = []"
| "received (ListenerMessage message r # ins) =
     (case next_event message of Inr (Some e) \<Rightarrow> if re_signal e = Resumed then [e] else [] | _ \<Rightarrow> []) @ received ins"
| "received (_ # ins) = received ins"

lemma broadcasts_append [simp]: "broadcasts (xs @ ys) = broadcasts xs @ broadcasts ys"
  by (induction xs rule: broadcasts.induct) auto

lemma resume_signal_cases [simp]: "sig \<noteq> Suspending \<longleftrightarrow> sig = Resumed" "sig \<noteq> Resumed \<longleftrightarrow> sig = Suspending"
  by (cases sig; simp)+

lemma listener_step_broadcasts:
  "listener_step t pc i = Some (pc', os) \<Longrightarrow> rw_broadcaster t \<Longrightarrow> broadcasts os = received [i]"
  by (cases "(t, pc, i)" rule: listener_step.cases)
     (auto simp: listener_event_def watch_system_resume_forever_def listener_mark_def report_system_resume_setup_error_def Let_def
       split: setup_result.splits sum.splits option.splits if_splits)

lemma received_Cons: "received (i # ins) = received [i] @ received ins"
  by (cases i) auto

lemma listener_run_broadcasts:
  "rw_broadcaster t \<Longrightarrow> run_machine (listener_step t) pc ins = Some (pc', os) \<Longrightarrow> broadcasts os = received ins"
proof (induction ins arbitrary: pc os)
  case (Cons i ins)
  then obtain pc1 o1 o2 where step: "listener_step t pc i = Some (pc1, o1)"
    and rest: "run_machine (listener_step t) pc1 ins = Some (pc', o2)" "os = o1 @ o2"
    by (auto split: option.splits)
  from listener_step_broadcasts [OF step Cons.prems(1)] Cons.IH [OF Cons.prems(1) rest(1)] rest(2)
  show ?case by (simp add: received_Cons [of i ins])
qed simp

section \<open>Properties\<close>

text \<open>
  C13. A resume restarts the IMAP sessions once: however many listeners report the same signals,
  in whatever interleaving and however far some lag behind, each resume is broadcast exactly
  once, as long as at most 64 distinct resumes are in play.
\<close>

theorem resume_broadcast_once:
  assumes "card (set (resumed_ids es)) \<le> RECENT_RESUME_EVENTS"
  shows "distinct (snd (broadcast_all es [])) \<and> set (snd (broadcast_all es [])) = set (resumed_ids es)"
proof -
  have "snd (broadcast_all es []) = sent_ids [] es"
    using broadcast_all_window [of es "[]"] by (simp add: window_def)
  with sent_ids_distinct [of "[]" es] assms show ?thesis by simp
qed

definition demo_resume :: "u32 \<Rightarrow> resume_event" where
  "demo_resume n = \<lparr>re_signal = Resumed, re_id = \<lparr>ri_sender = Some '':1.4'', ri_serial = n\<rparr>\<rparr>"

lemma resume_broadcast_once_witness:
  "distinct (snd (broadcast_all [demo_resume 1, demo_resume 2, demo_resume 1, demo_resume 2] [])) \<and>
   set (snd (broadcast_all [demo_resume 1, demo_resume 2, demo_resume 1, demo_resume 2] [])) =
     {re_id (demo_resume 1), re_id (demo_resume 2)}"
proof -
  let ?es = "[demo_resume 1, demo_resume 2, demo_resume 1, demo_resume 2]"
  have ids: "set (resumed_ids ?es) = {re_id (demo_resume 1), re_id (demo_resume 2)}"
    by (auto simp: resumed_ids_def demo_resume_def)
  then have "card (set (resumed_ids ?es)) \<le> RECENT_RESUME_EVENTS"
    by (simp add: RECENT_RESUME_EVENTS_def card_insert_if)
  from resume_broadcast_once [OF this] show ?thesis unfolding ids .
qed

text \<open>
  C37. No resume is lost and none is invented: every submission serves a resume reported since the
  last one, in a calm run (no false shutdown wake, the channel open) a full settle time after
  the last of them; and while one is outstanding the runner is not waiting for events, and
  submits when its settle timer fires.
\<close>

theorem resumes_are_served:
  assumes "run_machine (resume_step cfg) RWait ins = Some (pc, h)"
  shows "submissions_served cfg False [] h \<and> ((\<forall>i \<in> set ins. calm_input i) \<longrightarrow> submissions_served cfg True [] h) \<and>
    (resume_unserved [] h \<noteq> [] \<longrightarrow> pc \<noteq> RWait \<and>
      (\<forall>u. pc = RQuiet u \<longrightarrow> resume_step cfg pc (RsTimer, last (resume_unserved [] h) + rc_settle cfg) =
         Some (RStarting, [RoSubmit (last (resume_unserved [] h) + rc_settle cfg)])))"
proof -
  have "submissions_served cfg True [] h" if "\<forall>i \<in> set ins. calm_input i"
  proof -
    have "run_machine (guarded calm_input (resume_step cfg)) RWait ins = Some (pc, h)"
      by (simp add: guarded_run [OF that] assms)
    from calm_runner.run_inv [OF this] show ?thesis by (simp add: resume_inv_def)
  qed
  moreover have "resume_inv cfg False pc h" by (rule resume_runner.run_inv [OF assms])
  ultimately show ?thesis
    by (auto simp: resume_inv_def resume_pc_ok_def resume_submit_def)
qed

lemma resumes_are_served_witness:
  "submissions_served \<lparr>rc_settle = secs 3, rc_has_state = False\<rparr> True [] [RoEvent (secs 1), RoEvent (secs 2), RoSubmit (secs 5)]"
proof -
  let ?cfg = "\<lparr>rc_settle = secs 3, rc_has_state = False\<rparr>"
  let ?ins = "[(RsEvent (Some ()), secs 1), (RsEvent (Some ()), secs 2), (RsTimer, secs 5)]"
  have "run_machine (resume_step ?cfg) RWait ?ins = Some (RStarting, [RoEvent (secs 1), RoEvent (secs 2), RoSubmit (secs 5)])"
    by (simp add: enter_quiet_def settle_until_def instant_add_def instant_limit_def secs_def resume_mark_event_def resume_submit_def)
  from resumes_are_served [OF this] show ?thesis by simp
qed

end
