(* ===== verification/Systemd_Notify.thy ===== *)
theory Systemd_Notify
  imports Runtime_State
begin

text \<open>
  The service-manager protocol (\<^verbatim>\<open>src/src/systemd.rs\<close>): the notifier taken from the environment,
  the messages it sends, the address of its socket, and the task that reports status and
  pings the watchdog while the runtime is healthy. Environment variables, the process id and
  the three system calls of a datagram are observations.
\<close>

section \<open>The notifier\<close>

record environment =
  ev_notify_socket :: "string option"
  ev_watchdog_pid :: "string option"
  ev_watchdog_usec :: "string option"

record notifier =
  nt_socket :: "string option"
  nt_watchdog :: "duration option"

definition watchdog_pid_allows :: "string option \<Rightarrow> u32 \<Rightarrow> bool" where
  "watchdog_pid_allows v current_pid = (case v of None \<Rightarrow> True | Some s \<Rightarrow> parse_u32 s = Some current_pid)"

definition from_micros :: "u64 \<Rightarrow> duration" where
  "from_micros n = unat n * 1000"

definition notifier_disabled :: notifier where
  "notifier_disabled = \<lparr>nt_socket = None, nt_watchdog = None\<rparr>"

definition watchdog_from_env :: "environment \<Rightarrow> u32 \<Rightarrow> duration option" where
  "watchdog_from_env env pid =
     (if watchdog_pid_allows (ev_watchdog_pid env) pid then
        map_option from_micros (Option.bind (Option.bind (ev_watchdog_usec env) parse_u64)
          (\<lambda>usec. if 0 < usec then Some usec else None))
      else None)"

definition notifier_from_env :: "environment \<Rightarrow> u32 \<Rightarrow> bool \<Rightarrow> notifier" where
  "notifier_from_env env pid enabled =
     (if \<not> enabled then notifier_disabled
      else \<lparr>nt_socket = ev_notify_socket env, nt_watchdog = watchdog_from_env env pid\<rparr>)"

section \<open>Messages\<close>

definition sanitize_field :: "string \<Rightarrow> string" where
  "sanitize_field s = map (\<lambda>c. if is_crlf c then CHR '' '' else c) s"

fun join_fields :: "(string \<times> string) list \<Rightarrow> string" where
  "join_fields [] = []"
| "join_fields [(k, v)] = k @ ''='' @ v"
| "join_fields ((k, v) # rest) = k @ ''='' @ v @ [LF] @ join_fields rest"

definition ready_fields :: "string \<Rightarrow> (string \<times> string) list" where
  "ready_fields status = [(''READY'', ''1''), (''STATUS'', sanitize_field status)]"

definition status_fields :: "string \<Rightarrow> (string \<times> string) list" where
  "status_fields status = [(''STATUS'', sanitize_field status)]"

definition watchdog_fields :: "(string \<times> string) list" where
  "watchdog_fields = [(''WATCHDOG'', ''1'')]"

definition stopping_fields :: "(string \<times> string) list" where
  "stopping_fields = [(''STOPPING'', ''1'')]"

section \<open>The datagram\<close>

datatype io_kind = InvalidInput string | LastOsError

text \<open>
  The socket address: the path bytes written to \<^verbatim>\<open>sun_path\<close>, after a null byte for an abstract
  name, and the address length beyond the family field.
\<close>

definition NUL :: char where "NUL = CHR 0x00"

definition socket_address :: "nat \<Rightarrow> bool \<Rightarrow> string \<Rightarrow> (io_kind, string \<times> nat) result" where
  "socket_address path_capacity is_abstract path_bytes =
     (let required = length path_bytes + (if is_abstract then 1 else 0) in
      if path_capacity < required then Inl (InvalidInput ''NOTIFY_SOCKET path is too long'')
      else Inr ((if is_abstract then [NUL] else []) @ path_bytes, required))"

text \<open>The observed results of the calls: the descriptor, whether the send and the close fail.\<close>

record datagram_calls =
  dc_fd :: int
  dc_sent :: int
  dc_closed :: int

definition send_datagram_with_fd :: "nat \<Rightarrow> datagram_calls \<Rightarrow> string \<Rightarrow> bool \<Rightarrow> (io_kind, string \<times> nat) result" where
  "send_datagram_with_fd path_capacity calls path_bytes is_abstract =
     and_then (socket_address path_capacity is_abstract path_bytes)
       (\<lambda>address. if dc_sent calls < 0 then Inl LastOsError else Inr address)"

definition send_datagram :: "nat \<Rightarrow> datagram_calls \<Rightarrow> string \<Rightarrow> (io_kind, string \<times> nat) result" where
  "send_datagram path_capacity calls socket =
     (case socket of
        [] \<Rightarrow> Inl (InvalidInput ''empty NOTIFY_SOCKET'')
      | c # rest \<Rightarrow>
          (let is_abstract = (c = CHR ''@''); path_bytes = (if is_abstract then rest else socket) in
           if dc_fd calls < 0 then Inl LastOsError
           else (case send_datagram_with_fd path_capacity calls path_bytes is_abstract of
              Inl e \<Rightarrow> Inl e
            | Inr sent \<Rightarrow> if dc_closed calls < 0 then Inl LastOsError else Inr sent)))"

text \<open>\<open>notify\<close>: nothing without a socket, else one datagram; the message is returned with the result.\<close>

definition notify :: "nat \<Rightarrow> datagram_calls \<Rightarrow> notifier \<Rightarrow> (string \<times> string) list \<Rightarrow> string option \<times> (io_kind, unit) result" where
  "notify path_capacity calls n fs = (case nt_socket n of
     None \<Rightarrow> (None, Inr ())
   | Some socket \<Rightarrow> (Some (join_fields fs), and_then (send_datagram path_capacity calls socket) (\<lambda>_. Inr ())))"

section \<open>The status task\<close>

datatype status_pc = StatusStart | StatusWait instant | StatusOver | StatusPanicked

datatype status_input =
  StatusBegin runtime_state
| StatusShutdown watch_change
| StatusTick runtime_state
| StatusChanged "runtime_state option"

definition status_interval :: "notifier \<Rightarrow> duration" where
  "status_interval n = (case nt_watchdog n of Some d \<Rightarrow> d div 2 | None \<Rightarrow> secs 60)"

definition send_runtime_status :: "runtime_state \<Rightarrow> (string \<times> string) list list" where
  "send_runtime_status st = [status_fields (status_message st)]"

definition unhealthy_status_message :: "runtime_state \<Rightarrow> string" where
  "unhealthy_status_message st = status_message st @ ''; unhealthy''"

text \<open>A tick: the status, then the ping, or the reason for withholding it.\<close>

definition status_tick :: "notifier \<Rightarrow> instant \<Rightarrow> runtime_state \<Rightarrow> (string \<times> string) list list" where
  "status_tick n now st = send_runtime_status st @
     (if nt_watchdog n = None then []
      else (case health_problem now st of
         Some reason \<Rightarrow> [status_fields (unhealthy_status_message st)]
       | None \<Rightarrow> [watchdog_fields]))"

text \<open>
  The timer of \<^verbatim>\<open>tokio::time::interval\<close> with the \<^verbatim>\<open>Delay\<close> behaviour: a tick taken on time, which is
  within five milliseconds, keeps the schedule, and after a late one the next is a period from now.
\<close>

definition TICK_TOLERANCE :: duration where "TICK_TOLERANCE = secs 1 div 200"

definition next_tick :: "duration \<Rightarrow> instant \<Rightarrow> instant \<Rightarrow> instant" where
  "next_tick period due now = (if due + TICK_TOLERANCE < now then now + period else due + period)"

text \<open>
  The loop; \<^verbatim>\<open>interval_at\<close> panics when its first deadline overflows. The \<^verbatim>\<open>select!\<close> is biased, so the
  shutdown branch is observed first whenever it is ready.
\<close>

fun status_step :: "notifier \<Rightarrow> (status_pc, status_input \<times> instant, (string \<times> string) list) machine" where
  "status_step n StatusStart (StatusBegin st, now) =
     Some (case instant_add now (status_interval n) of
        None \<Rightarrow> (StatusPanicked, [])
      | Some due \<Rightarrow> (StatusWait due, send_runtime_status st))"
| "status_step n (StatusWait due) (StatusShutdown changed, now) =
     Some (if asks_stop changed then StatusOver else StatusWait due, [])"
| "status_step n (StatusWait due) (StatusTick st, now) =
     (if due \<le> now then Some (StatusWait (next_tick (status_interval n) due now), status_tick n now st) else None)"
| "status_step n (StatusWait due) (StatusChanged None, now) = Some (StatusOver, [])"
| "status_step n (StatusWait due) (StatusChanged (Some st), now) = Some (StatusWait due, send_runtime_status st)"
| "status_step n _ _ = None"

section \<open>Reading a message\<close>

text \<open>The manager's side: lines of a key, an equals sign and a value.\<close>

definition parse_field :: "string \<Rightarrow> (string \<times> string) option" where
  "parse_field line = (case dropWhile (\<lambda>c. c \<noteq> CHR ''='') line of
     [] \<Rightarrow> None
   | _ # v \<Rightarrow> Some (takeWhile (\<lambda>c. c \<noteq> CHR ''='') line, v))"

fun split_lines :: "string \<Rightarrow> string \<Rightarrow> string list" where
  "split_lines acc [] = [acc]"
| "split_lines acc (c # cs) = (if c = LF then acc # split_lines [] cs else split_lines (acc @ [c]) cs)"

definition parse_message :: "string \<Rightarrow> (string \<times> string) list" where
  "parse_message m = List.map_filter parse_field (split_lines [] m)"

definition field_ok :: "string \<times> string \<Rightarrow> bool" where
  "field_ok = (\<lambda>(k, v). CHR ''='' \<notin> set k \<and> LF \<notin> set k \<and> LF \<notin> set v)"

lemma parse_field_ok: "CHR ''='' \<notin> set k \<Longrightarrow> parse_field (k @ CHR ''='' # v) = Some (k, v)"
proof -
  assume k: "CHR ''='' \<notin> set k"
  then have "takeWhile (\<lambda>c. c \<noteq> CHR ''='') (k @ CHR ''='' # v) = k" by (subst takeWhile_append2) auto
  moreover have "dropWhile (\<lambda>c. c \<noteq> CHR ''='') (k @ CHR ''='' # v) = CHR ''='' # v"
    using k by (subst dropWhile_append2) auto
  ultimately show ?thesis by (simp add: parse_field_def)
qed

lemma split_lines_plain: "LF \<notin> set l \<Longrightarrow> split_lines acc l = [acc @ l]"
  by (induction l arbitrary: acc) auto

lemma split_lines_first: "LF \<notin> set l \<Longrightarrow> split_lines acc (l @ LF # rest) = (acc @ l) # split_lines [] rest"
  by (induction l arbitrary: acc) auto

lemma parse_join:
  assumes "list_all field_ok fs" "fs \<noteq> []"
  shows "parse_message (join_fields fs) = fs"
  using assms
proof (induction fs rule: join_fields.induct)
  case (2 k v)
  then have "LF \<notin> set (k @ CHR ''='' # v)" "CHR ''='' \<notin> set k" by (auto simp: field_ok_def LF_def)
  then show ?case by (simp add: parse_message_def split_lines_plain parse_field_ok map_filter_simps)
next
  case (3 k v f rest)
  then have l: "LF \<notin> set (k @ CHR ''='' # v)" "CHR ''='' \<notin> set k" by (auto simp: field_ok_def LF_def)
  have "join_fields ((k, v) # f # rest) = (k @ CHR ''='' # v) @ LF # join_fields (f # rest)" by simp
  then have "split_lines [] (join_fields ((k, v) # f # rest)) = (k @ CHR ''='' # v) # split_lines [] (join_fields (f # rest))"
    using split_lines_first [OF l(1), of "[]"] by simp
  with 3 l(2) show ?case by (simp add: parse_message_def parse_field_ok map_filter_simps)
qed simp

lemma sanitize_no_lf [simp]: "LF \<notin> set (sanitize_field s)"
  by (auto simp: sanitize_field_def is_crlf_def LF_def)

section \<open>Pings of a run\<close>

fun healthy_tick :: "status_input \<times> instant \<Rightarrow> bool" where
  "healthy_tick (StatusTick st, now) = is_healthy now st"
| "healthy_tick _ = False"

definition healthy_ticks :: "(status_input \<times> instant) list \<Rightarrow> nat" where
  "healthy_ticks ins = length (filter healthy_tick ins)"

lemma not_watchdog [simp]: "status_fields s \<noteq> watchdog_fields"
  by (simp add: status_fields_def watchdog_fields_def)

lemma tick_pings:
  "count_list (status_tick n now st) watchdog_fields = (if nt_watchdog n \<noteq> None \<and> is_healthy now st then 1 else 0)"
  by (auto simp: status_tick_def send_runtime_status_def is_healthy_def split: option.split)

lemma step_pings:
  "status_step n pc i = Some (pc', os) \<Longrightarrow>
     count_list os watchdog_fields = (if nt_watchdog n \<noteq> None then healthy_ticks [i] else 0)"
  by (cases "(n, pc, i)" rule: status_step.cases)
     (auto simp: healthy_ticks_def tick_pings send_runtime_status_def split: option.splits if_splits)

lemma run_pings:
  "run_machine (status_step n) pc ins = Some (pc', os) \<Longrightarrow>
     count_list os watchdog_fields = (if nt_watchdog n \<noteq> None then healthy_ticks ins else 0)"
proof (induction ins arbitrary: pc os)
  case (Cons i ins)
  then obtain pc1 o1 o2 where step: "status_step n pc i = Some (pc1, o1)"
    and rest: "run_machine (status_step n) pc1 ins = Some (pc', o2)" "os = o1 @ o2"
    by (auto split: option.splits)
  from step_pings [OF step] Cons.IH [OF rest(1)] rest(2) show ?case by (simp add: healthy_ticks_def)
qed (simp add: healthy_ticks_def)

section \<open>Properties\<close>

text \<open>
  C14. The watchdog is pinged exactly while the runtime is healthy: in every run the pings sent
  are as many as the ticks that found the runtime healthy, none without a configured
  watchdog, and each tick schedules the next within half the watchdog's interval.
\<close>

theorem pings_are_healthy_ticks:
  assumes "run_machine (status_step n) StatusStart ins = Some (pc, h)"
  shows "count_list h watchdog_fields = (if nt_watchdog n \<noteq> None then healthy_ticks ins else 0) \<and>
    (\<forall>d due now st. nt_watchdog n = Some d \<longrightarrow> due \<le> now \<longrightarrow>
       (\<exists>next_due os. status_step n (StatusWait due) (StatusTick st, now) = Some (StatusWait next_due, os) \<and>
          2 * (next_due - now) \<le> d))"
proof -
  have "2 * (next_tick (status_interval n) due now - now) \<le> d" if "nt_watchdog n = Some d" "due \<le> now" for d due now
    using that by (auto simp: next_tick_def status_interval_def)
  then show ?thesis using run_pings [OF assms] by simp
qed

definition demo_notifier :: notifier where
  "demo_notifier = \<lparr>nt_socket = Some ''@run'', nt_watchdog = Some (secs 30)\<rparr>"

lemma demo_healthy: "is_healthy now (new_runtime_state 0 0 0 (secs 60) 0)"
  by (simp add: is_healthy_def health_problem_def watchers_health_problem_def command_runners_health_problem_def
      new_runtime_state_def)

lemma pings_are_healthy_ticks_witness:
  "count_list (send_runtime_status (new_runtime_state 0 0 0 (secs 60) 0) @
     status_tick demo_notifier (secs 15) (new_runtime_state 0 0 0 (secs 60) 0)) watchdog_fields = 1"
proof -
  let ?st = "new_runtime_state 0 0 0 (secs 60) 0"
  have "run_machine (status_step demo_notifier) StatusStart [(StatusBegin ?st, 0), (StatusTick ?st, secs 15)] =
      Some (StatusWait (secs 15 + secs 15), send_runtime_status ?st @ status_tick demo_notifier (secs 15) ?st)"
    by (simp add: status_interval_def demo_notifier_def next_tick_def secs_def instant_add_def instant_limit_def)
  from pings_are_healthy_ticks [OF this] show ?thesis
    by (simp add: healthy_ticks_def demo_healthy demo_notifier_def)
qed

text \<open>
  C38. Messages cannot be forged through a status text: whatever line endings or equals signs the
  text contains, a manager that reads the message line by line finds exactly the fields sent.
\<close>

theorem messages_read_back:
  "parse_message (join_fields (ready_fields s)) = ready_fields s \<and>
   parse_message (join_fields (status_fields s)) = status_fields s \<and>
   parse_message (join_fields watchdog_fields) = watchdog_fields \<and>
   parse_message (join_fields stopping_fields) = stopping_fields"
  by (intro conjI parse_join)
     (simp_all add: ready_fields_def status_fields_def watchdog_fields_def stopping_fields_def field_ok_def
       sanitize_no_lf LF_def [symmetric], simp_all add: LF_def)

end
