(* ===== verification/Daemon.thy ===== *)
theory Daemon
  imports Debouncer Imap_Watcher Gmail_Poll Resume_Source Systemd_Notify
begin

text \<open>
  The daemon (\<^verbatim>\<open>src/src/main.rs\<close>): which commands, lanes, watchers and tasks a configuration
  gives, how each task's end is supervised, the wait for initial readiness, the exit code, and
  the \<^verbatim>\<open>test-command\<close> lookup. The command line parser, signals and the tokio runtime are
  observations.
\<close>

section \<open>Commands and lanes\<close>

record command_spec =
  cs_name :: string
  cs_lane :: string
  cs_cmd :: string
  cs_timeout :: duration
  cs_min_interval :: duration
  cs_policy :: output_policy

definition mailbox_spec :: "config \<Rightarrow> account_config \<Rightarrow> mailbox_config \<Rightarrow> command_spec" where
  "mailbox_spec c a m = (let name = legacy_source_name (ac_name a) (mb_name m) in
     \<lparr>cs_name = name, cs_lane = name, cs_cmd = mb_on_notify m, cs_timeout = config_command_timeout c,
      cs_min_interval = min_command_interval c, cs_policy = command_output_policy c\<rparr>)"

definition command_config_spec :: "config \<Rightarrow> command_config \<Rightarrow> command_spec" where
  "command_config_spec c cc =
     \<lparr>cs_name = cc_name cc, cs_lane = lane_name cc, cs_cmd = cc_cmd cc, cs_timeout = cc_timeout cc c,
      cs_min_interval = cc_min_interval cc c, cs_policy = cc_output_policy cc c\<rparr>"

definition runtime_command_specs :: "config \<Rightarrow> command_spec list" where
  "runtime_command_specs c =
     concat (map (\<lambda>a. map (mailbox_spec c a) (ac_mailboxes a)) (accounts c)) @
     map (command_config_spec c) (commands c)"

text \<open>
  A hash map of lists as an association list; its iteration order is the hasher's in the source
  and insertion order here, and no statement depends on it.
\<close>

definition lane_push :: "(string \<times> command_spec list) list \<Rightarrow> command_spec \<Rightarrow> (string \<times> command_spec list) list" where
  "lane_push by_lane s =
     AList.update (cs_lane s) (unwrap_or (map_of by_lane (cs_lane s)) [] @ [s]) by_lane"

definition commands_by_lane :: "command_spec list \<Rightarrow> (string \<times> command_spec list) list" where
  "commands_by_lane specs = foldl lane_push [] specs"

text \<open>The request sender of a command is that of its lane; a later insertion replaces an earlier one.\<close>

definition command_senders :: "(string \<times> command_spec list) list \<Rightarrow> string \<rightharpoonup> string" where
  "command_senders by_lane =
     map_of (rev (concat (map (\<lambda>(lane, specs). map (\<lambda>s. (cs_name s, lane)) specs) by_lane)))"

definition lane_of :: "string \<times> command_spec list \<Rightarrow> lane_config" where
  "lane_of e = new_lane (fst e)
     (map (\<lambda>s. \<lparr>lc_name = cs_name s, lc_min_interval = cs_min_interval s\<rparr>) (snd e)) True"

datatype daemon_error = NoLane string | SourceAccount string string

text \<open>\<open>command_trigger\<close>: the lane and the trigger on it.\<close>

definition find_trigger :: "(string \<rightharpoonup> string) \<Rightarrow> string \<Rightarrow> string \<Rightarrow> (daemon_error, string \<times> command_trigger) result" where
  "find_trigger senders command source = (case senders command of
     None \<Rightarrow> Inl (NoLane command)
   | Some lane \<Rightarrow> Inr (lane, \<lparr>ct_command = command, ct_source = source\<rparr>))"

section \<open>The tasks of a configuration\<close>

datatype task_plan =
  PlanLane lane_config "command_spec list"
| PlanDebounce string debounce_config "string \<times> command_trigger"
| PlanStartupEvent string
| PlanImap string account_config mailbox_config imap_settings
| PlanGmail string gmail_source poll_settings duration
| PlanFs fs_watch_task bool "(string \<times> duration) option" "string \<times> command_trigger"
| PlanResumeRunner string resume_config "string \<times> command_trigger"
| PlanResumeListener resume_watch_task

text \<open>Setting up a task registers its watcher and spawns its tasks, in this order.\<close>

type_synonym wiring = "(daemon_error, rt_op list \<times> task_plan list) result"

definition setup_then :: "wiring \<Rightarrow> wiring \<Rightarrow> wiring" where
  "setup_then a b = and_then a (\<lambda>(ops, plans). and_then b (\<lambda>(ops', plans'). Inr (ops @ ops', plans @ plans')))"

fun setup_all :: "wiring list \<Rightarrow> wiring" where
  "setup_all [] = Inr ([], [])"
| "setup_all (x # xs) = setup_then x (setup_all xs)"

definition watcher_settings :: "config \<Rightarrow> imap_settings" where
  "watcher_settings c = \<lparr>is_idle_refresh = idle_refresh c, is_helper_timeout = auth_helper_timeout c,
     is_helper_max = auth_helper_max_output_bytes c, is_connect_timeout = connect_timeout c,
     is_operation_timeout = imap_operation_timeout c\<rparr>"

definition debounce_for :: "duration \<Rightarrow> debounce_config" where
  "debounce_for d = new_debounce_runner d 0 True"

definition startup_event_plan :: "bool \<Rightarrow> string \<Rightarrow> task_plan list" where
  "startup_event_plan run_on_startup name = (if run_on_startup then [PlanStartupEvent name] else [])"

definition setup_mailbox :: "config \<Rightarrow> (string \<rightharpoonup> string) \<Rightarrow> account_config \<Rightarrow> mailbox_config \<Rightarrow> wiring" where
  "setup_mailbox c senders a m = (let watcher = legacy_source_name (ac_name a) (mb_name m) in
     and_then (find_trigger senders watcher watcher) (\<lambda>trigger.
       Inr ([OpRegisterWatcher watcher],
            [PlanDebounce watcher (debounce_for (mailbox_debounce m c)) trigger,
             PlanImap watcher a m (watcher_settings c)])))"

definition setup_imap_source :: "config \<Rightarrow> (string \<rightharpoonup> string) \<Rightarrow> imap_idle_source \<Rightarrow> wiring" where
  "setup_imap_source c senders s =
     (case List.find (\<lambda>a. ac_name a = ii_account s) (accounts c) of
        None \<Rightarrow> Inl (SourceAccount (ii_name s) (ii_account s))
      | Some a \<Rightarrow> and_then (find_trigger senders (ii_on_event s) (ii_name s)) (\<lambda>trigger.
          Inr ([OpRegisterWatcher (ii_name s)],
               startup_event_plan (ii_run_on_startup s) (ii_name s) @
               [PlanDebounce (ii_name s) (debounce_for (imap_source_debounce s c)) trigger,
                PlanImap (ii_name s) a \<lparr>mb_name = ii_mailbox s, mb_on_notify = [], mb_debounce_seconds = ii_debounce_seconds s\<rparr>
                  (watcher_settings c)])))"

definition setup_gmail_source :: "config \<Rightarrow> (string \<rightharpoonup> string) \<Rightarrow> gmail_source \<Rightarrow> wiring" where
  "setup_gmail_source c senders s =
     and_then (find_trigger senders (gm_on_event s) (gm_name s)) (\<lambda>trigger.
       Inr ([OpRegisterWatcher (gm_name s)],
            startup_event_plan (gm_run_on_startup s) (gm_name s) @
            [PlanDebounce (gm_name s) (debounce_for (gmail_source_debounce s c)) trigger,
             PlanGmail (gm_name s) s \<lparr>gs_helper_timeout = auth_helper_timeout c,
               gs_helper_max = auth_helper_max_output_bytes c, gs_poll_interval = poll_interval s\<rparr> (api_timeout s)]))"

definition setup_fs_source :: "config \<Rightarrow> (string \<rightharpoonup> string) \<Rightarrow> fs_source \<Rightarrow> wiring" where
  "setup_fs_source c senders s =
     and_then (find_trigger senders (fs_on_change s) (fs_name s)) (\<lambda>trigger.
       Inr ([OpRegisterWatcher (fs_name s)],
            [PlanFs \<lparr>fw_source = s,
                 fw_config = new_fs_runner (fs_source_debounce s c) (fs_source_max_debounce s c) (fs_state_cmd s \<noteq> None) True,
                 fw_watcher = fs_name s\<rparr> (fs_run_on_startup s)
               (map_option (\<lambda>cmd. (cmd, config_command_timeout c)) (fs_state_cmd s)) trigger]))"

definition setup_resume_source :: "(string \<rightharpoonup> string) \<Rightarrow> resume_source \<Rightarrow> wiring" where
  "setup_resume_source senders s =
     and_then (find_trigger senders (sr_on_resume s) (sr_name s)) (\<lambda>trigger.
       Inr ([OpRegisterWatcher (sr_name s)],
            [PlanResumeRunner (sr_name s) (new_resume_runner (resume_settle s) True) trigger,
             PlanResumeListener \<lparr>rw_watcher = sr_name s, rw_broadcaster = True\<rparr>]))"

fun setup_source :: "config \<Rightarrow> (string \<rightharpoonup> string) \<Rightarrow> source_config \<Rightarrow> wiring" where
  "setup_source c senders (ImapIdle s) = setup_imap_source c senders s"
| "setup_source c senders (GmailApiPoll s) = setup_gmail_source c senders s"
| "setup_source c senders (FsState s) = setup_fs_source c senders s"
| "setup_source c senders (SystemResume s) = setup_resume_source senders s"

lemmas setup_source_defs [simp] = setup_imap_source_def setup_gmail_source_def setup_fs_source_def setup_resume_source_def

definition setup_lanes :: "(string \<times> command_spec list) list \<Rightarrow> wiring" where
  "setup_lanes by_lane = Inr (map (\<lambda>e. OpRegisterRunner (fst e)) by_lane, map (\<lambda>e. PlanLane (lane_of e) (snd e)) by_lane)"

text \<open>The first half of \<open>run_daemon\<close>.\<close>

definition daemon_setup :: "config \<Rightarrow> wiring" where
  "daemon_setup c =
     (let by_lane = commands_by_lane (runtime_command_specs c); senders = command_senders by_lane in
      setup_then (setup_lanes by_lane)
        (setup_then
          (setup_all (concat (map (\<lambda>a. map (setup_mailbox c senders a) (ac_mailboxes a)) (accounts c))))
          (setup_all (map (setup_source c senders) (sources c)))))"

definition max_command_timeout :: "config \<Rightarrow> duration" where
  "max_command_timeout c = (case map cs_timeout (runtime_command_specs c) of
     [] \<Rightarrow> config_command_timeout c | t # ts \<Rightarrow> foldl max t ts)"

definition max_watcher_operation_timeout :: "config \<Rightarrow> duration" where
  "max_watcher_operation_timeout c = foldl (\<lambda>m s. case s of GmailApiPoll g \<Rightarrow> max m (api_timeout g) | _ \<Rightarrow> m)
     (imap_operation_timeout c) (sources c)"

definition shutdown_grace :: "config \<Rightarrow> duration" where
  "shutdown_grace c = max (max_watcher_operation_timeout c) (max_command_timeout c) + secs 5"

definition daemon_state :: "config \<Rightarrow> runtime_state" where
  "daemon_state c = new_runtime_state (length (accounts c)) (source_count c) (command_lane_count c)
     (config_watcher_stale c) (max_command_timeout c)"

section \<open>Lanes and triggers resolve\<close>

lemma map_of_lane_push:
  "map_of (lane_push by_lane s) = (map_of by_lane)(cs_lane s \<mapsto> unwrap_or (map_of by_lane (cs_lane s)) [] @ [s])"
  by (simp add: lane_push_def update_conv')

lemma lanes_foldl:
  "unwrap_or (map_of (foldl lane_push acc specs) lane) [] =
     unwrap_or (map_of acc lane) [] @ filter (\<lambda>s. cs_lane s = lane) specs"
  by (induction specs arbitrary: acc) (auto simp: map_of_lane_push unwrap_or_def)

lemma lanes_distinct: "distinct (map fst acc) \<Longrightarrow> distinct (map fst (foldl lane_push acc specs))"
  by (induction specs arbitrary: acc) (auto simp: lane_push_def distinct_update)

lemma lanes_keys: "set (map fst (foldl lane_push acc specs)) = set (map fst acc) \<union> set (map cs_lane specs)"
proof (induction specs arbitrary: acc)
  case (Cons s specs)
  have "set (map fst (lane_push acc s)) = insert (cs_lane s) (set (map fst acc))"
    unfolding lane_push_def by (simp add: dom_map_of_conv_image_fst [symmetric] update_conv')
  with Cons.IH [of "lane_push acc s"] show ?case by simp
qed simp

lemma lane_entries:
  assumes "s \<in> set specs"
  shows "\<exists>ss. (cs_lane s, ss) \<in> set (commands_by_lane specs) \<and> s \<in> set ss"
proof -
  have "unwrap_or (map_of (commands_by_lane specs) (cs_lane s)) [] = filter (\<lambda>x. cs_lane x = cs_lane s) specs"
    using lanes_foldl [of "[]" specs "cs_lane s"] by (simp add: commands_by_lane_def unwrap_or_def)
  with assms have "s \<in> set (unwrap_or (map_of (commands_by_lane specs) (cs_lane s)) [])" by simp
  then show ?thesis
    by (cases "map_of (commands_by_lane specs) (cs_lane s)") (auto simp: unwrap_or_def dest: map_of_SomeD)
qed

text \<open>A trigger is served if its lane has its command.\<close>

definition served :: "(string \<times> command_spec list) list \<Rightarrow> string \<times> command_trigger \<Rightarrow> bool" where
  "served by_lane tr \<longleftrightarrow> (\<exists>ss. (fst tr, ss) \<in> set by_lane \<and> ct_command (snd tr) \<in> cs_name ` set ss)"

lemma find_trigger_served:
  assumes "command \<in> cs_name ` set specs"
  shows "\<exists>lane. find_trigger (command_senders (commands_by_lane specs)) command source =
      Inr (lane, \<lparr>ct_command = command, ct_source = source\<rparr>) \<and>
    served (commands_by_lane specs) (lane, \<lparr>ct_command = command, ct_source = source\<rparr>)"
proof -
  let ?pairs = "concat (map (\<lambda>(lane, specs). map (\<lambda>s. (cs_name s, lane)) specs) (commands_by_lane specs))"
  from assms obtain s where s: "s \<in> set specs" "cs_name s = command" by auto
  from lane_entries [OF s(1)] obtain ss where "(cs_lane s, ss) \<in> set (commands_by_lane specs)" "s \<in> set ss" by blast
  with s(2) have "(command, cs_lane s) \<in> set ?pairs" by force
  then have "command \<in> fst ` set (rev ?pairs)" by (simp add: rev_image_eqI)
  then obtain lane where lane: "map_of (rev ?pairs) command = Some lane"
    by (metis map_of_eq_None_iff not_None_eq)
  then have "(command, lane) \<in> set ?pairs" using map_of_SomeD by fastforce
  then have "served (commands_by_lane specs) (lane, \<lparr>ct_command = command, ct_source = source\<rparr>)"
    by (auto simp: served_def)
  with lane show ?thesis by (simp add: find_trigger_def command_senders_def)
qed

fun plan_triggers :: "task_plan list \<Rightarrow> (string \<times> command_trigger) list" where
  "plan_triggers [] = []"
| "plan_triggers (PlanDebounce i d tr # ps) = tr # plan_triggers ps"
| "plan_triggers (PlanFs t b r tr # ps) = tr # plan_triggers ps"
| "plan_triggers (PlanResumeRunner i r tr # ps) = tr # plan_triggers ps"
| "plan_triggers (_ # ps) = plan_triggers ps"

lemma plan_triggers_append [simp]: "plan_triggers (xs @ ys) = plan_triggers xs @ plan_triggers ys"
  by (induction xs rule: plan_triggers.induct) auto

lemma plan_triggers_lanes [simp]: "plan_triggers (map (\<lambda>e. PlanLane (f e) (g e)) es) = []"
  by (induction es) auto

text \<open>
  The readiness channels made under \<^verbatim>\<open>--initial-connect-required\<close>: one for each task that
  gets an \<open>initial_ready\<close> sender.
\<close>

fun initial_receivers :: "task_plan list \<Rightarrow> nat" where
  "initial_receivers [] = 0"
| "initial_receivers (PlanImap i a m st # ps) = Suc (initial_receivers ps)"
| "initial_receivers (PlanGmail i g st d # ps) = Suc (initial_receivers ps)"
| "initial_receivers (PlanFs t b r tr # ps) = Suc (initial_receivers ps)"
| "initial_receivers (PlanResumeListener t # ps) = Suc (initial_receivers ps)"
| "initial_receivers (_ # ps) = initial_receivers ps"

lemma initial_receivers_append [simp]: "initial_receivers (xs @ ys) = initial_receivers xs + initial_receivers ys"
  by (induction xs rule: initial_receivers.induct) auto

lemma initial_receivers_lanes [simp]: "initial_receivers (map (\<lambda>e. PlanLane (f e) (g e)) es) = 0"
  by (induction es) auto

text \<open>A set-up step that registers one watcher, asks for one readiness channel and whose triggers are served.\<close>

definition sets_up :: "(string \<times> command_spec list) list \<Rightarrow> string \<Rightarrow> wiring \<Rightarrow> bool" where
  "sets_up by_lane watcher w \<longleftrightarrow> (\<exists>plans. w = Inr ([OpRegisterWatcher watcher], plans) \<and>
     list_all (served by_lane) (plan_triggers plans) \<and> initial_receivers plans = 1)"

lemma setup_all_map:
  assumes "\<forall>x \<in> set xs. sets_up by_lane (g x) (f x)"
  shows "\<exists>plans. setup_all (map f xs) = Inr (map (\<lambda>x. OpRegisterWatcher (g x)) xs, plans) \<and>
     list_all (served by_lane) (plan_triggers plans) \<and> initial_receivers plans = length xs"
  using assms
proof (induction xs)
  case (Cons x xs)
  then obtain p1 p2 where "f x = Inr ([OpRegisterWatcher (g x)], p1)" "list_all (served by_lane) (plan_triggers p1)"
    "initial_receivers p1 = 1" "initial_receivers p2 = length xs"
    "setup_all (map f xs) = Inr (map (\<lambda>x. OpRegisterWatcher (g x)) xs, p2)" "list_all (served by_lane) (plan_triggers p2)"
    by (auto simp: sets_up_def)
  then show ?case by (simp add: setup_then_def)
qed simp

lemma setup_mailbox_ok:
  assumes "a \<in> set (accounts c)" "m \<in> set (ac_mailboxes a)"
  defines "by_lane \<equiv> commands_by_lane (runtime_command_specs c)"
  shows "sets_up by_lane (legacy_source_name (ac_name a) (mb_name m)) (setup_mailbox c (command_senders by_lane) a m)"
proof -
  let ?n = "legacy_source_name (ac_name a) (mb_name m)"
  have "cs_name (mailbox_spec c a m) = ?n" "mailbox_spec c a m \<in> set (runtime_command_specs c)"
    using assms by (auto simp: mailbox_spec_def runtime_command_specs_def Let_def)
  then have "?n \<in> cs_name ` set (runtime_command_specs c)" by (metis image_eqI)
  from find_trigger_served [OF this, of ?n] show ?thesis
    by (auto simp: sets_up_def setup_mailbox_def by_lane_def Let_def)
qed

lemma startup_plan_triggers [simp]: "plan_triggers (startup_event_plan b n) = []" "initial_receivers (startup_event_plan b n) = 0"
  by (simp_all add: startup_event_plan_def)

lemma setup_source_ok:
  assumes "source_command s \<in> set (map cc_name (commands c))"
    "source_ok (set (map ac_name (accounts c))) s"
  defines "by_lane \<equiv> commands_by_lane (runtime_command_specs c)"
  shows "sets_up by_lane (source_name s) (setup_source c (command_senders by_lane) s)"
proof -
  have "source_command s \<in> cs_name ` set (runtime_command_specs c)"
    using assms(1) by (force simp: runtime_command_specs_def command_config_spec_def)
  from find_trigger_served [OF this, of "source_name s"] obtain lane where
    f: "find_trigger (command_senders by_lane) (source_command s) (source_name s) =
      Inr (lane, \<lparr>ct_command = source_command s, ct_source = source_name s\<rparr>)"
      "served by_lane (lane, \<lparr>ct_command = source_command s, ct_source = source_name s\<rparr>)"
    by (auto simp: by_lane_def)
  show ?thesis
  proof (cases s)
    case (ImapIdle i)
    with assms(2) have "ii_account i \<in> ac_name ` set (accounts c)" by simp
    then obtain a where "List.find (\<lambda>a. ac_name a = ii_account i) (accounts c) = Some a"
      by (cases "List.find (\<lambda>a. ac_name a = ii_account i) (accounts c)") (auto simp: find_None_iff)
    with f ImapIdle show ?thesis by (simp add: sets_up_def)
  qed (use f in \<open>simp_all add: sets_up_def\<close>)
qed

section \<open>Registrations and health\<close>

lemma update_nonmem: "k \<notin> fst ` set al \<Longrightarrow> AList.update k v al = al @ [(k, v)]"
  by (induction al) auto

lemma register_watchers:
  assumes "distinct ids" "set ids \<inter> set (map fst (watchers st)) = {}"
  shows "\<exists>ws. apply_ops (map (\<lambda>i. (OpRegisterWatcher i, now)) ids) st = st\<lparr>watchers := watchers st @ ws\<rparr> \<and> map fst ws = ids \<and>
    (\<forall>p \<in> set ws. snd p = \<lparr>w_phase = WStarting, w_last_progress = now\<rparr>)"
  using assms
proof (induction ids arbitrary: st)
  case (Cons i ids)
  have fresh: "i \<notin> fst ` set (watchers st)" using Cons.prems(2) by auto
  have "register_watcher i now st = st\<lparr>watchers := watchers st @ [(i, \<lparr>w_phase = WStarting, w_last_progress = now\<rparr>)]\<rparr>"
    using fresh by (simp add: register_watcher_def update_nonmem)
  with Cons.IH [of "st\<lparr>watchers := watchers st @ [(i, \<lparr>w_phase = WStarting, w_last_progress = now\<rparr>)]\<rparr>"] Cons.prems
  show ?case by fastforce
qed (auto intro: exI [of _ "[]"])

lemma register_runners:
  assumes "distinct ids" "set ids \<inter> set (map fst (command_runners st)) = {}"
  shows "\<exists>rs. apply_ops (map (\<lambda>i. (OpRegisterRunner i, now)) ids) st = st\<lparr>command_runners := command_runners st @ rs\<rparr> \<and>
    map fst rs = ids \<and> (\<forall>p \<in> set rs. snd p = \<lparr>r_phase = runner_phase.RStarting, r_last_progress = now, r_command_started = None\<rparr>)"
  using assms
proof (induction ids arbitrary: st)
  case (Cons i ids)
  let ?r = "\<lparr>r_phase = runner_phase.RStarting, r_last_progress = now, r_command_started = None\<rparr>"
  have fresh: "i \<notin> fst ` set (command_runners st)" using Cons.prems(2) by auto
  have "register_command_runner i now st = st\<lparr>command_runners := command_runners st @ [(i, ?r)]\<rparr>"
    using fresh by (simp add: register_command_runner_def update_nonmem)
  with Cons.IH [of "st\<lparr>command_runners := command_runners st @ [(i, ?r)]\<rparr>"] Cons.prems
  show ?case by fastforce
qed (auto intro: exI [of _ "[]"])

lemma apply_ops_append: "apply_ops (xs @ ys) st = apply_ops ys (apply_ops xs st)"
  by (induction xs arbitrary: st) auto

lemma registered_healthy:
  assumes "distinct lanes" "distinct ids" "length lanes = total_command_lanes st" "length ids = total_sources st"
    "watchers st = []" "command_runners st = []"
  shows "is_healthy now (apply_ops (map (\<lambda>i. (OpRegisterRunner i, now)) lanes @ map (\<lambda>i. (OpRegisterWatcher i, now)) ids) st)"
proof -
  obtain rs where rs: "apply_ops (map (\<lambda>i. (OpRegisterRunner i, now)) lanes) st = st\<lparr>command_runners := rs\<rparr>" "map fst rs = lanes"
    "\<forall>p \<in> set rs. snd p = \<lparr>r_phase = runner_phase.RStarting, r_last_progress = now, r_command_started = None\<rparr>"
    using register_runners [of lanes st now] assms by auto
  obtain ws where ws: "apply_ops (map (\<lambda>i. (OpRegisterWatcher i, now)) ids) (st\<lparr>command_runners := rs\<rparr>) =
      st\<lparr>command_runners := rs, watchers := ws\<rparr>" "map fst ws = ids"
    "\<forall>p \<in> set ws. snd p = \<lparr>w_phase = WStarting, w_last_progress = now\<rparr>"
    using register_watchers [of ids "st\<lparr>command_runners := rs\<rparr>" now] assms by auto
  have "length rs = length lanes" "length ws = length ids"
    using rs(2) ws(2) by (metis length_map)+
  with assms rs(3) ws(3) show ?thesis
    by (simp add: apply_ops_append rs(1) ws(1) is_healthy_iff watcher_ok_def runner_ok_def)
qed

definition watcher_ids :: "config \<Rightarrow> string list" where
  "watcher_ids c = legacy_names c @ map source_name (sources c)"

lemma legacy_names_length: "length (legacy_names c) = mailbox_count c"
  by (simp add: legacy_names_def mailbox_count_def length_concat o_def)

lemma lane_count: "length (commands_by_lane (runtime_command_specs c)) = command_lane_count c"
proof -
  let ?b = "commands_by_lane (runtime_command_specs c)"
  have d: "distinct (map fst ?b)" by (simp add: commands_by_lane_def lanes_distinct)
  have "set (map fst ?b) = set (map cs_lane (runtime_command_specs c))"
    using lanes_keys [of "[]" "runtime_command_specs c"] by (simp add: commands_by_lane_def)
  also have "\<dots> = set (legacy_names c) \<union> set (map lane_name (commands c))"
    by (simp add: runtime_command_specs_def mailbox_spec_def command_config_spec_def legacy_names_def Let_def
        image_Un image_UN image_image o_def)
  finally have "card (set (map fst ?b)) = command_lane_count c" by (simp add: command_lane_count_def)
  with distinct_card [OF d] show ?thesis by simp
qed

lemma daemon_setup_ok:
  assumes "config_ok c"
  shows "\<exists>plans. daemon_setup c = Inr (map OpRegisterRunner (map fst (commands_by_lane (runtime_command_specs c))) @
      map OpRegisterWatcher (watcher_ids c), map (\<lambda>e. PlanLane (lane_of e) (snd e)) (commands_by_lane (runtime_command_specs c)) @ plans) \<and>
    list_all (served (commands_by_lane (runtime_command_specs c))) (plan_triggers plans) \<and>
    initial_receivers plans = source_count c"
proof -
  let ?b = "commands_by_lane (runtime_command_specs c)"
  let ?pairs = "concat (map (\<lambda>a. map (Pair a) (ac_mailboxes a)) (accounts c))"
  have "\<forall>p \<in> set ?pairs. sets_up ?b (legacy_source_name (ac_name (fst p)) (mb_name (snd p)))
      (setup_mailbox c (command_senders ?b) (fst p) (snd p))"
    using setup_mailbox_ok by auto
  from setup_all_map [OF this] obtain p1 where p1: "setup_all (map (\<lambda>p. setup_mailbox c (command_senders ?b) (fst p) (snd p)) ?pairs) =
      Inr (map (\<lambda>p. OpRegisterWatcher (legacy_source_name (ac_name (fst p)) (mb_name (snd p)))) ?pairs, p1)"
    "list_all (served ?b) (plan_triggers p1)" "initial_receivers p1 = length ?pairs" by blast
  have pairs: "length ?pairs = mailbox_count c" by (simp add: mailbox_count_def length_concat o_def)
  have mailboxes: "map (\<lambda>p. setup_mailbox c (command_senders ?b) (fst p) (snd p)) ?pairs =
      concat (map (\<lambda>a. map (setup_mailbox c (command_senders ?b) a) (ac_mailboxes a)) (accounts c))"
    "map (\<lambda>p. OpRegisterWatcher (legacy_source_name (ac_name (fst p)) (mb_name (snd p)))) ?pairs = map OpRegisterWatcher (legacy_names c)"
    by (simp_all add: map_concat o_def legacy_names_def)
  have "\<forall>s \<in> set (sources c). sets_up ?b (source_name s) (setup_source c (command_senders ?b) s)"
    using assms setup_source_ok by (simp add: config_ok_def)
  from setup_all_map [OF this] obtain p2 where p2: "setup_all (map (setup_source c (command_senders ?b)) (sources c)) =
      Inr (map (\<lambda>s. OpRegisterWatcher (source_name s)) (sources c), p2)" "list_all (served ?b) (plan_triggers p2)"
    "initial_receivers p2 = length (sources c)" by blast
  show ?thesis
    by (intro exI [of _ "p1 @ p2"])
       (simp add: daemon_setup_def Let_def setup_lanes_def setup_then_def p1 [unfolded mailboxes] p2 watcher_ids_def o_def
         p1(3) pairs source_count_def)
qed

lemma lane_of_knows: "n \<in> cs_name ` set ss \<Longrightarrow> ln_commands (lane_of (lane, ss)) n \<noteq> None"
proof -
  assume "n \<in> cs_name ` set ss"
  then have "n \<in> fst ` set (map (\<lambda>c. (lc_name c, c)) (map (\<lambda>s. \<lparr>lc_name = cs_name s, lc_min_interval = cs_min_interval s\<rparr>) ss))"
    by force
  then show ?thesis
    by (simp add: lane_of_def new_lane_def map_of_eq_None_iff image_iff)
qed

text \<open>Where the plans send a source's events: to a lane task that knows the command.\<close>

definition trigger_resolved :: "task_plan list \<Rightarrow> string \<times> command_trigger \<Rightarrow> bool" where
  "trigger_resolved plans tr \<longleftrightarrow> (\<exists>l specs. PlanLane l specs \<in> set plans \<and> ln_lane l = fst tr \<and>
     ln_commands l (ct_command (snd tr)) \<noteq> None \<and> (\<exists>s \<in> set specs. cs_name s = ct_command (snd tr)))"

lemma served_resolved:
  assumes "served by_lane tr"
  shows "trigger_resolved (map (\<lambda>e. PlanLane (lane_of e) (snd e)) by_lane @ plans) tr"
proof -
  from assms obtain ss where ss: "(fst tr, ss) \<in> set by_lane" "ct_command (snd tr) \<in> cs_name ` set ss"
    by (auto simp: served_def)
  then have "PlanLane (lane_of (fst tr, ss)) ss \<in> set (map (\<lambda>e. PlanLane (lane_of e) (snd e)) by_lane @ plans)" by force
  moreover have "ln_lane (lane_of (fst tr, ss)) = fst tr" by (simp add: lane_of_def new_lane_def)
  ultimately show ?thesis
    unfolding trigger_resolved_def using lane_of_knows [OF ss(2), of "fst tr"] ss(2) by fastforce
qed

text \<open>Whatever the tasks report, the maps of the state keep distinct keys.\<close>

lemma daemon_state_wf: "rt_wf (apply_ops ops (daemon_state c))"
  by (simp add: daemon_state_def mw_inv)

section \<open>Property\<close>

text \<open>
  C11. A validated configuration always starts: no lookup of an account or lane fails, every
  source's trigger is sent to a planned lane that knows its command, and the state just after
  all registrations counts every source and lane and is healthy. Every source gets exactly one
  readiness channel.
\<close>

theorem validated_config_starts:
  assumes "validate c = Inr ()"
  shows "\<exists>ops plans. daemon_setup c = Inr (ops, plans) \<and>
     list_all (trigger_resolved plans) (plan_triggers plans) \<and> initial_receivers plans = source_count c \<and>
     is_healthy now (apply_ops (map (\<lambda>op. (op, now)) ops) (daemon_state c))"
proof -
  from assms have ok: "config_ok c" by (simp add: validate_iff)
  let ?b = "commands_by_lane (runtime_command_specs c)"
  from daemon_setup_ok [OF ok] obtain plans where
    p: "daemon_setup c = Inr (map OpRegisterRunner (map fst ?b) @ map OpRegisterWatcher (watcher_ids c),
      map (\<lambda>e. PlanLane (lane_of e) (snd e)) ?b @ plans)" "list_all (served ?b) (plan_triggers plans)" "initial_receivers plans = source_count c" by blast
  have "distinct (watcher_ids c)" using ok by (simp add: config_ok_def watcher_ids_def)
  moreover have "distinct (map fst ?b)" by (simp add: commands_by_lane_def lanes_distinct)
  moreover have "length (watcher_ids c) = total_sources (daemon_state c)"
    by (simp add: watcher_ids_def legacy_names_length source_count_def daemon_state_def new_runtime_state_def)
  moreover have "length (map fst ?b) = total_command_lanes (daemon_state c)"
    by (simp add: lane_count daemon_state_def new_runtime_state_def)
  ultimately have "is_healthy now (apply_ops (map (\<lambda>i. (OpRegisterRunner i, now)) (map fst ?b) @
      map (\<lambda>i. (OpRegisterWatcher i, now)) (watcher_ids c)) (daemon_state c))"
    by (intro registered_healthy) (simp_all add: daemon_state_def new_runtime_state_def)
  with p served_resolved show ?thesis by (simp add: o_def list_all_iff)
qed

lemma validated_config_starts_witness:
  "\<exists>ops plans. daemon_setup demo_config = Inr (ops, plans) \<and>
     list_all (trigger_resolved plans) (plan_triggers plans) \<and> initial_receivers plans = source_count demo_config \<and>
     is_healthy 0 (apply_ops (map (\<lambda>op. (op, 0)) ops) (daemon_state demo_config))"
  using validated_config_starts [of demo_config 0] demo_config_ok by (simp add: validate_iff)

end
