(* ===== verification/Daemon_Run.thy ===== *)
theory Daemon_Run
  imports Daemon
begin

text \<open>
  The daemon's life after its tasks are spawned (\<^verbatim>\<open>src/src/main.rs\<close>): supervision of each
  task's end, the startup event, the wait for initial readiness, serving, shutdown, the exit
  code, and the \<^verbatim>\<open>check-config\<close> and \<^verbatim>\<open>test-command\<close> subcommands. Signals, task ends and
  channel messages are observations of the step machine; error texts that embed the rendering
  of another error take that rendering as an argument.
\<close>

section \<open>Exit codes\<close>

datatype exit_message =
  InitialSetupFailed string
| ImapAuthStopped string string imap_error
| GmailAuthStopped string gmail_error

record coded_exit =
  ce_code :: int
  ce_message :: exit_message

definition permanent_auth :: "exit_message \<Rightarrow> coded_exit" where
  "permanent_auth m = \<lparr>ce_code = REAUTH_REQUIRED_EXIT_CODE, ce_message = m\<rparr>"

datatype daemon_failure =
  Coded coded_exit
| ConfigFailed config_error
| HelpersFailed auth_error
| WiringFailed daemon_error
| NotReady string
| StoppedBeforeReady
| FatalChannelClosed
| TestTargetInvalid
| CommandNotFound string
| MissingCommand string string
| MailboxNotFound string string
| AccountNotFound string
| TestCommandError command_error
| TestCommandFailed string

text \<open>\<open>main\<close>: only a coded error has a code of its own.\<close>

fun exit_code :: "(daemon_failure, 'a) result \<Rightarrow> int" where
  "exit_code (Inr _) = 0"
| "exit_code (Inl (Coded e)) = ce_code e"
| "exit_code (Inl _) = 1"

section \<open>Supervision\<close>

text \<open>\<^verbatim>\<open>handle.await\<close>: the task's value, or the error of a task that panicked or was cancelled.\<close>

datatype 'r joined = Joined 'r | JoinFailed

definition spawn_debounce_runner :: "string \<Rightarrow> unit joined \<Rightarrow> rt_op list" where
  "spawn_debounce_runner watcher r = (case r of JoinFailed \<Rightarrow> [OpMarkWatcher watcher WCrashed] | Joined _ \<Rightarrow> [])"

definition spawn_lane_runner :: "string \<Rightarrow> unit joined \<Rightarrow> rt_op list" where
  "spawn_lane_runner lane r = (case r of
     Joined _ \<Rightarrow> [OpMarkRunner lane RStopped] | JoinFailed \<Rightarrow> [OpMarkRunner lane RCrashed])"

definition spawn_fs_state_watcher :: "string \<Rightarrow> unit joined \<Rightarrow> rt_op list" where
  "spawn_fs_state_watcher watcher r = (case r of JoinFailed \<Rightarrow> [OpMarkWatcher watcher WCrashed] | Joined _ \<Rightarrow> [])"

definition spawn_system_resume_runner :: "string \<Rightarrow> unit joined \<Rightarrow> rt_op list" where
  "spawn_system_resume_runner watcher r = (case r of JoinFailed \<Rightarrow> [OpMarkWatcher watcher WCrashed] | Joined _ \<Rightarrow> [])"

definition spawn_system_resume_watcher :: "string \<Rightarrow> unit joined \<Rightarrow> rt_op list" where
  "spawn_system_resume_watcher watcher r = (case r of JoinFailed \<Rightarrow> [OpMarkWatcher watcher WCrashed] | Joined _ \<Rightarrow> [])"

definition spawn_gmail_api_poll_watcher ::
  "string \<Rightarrow> string \<Rightarrow> (gmail_error, unit) result joined \<Rightarrow> rt_op list \<times> coded_exit option" where
  "spawn_gmail_api_poll_watcher watcher source r = (case r of
     Joined (Inr _) \<Rightarrow> ([], None)
   | Joined (Inl e) \<Rightarrow> if permanent_gmail_failure e
       then ([OpMarkWatcher watcher WCrashed], Some (permanent_auth (GmailAuthStopped source e)))
       else ([OpMarkWatcher watcher WCrashed], None)
   | JoinFailed \<Rightarrow> ([OpMarkWatcher watcher WCrashed], None))"

definition spawn_watcher ::
  "string \<Rightarrow> string \<Rightarrow> string \<Rightarrow> (imap_error, unit) result joined \<Rightarrow> rt_op list \<times> coded_exit option" where
  "spawn_watcher watcher account mailbox r = (case r of
     Joined (Inr _) \<Rightarrow> ([], None)
   | Joined (Inl e) \<Rightarrow> ([OpMarkWatcher watcher WCrashed], Some (permanent_auth (ImapAuthStopped account mailbox e)))
   | JoinFailed \<Rightarrow> ([OpMarkWatcher watcher WCrashed], None))"

section \<open>The startup event\<close>

datatype startup_pc = StartupTop | StartupWait | StartupOver

text \<open>
  The value borrowed at the loop's top, with the result of the \<^verbatim>\<open>try_send\<close> it leads to; then
  what the \<open>select!\<close> saw. A change of the shutdown flag that does not ask to stop, or the
  loss of its sender, goes round the loop.
\<close>

datatype startup_input =
  StartupFlag bool send_result
| StartupChanged bool
| StartupShutdown watch_change

fun startup_step :: "(startup_pc, startup_input, send_result) machine" where
  "startup_step StartupTop (StartupFlag True r) = Some (StartupOver, [r])"
| "startup_step StartupTop (StartupFlag False r) = Some (StartupWait, [])"
| "startup_step StartupWait (StartupChanged True) = Some (StartupTop, [])"
| "startup_step StartupWait (StartupChanged False) = Some (StartupOver, [])"
| "startup_step StartupWait (StartupShutdown changed) =
     Some (if asks_stop changed then StartupOver else StartupTop, [])"
| "startup_step _ _ = None"

section \<open>Waiting for the tasks at shutdown\<close>

text \<open>
  \<open>await_task_shutdown\<close>: each handle in turn gets the grace period from the time its turn
  comes. A handle is the time its task ends, if it ends; the result is the time of the return
  and whether each handle was joined in time.
\<close>

fun await_task_shutdown :: "duration \<Rightarrow> instant \<Rightarrow> instant option list \<Rightarrow> instant \<times> bool list" where
  "await_task_shutdown grace now [] = (now, [])"
| "await_task_shutdown grace now (h # hs) = (case h of
     Some ends \<Rightarrow> if ends \<le> now + grace
       then apsnd (Cons True) (await_task_shutdown grace (max now ends) hs)
       else apsnd (Cons False) (await_task_shutdown grace (now + grace) hs)
   | None \<Rightarrow> apsnd (Cons False) (await_task_shutdown grace (now + grace) hs))"

section \<open>Readiness, serving and shutdown\<close>

definition IMAP_AUTH_FAILURE_PREFIX :: string where
  "IMAP_AUTH_FAILURE_PREFIX = ''IMAP watcher authentication failed''"

definition GMAIL_AUTH_FAILURE_PREFIX :: string where
  "GMAIL_AUTH_FAILURE_PREFIX = ''Gmail API poller authentication failed''"

text \<open>
  What the tasks send when they cannot become ready: the arguments are the quoted source name
  and the rendering of the error.
\<close>

datatype not_ready =
  ImapNotReady string
| GmailNotReady string
| FsBaselineFailed string string
| FsSetupFailed string string
| ResumeSetupFailed string string

fun ready_text :: "not_ready \<Rightarrow> string" where
  "ready_text (ImapNotReady e) = IMAP_AUTH_FAILURE_PREFIX @ '': '' @ e"
| "ready_text (GmailNotReady e) = GMAIL_AUTH_FAILURE_PREFIX @ '': '' @ e"
| "ready_text (FsBaselineFailed s e) = ''fs_state source '' @ s @ '' startup baseline failed: '' @ e"
| "ready_text (FsSetupFailed s e) = ''fs_state source '' @ s @ '' watcher setup failed: '' @ e"
| "ready_text (ResumeSetupFailed s e) = ''system_resume source '' @ s @ '' setup failed: '' @ e"

record daemon_task =
  dk_receivers :: nat
  dk_total_sources :: nat
  dk_grace :: duration

datatype daemon_pc =
  DaemonStart
| AwaitReady nat
| Serving
| DaemonOver "(daemon_failure, unit) result"

text \<open>
  The readiness of the receiver the loop is at (\<open>None\<close>: its sender was dropped), a message on
  the fatal channel, or a signal.
\<close>

datatype daemon_input =
  Spawned
| Readiness "(string, unit) result option"
| Fatal "coded_exit option"
| ShutdownSignal

datatype daemon_output =
  DaemonNotify "(string \<times> string) list"
| DaemonStatusTask
| DaemonStartup
| DaemonShutdown
| DaemonAwaitTasks duration

definition ready_status :: "daemon_task \<Rightarrow> string" where
  "ready_status t = ''mailwake started; watching '' @ show_nat (dk_total_sources t) @ '' source(s)''"

definition begin_serving :: "daemon_task \<Rightarrow> daemon_pc \<times> daemon_output list" where
  "begin_serving t = (Serving, [DaemonNotify (ready_fields (ready_status t)), DaemonStatusTask, DaemonStartup])"

definition await_next :: "daemon_task \<Rightarrow> nat \<Rightarrow> daemon_pc \<times> daemon_output list" where
  "await_next t k = (if k = 0 then begin_serving t else (AwaitReady k, []))"

definition stop_tasks :: "daemon_task \<Rightarrow> (daemon_failure, unit) result \<Rightarrow> daemon_pc \<times> daemon_output list" where
  "stop_tasks t r = (DaemonOver r, [DaemonShutdown, DaemonNotify stopping_fields, DaemonAwaitTasks (dk_grace t)])"

definition ready_failure :: "string \<Rightarrow> daemon_failure" where
  "ready_failure e =
     (if starts_with IMAP_AUTH_FAILURE_PREFIX e then Coded (permanent_auth (InitialSetupFailed e))
      else if starts_with GMAIL_AUTH_FAILURE_PREFIX e then Coded (permanent_auth (InitialSetupFailed e))
      else NotReady e)"

fun daemon_step :: "daemon_task \<Rightarrow> (daemon_pc, daemon_input, daemon_output) machine" where
  "daemon_step t DaemonStart Spawned = Some (await_next t (dk_receivers t))"
| "daemon_step t (AwaitReady k) (Readiness r) = Some (case r of
     None \<Rightarrow> (DaemonOver (Inl StoppedBeforeReady), [])
   | Some (Inr _) \<Rightarrow> await_next t (k - 1)
   | Some (Inl e) \<Rightarrow> (DaemonOver (Inl (ready_failure e)), []))"
| "daemon_step t (AwaitReady k) (Fatal f) = Some (case f of
     None \<Rightarrow> (DaemonOver (Inl FatalChannelClosed), [])
   | Some e \<Rightarrow> stop_tasks t (Inl (Coded e)))"
| "daemon_step t (AwaitReady k) ShutdownSignal = Some (stop_tasks t (Inr ()))"
| "daemon_step t Serving (Fatal f) = Some (case f of
     None \<Rightarrow> (DaemonOver (Inl FatalChannelClosed), [])
   | Some e \<Rightarrow> stop_tasks t (Inl (Coded e)))"
| "daemon_step t Serving ShutdownSignal = Some (stop_tasks t (Inr ()))"
| "daemon_step t _ _ = None"

text \<open>The part of \<open>run_daemon\<close> before its waits.\<close>

definition start_daemon ::
  "(config_error, config) result \<Rightarrow> host \<Rightarrow> bool
     \<Rightarrow> (daemon_failure, rt_op list \<times> task_plan list \<times> daemon_task) result" where
  "start_daemon loaded h initial_connect_required = (case loaded of
     Inl e \<Rightarrow> Inl (ConfigFailed e)
   | Inr c \<Rightarrow> (case validate_auth_helpers h c of
       Inl e \<Rightarrow> Inl (HelpersFailed e)
     | Inr _ \<Rightarrow> (case daemon_setup c of
         Inl e \<Rightarrow> Inl (WiringFailed e)
       | Inr (ops, plans) \<Rightarrow> Inr (ops, plans,
           \<lparr>dk_receivers = (if initial_connect_required then initial_receivers plans else 0),
            dk_total_sources = total_sources (daemon_state c), dk_grace = shutdown_grace c\<rparr>))))"

section \<open>The subcommands\<close>

definition mailbox_command :: "config \<Rightarrow> string \<Rightarrow> string \<Rightarrow> (daemon_failure, string \<times> string \<times> duration) result" where
  "mailbox_command c account mailbox =
     (case Option.bind (List.find (\<lambda>a. ac_name a = account) (accounts c))
         (\<lambda>a. map_option (Pair a) (List.find (\<lambda>m. mb_name m = mailbox) (ac_mailboxes a))) of
        Some (a, m) \<Rightarrow> Inr (legacy_source_name (ac_name a) (mb_name m), mb_on_notify m, config_command_timeout c)
      | None \<Rightarrow>
         (case List.find (\<lambda>s. case s of ImapIdle i \<Rightarrow> ii_account i = account \<and> ii_mailbox i = mailbox | _ \<Rightarrow> False) (sources c) of
            Some (ImapIdle i) \<Rightarrow>
              (case List.find (\<lambda>cc. cc_name cc = ii_on_event i) (commands c) of
                 None \<Rightarrow> Inl (MissingCommand (ii_name i) (ii_on_event i))
               | Some cc \<Rightarrow> Inr (cc_name cc, cc_cmd cc, cc_timeout cc c))
          | _ \<Rightarrow> if account \<in> set (map ac_name (accounts c)) then Inl (MailboxNotFound mailbox account)
                 else Inl (AccountNotFound account)))"

definition configured_test_command ::
  "config \<Rightarrow> string option \<Rightarrow> string option \<Rightarrow> string option
     \<Rightarrow> (daemon_failure, string \<times> string \<times> duration \<times> output_policy) result" where
  "configured_test_command c command account mailbox = (case (command, account, mailbox) of
     (Some n, None, None) \<Rightarrow>
       (case List.find (\<lambda>cc. cc_name cc = n) (commands c) of
          None \<Rightarrow> Inl (CommandNotFound n)
        | Some cc \<Rightarrow> Inr (cc_name cc, cc_cmd cc, cc_timeout cc c, cc_output_policy cc c))
   | (None, Some a, Some m) \<Rightarrow> and_then (mailbox_command c a m)
       (\<lambda>(n, cmd, d). Inr (n, cmd, d, command_output_policy c))
   | _ \<Rightarrow> Inl TestTargetInvalid)"

text \<open>\<open>None\<close>: the shell model has no result for this run.\<close>

definition test_command ::
  "(config_error, config) result \<Rightarrow> shell_exec \<Rightarrow> duration \<Rightarrow> string option \<Rightarrow> string option \<Rightarrow> string option
     \<Rightarrow> (daemon_failure, unit) result option" where
  "test_command loaded exec took command account mailbox = (case loaded of
     Inl e \<Rightarrow> Some (Inl (ConfigFailed e))
   | Inr c \<Rightarrow> (case configured_test_command c command account mailbox of
       Inl e \<Rightarrow> Some (Inl e)
     | Inr (n, cmd, d, policy) \<Rightarrow>
         map_option (\<lambda>(r, _). case r of
             Inl e \<Rightarrow> Inl (TestCommandError e)
           | Inr outcome \<Rightarrow> if success outcome then Inr () else Inl (TestCommandFailed (outcome_description outcome)))
           (run_named_shell_command_with_policy exec n cmd d policy False took)))"

definition check_config :: "(config_error, config) result \<Rightarrow> host \<Rightarrow> (daemon_failure, nat \<times> nat \<times> nat \<times> nat) result" where
  "check_config loaded h = (case loaded of
     Inl e \<Rightarrow> Inl (ConfigFailed e)
   | Inr c \<Rightarrow> (case validate_auth_helpers h c of
       Inl e \<Rightarrow> Inl (HelpersFailed e)
     | Inr _ \<Rightarrow> Inr (length (accounts c), source_count c, command_count c, command_lane_count c)))"

section \<open>The configuration path\<close>

text \<open>\<^verbatim>\<open>PathBuf::join\<close>: an absolute argument replaces the base.\<close>

definition path_push :: "string \<Rightarrow> string \<Rightarrow> string" where
  "path_push base rest = (if starts_with ''/'' rest then rest else path_join base rest)"

text \<open>\<open>text\<close> is \<^verbatim>\<open>path.to_str()\<close>, \<open>home\<close> the variable \<^verbatim>\<open>HOME\<close>.\<close>

definition expand_tilde :: "string option \<Rightarrow> bool \<Rightarrow> string \<Rightarrow> string" where
  "expand_tilde home is_text path =
     (if \<not> is_text then path
      else if path = ''~'' then unwrap_or home path
      else (case (strip_prefix ''~/'' path, home) of
          (Some rest, Some h) \<Rightarrow> path_push h rest
        | _ \<Rightarrow> path))"

definition default_config_path :: "string option \<Rightarrow> string option" where
  "default_config_path home = map_option (\<lambda>h. path_push h ''.config/mailwake/config.toml'') home"

definition resolve_config_path :: "string option \<Rightarrow> bool \<Rightarrow> string option \<Rightarrow> string" where
  "resolve_config_path home is_text path =
     unwrap_or (map_option (expand_tilde home is_text) path)
       (unwrap_or (default_config_path home) ''config.toml'')"

section \<open>Every run of the daemon\<close>

definition ready_answers :: "daemon_input list \<Rightarrow> nat" where
  "ready_answers ins = length (filter (\<lambda>i. i = Readiness (Some (Inr ()))) ins)"

definition asks_to_stop :: "daemon_input \<Rightarrow> bool" where
  "asks_to_stop i \<longleftrightarrow> i = ShutdownSignal \<or> (\<exists>f. i = Fatal (Some f))"

definition serving_effects :: "daemon_task \<Rightarrow> daemon_output list" where
  "serving_effects t = [DaemonNotify (ready_fields (ready_status t)), DaemonStatusTask, DaemonStartup]"

definition stop_effects :: "daemon_task \<Rightarrow> daemon_output list" where
  "stop_effects t = [DaemonShutdown, DaemonNotify stopping_fields, DaemonAwaitTasks (dk_grace t)]"

definition served_first :: "daemon_task \<Rightarrow> daemon_input list \<Rightarrow> daemon_output list \<Rightarrow> bool" where
  "served_first t ins h \<longleftrightarrow> h = [] \<or> (h = serving_effects t \<and> ready_answers ins = dk_receivers t)"

fun daemon_inv :: "daemon_task \<Rightarrow> daemon_input list \<Rightarrow> daemon_pc \<Rightarrow> daemon_output list \<Rightarrow> bool" where
  "daemon_inv t ins DaemonStart h \<longleftrightarrow> ins = [] \<and> h = []"
| "daemon_inv t ins (AwaitReady k) h \<longleftrightarrow> h = [] \<and> 0 < k \<and> k + ready_answers ins = dk_receivers t"
| "daemon_inv t ins Serving h \<longleftrightarrow> h = serving_effects t \<and> ready_answers ins = dk_receivers t"
| "daemon_inv t ins (DaemonOver r) h \<longleftrightarrow> (\<exists>h0 js i. ins = js @ [i] \<and> i \<noteq> Readiness (Some (Inr ())) \<and> served_first t js h0 \<and>
     h = h0 @ (if asks_to_stop i then stop_effects t else []))"

lemma ready_answers_snoc [simp]:
  "ready_answers (ins @ [i]) = ready_answers ins + (if i = Readiness (Some (Inr ())) then 1 else 0)"
  "ready_answers [] = 0" "ready_answers [i] = (if i = Readiness (Some (Inr ())) then 1 else 0)"
  by (simp_all add: ready_answers_def)

lemmas daemon_points = begin_serving_def await_next_def stop_tasks_def ready_failure_def serving_effects_def
  stop_effects_def served_first_def asks_to_stop_def

lemma daemon_inv_step:
  assumes "daemon_inv t ins s h" "daemon_step t s i = Some (s', os)"
  shows "daemon_inv t (ins @ [i]) s' (h @ os)"
proof (cases s)
  case DaemonStart
  with assms show ?thesis by (cases i) (auto simp: daemon_points split: if_splits)
next
  case (AwaitReady k)
  show ?thesis
  proof (cases i)
    case (Readiness r)
    show ?thesis
    proof (cases r)
      case (Some a)
      with assms AwaitReady Readiness show ?thesis
        by (cases a) (auto simp: daemon_points split: if_splits)
    qed (use assms AwaitReady Readiness in \<open>auto simp: daemon_points\<close>)
  next
    case (Fatal f)
    with assms AwaitReady show ?thesis by (cases f) (auto simp: daemon_points)
  qed (use assms AwaitReady in \<open>auto simp: daemon_points\<close>)
next
  case Serving
  show ?thesis
  proof (cases i)
    case (Fatal f)
    with assms Serving show ?thesis by (cases f) (auto simp: daemon_points)
  qed (use assms Serving in \<open>auto simp: daemon_points\<close>)
qed (use assms in simp)

lemma daemon_run_inv:
  "run_machine (daemon_step t) DaemonStart ins = Some (s, h) \<Longrightarrow> daemon_inv t ins s h"
proof (induction ins arbitrary: s h rule: rev_induct)
  case (snoc i ins)
  then obtain s1 h1 os where "run_machine (daemon_step t) DaemonStart ins = Some (s1, h1)"
    "daemon_step t s1 i = Some (s, os)" "h = h1 @ os"
    by (auto simp: run_append split: option.splits)
  with snoc.IH daemon_inv_step show ?case by blast
qed simp

section \<open>Exit codes of runs\<close>

text \<open>
  The observations the modelled tasks can cause, with whether a permanent authentication failure of
  an IMAP or Gmail task is their cause: the readiness answers in the runs of the two watchers, and
  the fatal messages their supervisors send when the task returns what its run returned, or when it
  panics or is cancelled. \<open>ri\<close> and \<open>rg\<close> render an error as text.
\<close>

inductive task_event :: "(imap_error \<Rightarrow> string) \<Rightarrow> (gmail_error \<Rightarrow> string) \<Rightarrow> bool \<Rightarrow> daemon_input \<Rightarrow> bool"
  for ri :: "imap_error \<Rightarrow> string" and rg :: "gmail_error \<Rightarrow> string" where
  event_spawned: "task_event ri rg False Spawned"
| event_signal: "task_event ri rg False ShutdownSignal"
| event_dropped: "task_event ri rg False (Readiness None)"
| event_ready: "task_event ri rg False (Readiness (Some (Inr ())))"
| event_closed: "task_event ri rg False (Fatal None)"
| event_fs_baseline: "task_event ri rg False (Readiness (Some (Inl (ready_text (FsBaselineFailed source e)))))"
| event_fs_setup: "task_event ri rg False (Readiness (Some (Inl (ready_text (FsSetupFailed source e)))))"
| event_resume_setup: "task_event ri rg False (Readiness (Some (Inl (ready_text (ResumeSetupFailed source e)))))"
| event_imap_not_ready: "\<lbrakk>run_machine (watch_step w) (watch_init asked) ins = Some (s, h); ImReady (Inl e) \<in> set h\<rbrakk> \<Longrightarrow>
     task_event ri rg (permanent_imap_failure e) (Readiness (Some (Inl (ready_text (ImapNotReady (ri e))))))"
| event_gmail_not_ready: "\<lbrakk>run_machine (poll_step p) (poll_init asked) ins = Some (s, h); GmReady (Inl e) \<in> set h\<rbrakk> \<Longrightarrow>
     task_event ri rg (permanent_gmail_failure e) (Readiness (Some (Inl (ready_text (GmailNotReady (rg e))))))"
| event_imap_over: "\<lbrakk>run_machine (watch_step w) (watch_init asked) ins = Some (s, h); wt_pc s = WOver r;
     snd (spawn_watcher (mt_watcher w) account mailbox (Joined r)) = Some f\<rbrakk> \<Longrightarrow>
     task_event ri rg (\<exists>e. r = Inl e \<and> permanent_imap_failure e) (Fatal (Some f))"
| event_imap_crashed: "snd (spawn_watcher watcher account mailbox JoinFailed) = Some f \<Longrightarrow> task_event ri rg False (Fatal (Some f))"
| event_gmail_over: "\<lbrakk>run_machine (poll_step p) (poll_init asked) ins = Some (s, h); pw_pc s = POver r;
     snd (spawn_gmail_api_poll_watcher (pt_watcher p) source (Joined r)) = Some f\<rbrakk> \<Longrightarrow>
     task_event ri rg (\<exists>e. r = Inl e \<and> permanent_gmail_failure e) (Fatal (Some f))"
| event_gmail_crashed: "snd (spawn_gmail_api_poll_watcher watcher source JoinFailed) = Some f \<Longrightarrow> task_event ri rg False (Fatal (Some f))"

lemma ready_failure_code:
  "exit_code (Inl (ready_failure (ready_text m))) = (case m of ImapNotReady e \<Rightarrow> 78 | GmailNotReady e \<Rightarrow> 78 | _ \<Rightarrow> 1)"
  by (cases m) (auto simp: ready_failure_def starts_with_iff permanent_auth_def REAUTH_REQUIRED_EXIT_CODE_def
      IMAP_AUTH_FAILURE_PREFIX_def GMAIL_AUTH_FAILURE_PREFIX_def)

lemma imap_over_permanent:
  assumes "run_machine (watch_step w) (watch_init asked) ins = Some (s, h)" "wt_pc s = WOver (Inl e)"
  shows "permanent_imap_failure e"
  using watcher.run_inv [OF assms(1)] assms(2) by (simp add: watch_inv_def)

text \<open>How the daemon ends on an observation.\<close>

fun end_on :: "daemon_input \<Rightarrow> (daemon_failure, unit) result" where
  "end_on (Readiness (Some (Inl text))) = Inl (ready_failure text)"
| "end_on (Readiness _) = Inl StoppedBeforeReady"
| "end_on (Fatal (Some f)) = Inl (Coded f)"
| "end_on (Fatal None) = Inl FatalChannelClosed"
| "end_on _ = Inr ()"

lemma daemon_end:
  "daemon_step t s i = Some (DaemonOver r, os) \<Longrightarrow> r = end_on i \<and> i \<noteq> Spawned \<and> i \<noteq> Readiness (Some (Inr ()))"
  by (cases s; cases i rule: end_on.cases) (auto simp: daemon_points split: if_splits option.splits sum.splits)

lemma task_event_code:
  assumes "task_event ri rg auth i" "i \<noteq> Spawned" "i \<noteq> Readiness (Some (Inr ()))"
  shows "exit_code (end_on i) = (if auth then 78 else if i = ShutdownSignal then 0 else 1)"
  using assms
proof cases
  case (event_imap_not_ready w asked ins s h e)
  with ready_error_permanent [of w asked ins s h e] ready_failure_code [of "ImapNotReady (ri e)"] show ?thesis
    by (simp del: ready_text.simps)
next
  case (event_gmail_not_ready p asked ins s h e)
  with poll_ready_error_permanent [of p asked ins s h e] ready_failure_code [of "GmailNotReady (rg e)"] show ?thesis
    by (simp del: ready_text.simps)
next
  case (event_imap_over w asked ins s h r account mailbox f)
  with imap_over_permanent [of w asked ins s h] show ?thesis
    by (cases r) (auto simp: spawn_watcher_def permanent_auth_def REAUTH_REQUIRED_EXIT_CODE_def)
next
  case (event_gmail_over p asked ins s h r source f)
  then show ?thesis
    by (cases r) (auto simp: spawn_gmail_api_poll_watcher_def permanent_auth_def REAUTH_REQUIRED_EXIT_CODE_def split: if_splits)
qed (auto simp: spawn_watcher_def spawn_gmail_api_poll_watcher_def ready_failure_code simp del: ready_text.simps)

text \<open>The other direction: a task that ends with a permanent authentication failure is reported.\<close>

lemma permanent_failures_are_sent:
  "\<lbrakk>run_machine (watch_step w) (watch_init asked) ins = Some (s, h); wt_pc s = WOver (Inl e)\<rbrakk> \<Longrightarrow>
     \<exists>f. snd (spawn_watcher (mt_watcher w) account mailbox (Joined (Inl e))) = Some f \<and> task_event ri rg True (Fatal (Some f))"
  "\<lbrakk>run_machine (poll_step p) (poll_init asked) jns = Some (s', h'); pw_pc s' = POver (Inl e'); permanent_gmail_failure e'\<rbrakk> \<Longrightarrow>
     \<exists>f. snd (spawn_gmail_api_poll_watcher (pt_watcher p) source (Joined (Inl e'))) = Some f \<and> task_event ri rg True (Fatal (Some f))"
proof -
  assume r: "run_machine (watch_step w) (watch_init asked) ins = Some (s, h)" "wt_pc s = WOver (Inl e)"
  have "snd (spawn_watcher (mt_watcher w) account mailbox (Joined (Inl e))) = Some (permanent_auth (ImapAuthStopped account mailbox e))"
    by (simp add: spawn_watcher_def)
  with event_imap_over [OF r this, of ri rg] imap_over_permanent [OF r] show
    "\<exists>f. snd (spawn_watcher (mt_watcher w) account mailbox (Joined (Inl e))) = Some f \<and> task_event ri rg True (Fatal (Some f))" by simp
next
  assume r: "run_machine (poll_step p) (poll_init asked) jns = Some (s', h')" "pw_pc s' = POver (Inl e')" and p: "permanent_gmail_failure e'"
  have "snd (spawn_gmail_api_poll_watcher (pt_watcher p) source (Joined (Inl e'))) = Some (permanent_auth (GmailAuthStopped source e'))"
    using p by (simp add: spawn_gmail_api_poll_watcher_def)
  with event_gmail_over [OF r this, of ri rg] p show
    "\<exists>f. snd (spawn_gmail_api_poll_watcher (pt_watcher p) source (Joined (Inl e'))) = Some f \<and> task_event ri rg True (Fatal (Some f))" by simp
qed

section \<open>The commands under test\<close>

lemma find_SomeD: "List.find P xs = Some x \<Longrightarrow> x \<in> set xs \<and> P x"
  by (induction xs) (auto split: if_splits)

lemma command_spec_in: "cc \<in> set (commands c) \<Longrightarrow> command_config_spec c cc \<in> set (runtime_command_specs c)"
  by (simp add: runtime_command_specs_def)

lemma mailbox_command_spec:
  assumes "mailbox_command c account mailbox = Inr (n, cmd, d)"
  shows "\<exists>s \<in> set (runtime_command_specs c). cs_name s = n \<and> cs_cmd s = cmd \<and> cs_timeout s = d"
proof (cases "Option.bind (List.find (\<lambda>a. ac_name a = account) (accounts c))
    (\<lambda>a. map_option (Pair a) (List.find (\<lambda>m. mb_name m = mailbox) (ac_mailboxes a)))")
  case (Some p)
  then obtain a m where am: "p = (a, m)" "a \<in> set (accounts c)" "m \<in> set (ac_mailboxes a)"
    by (auto simp: bind_eq_Some_conv dest!: find_SomeD)
  then have "mailbox_spec c a m \<in> set (runtime_command_specs c)" by (auto simp: runtime_command_specs_def)
  with assms Some am(1) show ?thesis by (intro bexI) (auto simp: mailbox_command_def mailbox_spec_def Let_def)
next
  case None
  with assms obtain cc where "cc \<in> set (commands c)" "n = cc_name cc" "cmd = cc_cmd cc" "d = cc_timeout cc c"
    by (auto simp: mailbox_command_def split: option.splits source_config.splits if_splits dest!: find_SomeD)
  then show ?thesis by (intro bexI [OF _ command_spec_in]) (auto simp: command_config_spec_def)
qed

lemma spec_names_distinct:
  assumes "config_ok c"
  shows "distinct (map cs_name (runtime_command_specs c))"
proof -
  have "map cs_name (runtime_command_specs c) = legacy_names c @ map cc_name (commands c)"
    by (simp add: runtime_command_specs_def map_concat o_def mailbox_spec_def command_config_spec_def legacy_names_def Let_def)
  with assms show ?thesis by (simp add: config_ok_def)
qed

lemma test_command_spec:
  assumes "configured_test_command c command account mailbox = Inr (n, cmd, d, policy)"
  shows "\<exists>s \<in> set (runtime_command_specs c). cs_name s = n \<and> cs_cmd s = cmd \<and> cs_timeout s = d \<and>
     policy = (if command = None then command_output_policy c else cs_policy s)"
proof (cases command)
  case None
  with assms obtain a m where "mailbox_command c a m = Inr (n, cmd, d)" "policy = command_output_policy c"
    by (auto simp: configured_test_command_def and_then_def split: option.splits sum.splits)
  with mailbox_command_spec None show ?thesis by fastforce
next
  case (Some k)
  with assms obtain cc where cc: "List.find (\<lambda>cc. cc_name cc = k) (commands c) = Some cc" "n = cc_name cc" "cmd = cc_cmd cc"
    "d = cc_timeout cc c" "policy = cc_output_policy cc c"
    by (auto simp: configured_test_command_def split: option.splits)
  with Some show ?thesis
    by (intro bexI [OF _ command_spec_in [of cc]]) (auto simp: command_config_spec_def dest: find_SomeD)
qed

text \<open>What is asked for: a command by name, or what a change of a mailbox would run.\<close>

definition test_target :: "config \<Rightarrow> string option \<Rightarrow> string option \<Rightarrow> string option \<Rightarrow> string \<Rightarrow> bool" where
  "test_target c command account mailbox n \<longleftrightarrow> (case (command, account, mailbox) of
     (Some k, None, None) \<Rightarrow> n = k
   | (None, Some a, Some m) \<Rightarrow>
       (n = legacy_source_name a m \<and> (\<exists>x \<in> set (accounts c). ac_name x = a \<and> m \<in> mb_name ` set (ac_mailboxes x))) \<or>
       (\<exists>s \<in> set (sources c). case s of ImapIdle i \<Rightarrow> ii_account i = a \<and> ii_mailbox i = m \<and> ii_on_event i = n | _ \<Rightarrow> False)
   | _ \<Rightarrow> False)"

lemma mailbox_command_asked:
  assumes "mailbox_command c a m = Inr (n, cmd, d)"
  shows "test_target c None (Some a) (Some m) n"
proof (cases "Option.bind (List.find (\<lambda>x. ac_name x = a) (accounts c))
    (\<lambda>x. map_option (Pair x) (List.find (\<lambda>y. mb_name y = m) (ac_mailboxes x)))")
  case (Some p)
  then obtain x y where "p = (x, y)" "x \<in> set (accounts c)" "y \<in> set (ac_mailboxes x)" "ac_name x = a" "mb_name y = m"
    by (auto simp: bind_eq_Some_conv dest!: find_SomeD)
  with assms Some show ?thesis by (auto simp: mailbox_command_def test_target_def)
next
  case None
  with assms show ?thesis
    by (fastforce simp: mailbox_command_def test_target_def split: option.splits source_config.splits if_splits dest!: find_SomeD)
qed

lemma test_command_target:
  assumes "configured_test_command c command account mailbox = Inr (n, cmd, d, policy)"
  shows "test_target c command account mailbox n"
proof (cases command)
  case None
  with assms obtain a m where "account = Some a" "mailbox = Some m" "mailbox_command c a m = Inr (n, cmd, d)"
    by (auto simp: configured_test_command_def and_then_def split: option.splits sum.splits)
  with mailbox_command_asked None show ?thesis by simp
next
  case (Some k)
  with assms show ?thesis
    by (auto simp: configured_test_command_def test_target_def split: option.splits dest!: find_SomeD)
qed

section \<open>Properties\<close>

text \<open>
  C12. Every run of the daemon: nothing is announced before every readiness channel has answered
  Ok, then READY, the status task and the startup broadcast are sent exactly once. It ends by a
  signal or a fatal message with the shutdown broadcast, STOPPING and the wait for the tasks, in
  that order, and otherwise with none of them.
\<close>

theorem daemon_run_sound:
  assumes "run_machine (daemon_step t) DaemonStart ins = Some (s, h)"
  shows "case s of
      DaemonStart \<Rightarrow> h = []
    | AwaitReady k \<Rightarrow> h = [] \<and> k + ready_answers ins = dk_receivers t
    | Serving \<Rightarrow> h = serving_effects t \<and> ready_answers ins = dk_receivers t
    | DaemonOver r \<Rightarrow> (\<exists>h0. (h0 = [] \<or> h0 = serving_effects t \<and> ready_answers ins = dk_receivers t) \<and>
        h = h0 @ (if asks_to_stop (last ins) then stop_effects t else []))"
proof (cases s)
  case (DaemonOver r)
  with daemon_run_inv [OF assms] obtain h0 js i where
    "ins = js @ [i]" "i \<noteq> Readiness (Some (Inr ()))" "served_first t js h0" "h = h0 @ (if asks_to_stop i then stop_effects t else [])" by auto
  then show ?thesis using DaemonOver by (auto simp: served_first_def)
qed (use daemon_run_inv [OF assms] in auto)

definition demo_daemon :: daemon_task where
  "demo_daemon = \<lparr>dk_receivers = 1, dk_total_sources = 1, dk_grace = secs 65\<rparr>"

lemma daemon_run_sound_witness:
  "\<exists>h0. (h0 = [] \<or> h0 = serving_effects demo_daemon \<and>
      ready_answers [Spawned, Readiness (Some (Inr ())), ShutdownSignal] = dk_receivers demo_daemon) \<and>
    serving_effects demo_daemon @ stop_effects demo_daemon = h0 @ stop_effects demo_daemon"
proof -
  have "run_machine (daemon_step demo_daemon) DaemonStart [Spawned, Readiness (Some (Inr ())), ShutdownSignal] =
    Some (DaemonOver (Inr ()), serving_effects demo_daemon @ stop_effects demo_daemon)"
    by (simp add: daemon_points demo_daemon_def)
  from daemon_run_sound [OF this] show ?thesis by (simp add: asks_to_stop_def)
qed

text \<open>
  C7. The exit code of every run that ends: 78 exactly if the observation it ends on was caused by a
  permanent authentication failure of an IMAP or Gmail task, by the task's readiness answer or by
  its supervisor's fatal message, whichever the \<open>select!\<close> takes; 0 exactly after a signal; 1 for
  everything else, a crashed task, a dropped readiness channel and the other sources' failures
  included.
\<close>

theorem exit_code_exact:
  assumes "run_machine (daemon_step t) DaemonStart (ins @ [i]) = Some (DaemonOver r, h)" "task_event ri rg auth i"
  shows "exit_code r = (if auth then 78 else if i = ShutdownSignal then 0 else 1)"
proof -
  obtain s os where "daemon_step t s i = Some (DaemonOver r, os)" using assms(1) by (auto simp: run_snoc)
  from daemon_end [OF this] task_event_code [OF assms(2)] show ?thesis by simp
qed

text \<open>A server that rejects the login.\<close>

definition rejecting_net :: net_script where
  "rejecting_net = \<lparr>ns_tcp = NetOk, ns_tls_builder = NetOk, ns_tls = NetOk, ns_exec = \<lambda>_. None\<rparr>"

definition rejecting_conn :: conn where
  "rejecting_conn = demo_conn\<lparr>cn_in := ''* OK hi'' @ CR # LF # ''A0001 NO'' @ CR # LF # []\<rparr>"

lemma rejecting_lines:
  assumes "cn_in c = cn_in rejecting_conn"
  shows "read_line c = (Value ''* OK hi'', c\<lparr>cn_in := ''A0001 NO'' @ CR # LF # []\<rparr>)"
    "cn_in d = ''A0001 NO'' @ CR # LF # [] \<Longrightarrow> read_line d = (Value ''A0001 NO'', d\<lparr>cn_in := []\<rparr>)"
proof -
  note eval = MAX_RESPONSE_LINE_BYTES_def utf8_valid_step utf8_follow_def utf8_width_def byte_in_def
    CR_def LF_def trim_line_def trim_end_crlf_def is_crlf_def
  have "cn_in c = (''* OK hi'' @ [CR]) @ LF # ''A0001 NO'' @ CR # LF # []" by (simp add: assms rejecting_conn_def)
  from read_line_line [OF _ _ _ this] show "read_line c = (Value ''* OK hi'', c\<lparr>cn_in := ''A0001 NO'' @ CR # LF # []\<rparr>)"
    by (simp add: eval)
  assume "cn_in d = ''A0001 NO'' @ CR # LF # []"
  then have "cn_in d = (''A0001 NO'' @ [CR]) @ LF # []" by simp
  from read_line_line [OF _ _ _ this] show "read_line d = (Value ''A0001 NO'', d\<lparr>cn_in := []\<rparr>)"
    by (simp add: eval)
qed

lemma rejecting_no: "is_tagged_completion ''A0001 NO'' ''A0001''" "\<not> is_tagged_ok ''A0001 NO'' ''A0001''"
  by (simp_all add: is_tagged_completion_def is_tagged_ok_def tagged_rest_def first_word_def trim_start.simps [of "''NO''"] strip_ws_char_def
      ascii_ws_def ws_pair_def ws_triple_def first_word_from.simps to_ascii_uppercase_def upper_char_def Let_def)

lemma rejected_login:
  assumes "cn_in c = ''A0001 NO'' @ CR # LF # []" "cn_tag c = 0" "cn_writes c = 9"
  shows "\<exists>c'. authenticate base64 ''u'' (PasswordCredentials (Secret ''pw'')) c = (Raised AuthRejected, c')"
proof -
  let ?c = "c\<lparr>cn_tag := Suc 0, cn_writes := 8, cn_out := cn_out c @ [login_command (tag_text (Suc 0)) ''u'' ''pw'']\<rparr>"
  have "wait_tagged (tag_text (Suc 0)) ''LOGIN'' ?c = (Raised (CommandRejected ''LOGIN''), ?c\<lparr>cn_in := []\<rparr>)"
    by (subst wait_tagged.simps) (simp add: rejecting_lines assms demo_tag rejecting_no)
  moreover have "no_crlf ''u''" "no_crlf ''pw''" by (simp_all add: literal_no_crlf)
  ultimately show ?thesis using assms
    by (simp add: authenticate_password_def io_bind_def io_of_result_def io_return_def validate_imap_string_def
        take_tag_def next_tag_def write_raw_def login_rejected_def)
qed

lemma rejected_handshake: "\<exists>c'. run_mailbox_handshake demo_task rejecting_net rejecting_conn = (Raised AuthRejected, c')"
proof -
  have "no_crlf ''u''" "no_crlf ''INBOX''" by (simp_all add: literal_no_crlf)
  moreover obtain c' where "authenticate (\<lambda>_. []) ''u'' (PasswordCredentials (Secret ''pw''))
      (rejecting_conn\<lparr>cn_in := ''A0001 NO'' @ CR # LF # []\<rparr>) = (Raised AuthRejected, c')"
    using rejected_login [of "rejecting_conn\<lparr>cn_in := ''A0001 NO'' @ CR # LF # []\<rparr>"] by (auto simp: rejecting_conn_def demo_conn_def)
  ultimately show ?thesis
    by (simp add: run_mailbox_handshake_def demo_task_def demo_account_def rejecting_net_def connect_def io_bind_def
        io_of_result_def io_return_def validate_imap_string_def with_imap_timeout_def read_greeting_def rejecting_lines
        to_ascii_uppercase_def upper_char_def starts_with_def io_credentials_def credentials_for_def Let_def)
qed

lemma rejected_watcher:
  "\<exists>s h. run_machine (watch_step demo_task) (watch_init True) [(LoopTop False, 0), (Handshake rejecting_net rejecting_conn, 0)] = Some (s, h) \<and>
     ImReady (Inl AuthRejected) \<in> set h"
proof -
  obtain c' where "run_mailbox_handshake demo_task rejecting_net rejecting_conn = (Raised AuthRejected, c')"
    using rejected_handshake by blast
  moreover have "fresh_conn rejecting_conn = rejecting_conn" by (simp add: fresh_conn_def rejecting_conn_def demo_conn_def)
  ultimately show ?thesis by (simp add: watch_step.simps watch_init_def after_session_def Let_def)
qed

lemma exit_code_exact_witness:
  "\<exists>i r h. task_event (\<lambda>_. ''rejected'') (\<lambda>_. []) True i \<and>
     run_machine (daemon_step demo_daemon) DaemonStart ([Spawned] @ [i]) = Some (DaemonOver r, h) \<and> exit_code r = 78"
proof -
  let ?i = "Readiness (Some (Inl (ready_text (ImapNotReady ''rejected''))))"
  from rejected_watcher obtain s h where
    "run_machine (watch_step demo_task) (watch_init True) [(LoopTop False, 0), (Handshake rejecting_net rejecting_conn, 0)] = Some (s, h)"
    "ImReady (Inl AuthRejected) \<in> set h" by blast
  from event_imap_not_ready [OF this, of "\<lambda>_. ''rejected''" "\<lambda>_. []"]
  have event: "task_event (\<lambda>_. ''rejected'') (\<lambda>_. []) True ?i" by (simp del: ready_text.simps)
  have run: "run_machine (daemon_step demo_daemon) DaemonStart ([Spawned] @ [?i]) = Some (DaemonOver (end_on ?i), [])"
    by (simp add: daemon_points demo_daemon_def)
  from exit_code_exact [OF run event] run event show ?thesis by (simp del: ready_text.simps) blast
qed

text \<open>
  A failed readiness answer ends the daemon with no shutdown broadcast, no STOPPING and no wait,
  whatever the other tasks are running.
\<close>

lemma readiness_failure_skips_shutdown:
  "0 < dk_receivers t \<Longrightarrow>
     run_machine (daemon_step t) DaemonStart [Spawned, Readiness (Some (Inl e))] = Some (DaemonOver (Inl (ready_failure e)), [])"
  by (simp add: await_next_def)

lemma shutdown_wait:
  "await_task_shutdown grace now handles = (ends, joined) \<Longrightarrow>
     now \<le> ends \<and> ends \<le> now + of_nat (length handles) * grace \<and> length joined = length handles \<and>
     list_all2 (\<lambda>h j. case h of None \<Rightarrow> \<not> j | Some e \<Rightarrow> (e \<le> now + grace \<longrightarrow> j) \<and> (j \<longrightarrow> e \<le> ends)) handles joined"
proof (induction handles arbitrary: now ends joined)
  case (Cons h hs)
  let ?ok = "\<lambda>now ends h j. case h of None \<Rightarrow> \<not> j | Some e \<Rightarrow> (e \<le> now + grace \<longrightarrow> j) \<and> (j \<longrightarrow> e \<le> ends)"
  obtain next_now j js where step: "await_task_shutdown grace next_now hs = (ends, js)" "joined = j # js"
    "now \<le> next_now" "next_now \<le> now + grace" "?ok now next_now h j"
  proof (cases h)
    case (Some e)
    with Cons.prems that show ?thesis
      by (cases "e \<le> now + grace") (auto simp: apsnd_def map_prod_def split: prod.splits)
  next
    case None
    with Cons.prems obtain js where "await_task_shutdown grace (now + grace) hs = (ends, js)" "joined = False # js"
      by (auto simp: apsnd_def map_prod_def split: prod.splits)
    with None that [of "now + grace" js False] show ?thesis by simp
  qed
  note rest = Cons.IH [OF step(1)]
  have "list_all2 (?ok now ends) hs js"
    using rest step(3) by (elim conjE list_all2_mono) (auto split: option.splits)
  moreover have "?ok now ends h j" using step(5) rest by (auto split: option.splits)
  ultimately show ?case using rest step by (simp add: algebra_simps)
qed simp

text \<open>
  Shutdown waits at most the grace period once per task, so it always ends; every task that
  ends within the grace period of the shutdown's start is joined, a task that never ends is not,
  and no joined task ends after the return. The bound is reached when no task ends.
\<close>

lemma shutdown_wait_bounded:
  "let (ends, joined) = await_task_shutdown grace now handles in
     now \<le> ends \<and> ends \<le> now + length handles * grace \<and>
     list_all2 (\<lambda>h j. case h of None \<Rightarrow> \<not> j | Some e \<Rightarrow> if j then e \<le> ends else now + grace < e) handles joined \<and>
     await_task_shutdown grace now (replicate n None) = (now + n * grace, replicate n False)"
proof -
  obtain ends joined where r: "await_task_shutdown grace now handles = (ends, joined)" by fastforce
  have "await_task_shutdown grace now (replicate n None) = (now + n * grace, replicate n False)" for now
    by (induction n arbitrary: now) (simp_all add: algebra_simps)
  moreover have "list_all2 (\<lambda>h j. case h of None \<Rightarrow> \<not> j | Some e \<Rightarrow> if j then e \<le> ends else now + grace < e) handles joined"
    using shutdown_wait [OF r] by (elim conjE list_all2_mono) (auto split: option.splits)
  ultimately show ?thesis using shutdown_wait [OF r] by (simp add: r)
qed

text \<open>
  C39. \<^verbatim>\<open>test-command\<close> runs the command that was asked for: the one named by \<^verbatim>\<open>--command\<close>, or the one
  a change of the mailbox named by \<^verbatim>\<open>--account\<close> and \<^verbatim>\<open>--mailbox\<close> would run. It is the one command the
  daemon runs under that name, with the same shell text and timeout. Chosen by \<^verbatim>\<open>--command\<close> it has
  the command's output policy; chosen by account and mailbox it has the global one, whatever the
  command's own settings.
\<close>

theorem test_command_is_the_daemons:
  assumes "validate c = Inr ()" "configured_test_command c command account mailbox = Inr (n, cmd, d, policy)"
  shows "test_target c command account mailbox n \<and>
    (\<exists>s. filter (\<lambda>s. cs_name s = n) (runtime_command_specs c) = [s] \<and> cs_cmd s = cmd \<and> cs_timeout s = d \<and>
       policy = (if command = None then command_output_policy c else cs_policy s))"
proof
  from assms(1) have "distinct (map cs_name (runtime_command_specs c))" by (simp add: validate_iff spec_names_distinct)
  moreover from test_command_spec [OF assms(2)] obtain s where s: "s \<in> set (runtime_command_specs c)" "cs_name s = n"
    "cs_cmd s = cmd" "cs_timeout s = d" "policy = (if command = None then command_output_policy c else cs_policy s)" by blast
  moreover have "filter (\<lambda>s'. cs_name s' = cs_name s) ss = [s]" if "distinct (map cs_name ss)" "s \<in> set ss" for ss
    using that by (induction ss) (auto simp: filter_empty_conv image_iff)
  ultimately show "\<exists>s. filter (\<lambda>s. cs_name s = n) (runtime_command_specs c) = [s] \<and> cs_cmd s = cmd \<and> cs_timeout s = d \<and>
       policy = (if command = None then command_output_policy c else cs_policy s)" by blast
qed (rule test_command_target [OF assms(2)])

text \<open>A silent command, run by an IMAP source.\<close>

definition quiet_config :: config where
  "quiet_config = demo_config\<lparr>commands := [demo_command\<lparr>cc_output_mode := Some Silent\<rparr>],
     sources := [ImapIdle \<lparr>ii_name = ''s'', ii_account = ''a'', ii_mailbox = ''Sent'', ii_on_event = ''c'',
       ii_run_on_startup = False, ii_debounce_seconds = None\<rparr>]\<rparr>"

lemma quiet_config_ok: "config_ok quiet_config"
proof -
  have nb: "\<not> blank (c # s)" if "\<not> ascii_ws c" "of_char c < (128::nat)" for c s
    by (rule not_blank_ascii [OF that])
  have "command_ok (demo_command\<lparr>cc_output_mode := Some Silent\<rparr>)"
    by (simp add: command_ok_def demo_command_def opt_ok_def nb ascii_ws_def)
  moreover have "globals_ok quiet_config" "list_all account_ok (accounts quiet_config)"
    using demo_config_ok
    by (simp_all add: quiet_config_def config_ok_def globals_ok_def source_count_def mailbox_count_def demo_config_def
        idle_refresh_def config_watcher_stale_def)
  ultimately show ?thesis
    by (simp add: config_ok_def quiet_config_def demo_config_def demo_account_def legacy_names_def legacy_source_name_def
        demo_command_def no_crlf_def opt_ok_def nb ascii_ws_def CR_def LF_def)
qed

lemma quiet_test:
  "configured_test_command quiet_config None (Some ''a'') (Some ''Sent'') =
     Inr (''c'', ''true'', config_command_timeout quiet_config, command_output_policy quiet_config)"
  by (simp add: configured_test_command_def mailbox_command_def quiet_config_def demo_config_def demo_account_def
      demo_command_def cc_timeout_def config_command_timeout_def)

lemma test_command_is_the_daemons_witness:
  "test_target quiet_config None (Some ''a'') (Some ''Sent'') ''c'' \<and> (\<exists>s. filter (\<lambda>s. cs_name s = ''c'') (runtime_command_specs quiet_config) = [s] \<and> cs_cmd s = ''true'')"
proof -
  have "validate quiet_config = Inr ()" using quiet_config_ok by (simp add: validate_iff)
  from test_command_is_the_daemons [OF this quiet_test] show ?thesis by blast
qed

text \<open>The daemon never logs the output of this command; a failing \<^verbatim>\<open>test-command\<close> logs its tail.\<close>

lemma mailbox_test_ignores_policy:
  "validate quiet_config = Inr () \<and>
   configured_test_command quiet_config None (Some ''a'') (Some ''Sent'') =
     Inr (''c'', ''true'', config_command_timeout quiet_config, command_output_policy quiet_config) \<and>
   op_mode (command_output_policy quiet_config) = FailureTail \<and>
   list_all (\<lambda>s. cs_name s = ''c'' \<longrightarrow> op_mode (cs_policy s) = Silent) (runtime_command_specs quiet_config)"
proof (intro conjI)
  show "validate quiet_config = Inr ()" using quiet_config_ok by (simp add: validate_iff)
qed (use quiet_test in \<open>simp_all add: runtime_command_specs_def quiet_config_def demo_config_def demo_account_def demo_command_def
      mailbox_spec_def command_config_spec_def cc_output_policy_def command_output_policy_def
      default_command_output_mode_def option_or_def unwrap_or_def legacy_source_name_def Let_def\<close>)

text \<open>The startup event is queued at most once, and only after the startup flag was seen set.\<close>

lemma startup_event_once:
  "run_machine startup_step StartupTop ins = Some (s, h) \<Longrightarrow>
     h = [] \<or> (\<exists>r js. ins = js @ [StartupFlag True r] \<and> h = [r])"
proof (induction ins arbitrary: s h rule: rev_induct)
  case (snoc i ins)
  then obtain s1 h1 os where r: "run_machine startup_step StartupTop ins = Some (s1, h1)"
    "startup_step s1 i = Some (s, os)" "h = h1 @ os"
    by (auto simp: run_append split: option.splits)
  have over: "h' = [] \<or> s' = StartupOver" if "run_machine startup_step StartupTop js = Some (s', h')" for js s' h'
    using that
  proof (induction js arbitrary: s' h' rule: rev_induct)
    case (snoc j js)
    then obtain s2 h2 os2 where "run_machine startup_step StartupTop js = Some (s2, h2)"
      "startup_step s2 j = Some (s', os2)" "h' = h2 @ os2"
      by (auto simp: run_append split: option.splits)
    with snoc.IH [of s2 h2] show ?case by (cases s2) (auto elim: startup_step.elims)
  qed simp
  from r over [OF r(1)] show ?case by (auto elim!: startup_step.elims)
qed simp

text \<open>A tilde path lies under the home directory, unless what follows the tilde is absolute itself.\<close>

lemma expand_tilde_home:
  assumes "h \<noteq> []" "List.last h \<noteq> CHR ''/''"
  shows "expand_tilde (Some h) True (''~/'' @ rest) = (if starts_with ''/'' rest then rest else h @ ''/'' @ rest)"
  using assms by (simp add: expand_tilde_def path_push_def path_join_def)

end
