(* ===== verification/Command_Line.thy ===== *)
theory Command_Line
  imports Daemon_Run
begin

text \<open>
  The command line of \<^verbatim>\<open>src/src/main.rs\<close>: the options and subcommands, the constraints their
  attributes declare, the dispatch of \<open>run\<close> and the exit code of \<open>main\<close>. The parser itself
  (\<^verbatim>\<open>clap\<close>) rejects an invocation that violates a declared constraint.
\<close>

section \<open>Arguments\<close>

datatype subcommand =
  CheckConfig
| TestCommand "string option" "string option" "string option"

record cli =
  cl_config :: "string option"
  cl_no_systemd :: bool
  cl_initial_connect_required :: bool
  cl_command :: "subcommand option"

text \<open>
  The attributes of \<open>test-command\<close>: a required group of \<open>command\<close> and \<open>account\<close>, of which one
  member may be present; \<open>command\<close> conflicts with the other two, which require each other.
\<close>

definition target_group :: "string option \<Rightarrow> string option \<Rightarrow> bool" where
  "target_group command account \<longleftrightarrow> (command \<noteq> None) \<noteq> (account \<noteq> None)"

definition target_conflicts :: "string option \<Rightarrow> string option \<Rightarrow> string option \<Rightarrow> bool" where
  "target_conflicts command account mailbox \<longleftrightarrow> command \<noteq> None \<and> (account \<noteq> None \<or> mailbox \<noteq> None)"

definition target_requirements :: "string option \<Rightarrow> string option \<Rightarrow> bool" where
  "target_requirements account mailbox \<longleftrightarrow> (if account = None then mailbox = None else mailbox \<noteq> None)"

fun cli_accepts :: "subcommand option \<Rightarrow> bool" where
  "cli_accepts (Some (TestCommand command account mailbox)) \<longleftrightarrow>
     target_group command account \<and> \<not> target_conflicts command account mailbox \<and> target_requirements account mailbox"
| "cli_accepts _ \<longleftrightarrow> True"

section \<open>Dispatch\<close>

text \<open>
  What the program finds around it: \<^verbatim>\<open>HOME\<close>, the file system and the TOML decoder, the host, the
  shell and the time a test run takes. A path is text unless it is not valid Unicode.
\<close>

record surroundings =
  su_home :: "string option"
  su_path_is_text :: bool
  su_decode :: "string \<Rightarrow> (nat option, config) result"
  su_read :: "string \<Rightarrow> string option"
  su_host :: host
  su_exec :: shell_exec
  su_took :: duration

definition cli_path :: "surroundings \<Rightarrow> cli \<Rightarrow> string" where
  "cli_path w cl = resolve_config_path (su_home w) (su_path_is_text w) (cl_config cl)"

definition cli_load :: "surroundings \<Rightarrow> cli \<Rightarrow> (config_error, config) result" where
  "cli_load w cl = config_load (su_decode w) (su_read w) (cli_path w cl)"

datatype cli_run =
  Checked "(daemon_failure, nat \<times> nat \<times> nat \<times> nat) result"
| Tested "(daemon_failure, unit) result option"
| DaemonStarted bool "(daemon_failure, rt_op list \<times> task_plan list \<times> daemon_task) result"

text \<open>\<open>run\<close>; the flag of the daemon is \<open>systemd_enabled\<close>.\<close>

definition run_cli :: "surroundings \<Rightarrow> cli \<Rightarrow> cli_run" where
  "run_cli w cl = (case cl_command cl of
     Some CheckConfig \<Rightarrow> Checked (check_config (cli_load w cl) (su_host w))
   | Some (TestCommand command account mailbox) \<Rightarrow>
       Tested (test_command (cli_load w cl) (su_exec w) (su_took w) command account mailbox)
   | None \<Rightarrow> DaemonStarted (\<not> cl_no_systemd cl) (start_daemon (cli_load w cl) (su_host w) (cl_initial_connect_required cl)))"

text \<open>The exit code of a run that is over; a daemon that started is not over.\<close>

fun cli_exit_code :: "cli_run \<Rightarrow> int option" where
  "cli_exit_code (Checked r) = Some (exit_code r)"
| "cli_exit_code (Tested r) = map_option exit_code r"
| "cli_exit_code (DaemonStarted systemd (Inl e)) = Some (exit_code (Inl e :: (daemon_failure, unit) result))"
| "cli_exit_code (DaemonStarted systemd (Inr started)) = None"

section \<open>Lemmas\<close>

lemma cli_accepts_target:
  "cli_accepts (Some (TestCommand command account mailbox)) \<longleftrightarrow>
     (\<exists>n. (command, account, mailbox) = (Some n, None, None)) \<or> (\<exists>a m. (command, account, mailbox) = (None, Some a, Some m))"
  by (cases command; cases account; cases mailbox)
     (auto simp: target_group_def target_conflicts_def target_requirements_def)

lemma mailbox_command_target: "mailbox_command c a m \<noteq> Inl TestTargetInvalid"
  by (auto simp: mailbox_command_def split: option.splits source_config.splits)

lemma test_target_valid:
  "cli_accepts (Some (TestCommand command account mailbox)) \<longleftrightarrow>
     configured_test_command c command account mailbox \<noteq> Inl TestTargetInvalid"
  unfolding cli_accepts_target using mailbox_command_target [of c]
  by (cases command; cases account; cases mailbox)
     (auto simp: configured_test_command_def and_then_def split: option.splits sum.splits)

text \<open>Only the daemon's authentication failures have a code of their own.\<close>

fun is_coded :: "daemon_failure \<Rightarrow> bool" where
  "is_coded (Coded e) \<longleftrightarrow> True"
| "is_coded _ \<longleftrightarrow> False"

lemma uncoded_exit: "\<not> is_coded e \<Longrightarrow> exit_code (Inl e) = 1"
  by (cases e) auto

lemma mailbox_command_uncoded: "mailbox_command c a m = Inl e \<Longrightarrow> \<not> is_coded e"
  by (auto simp: mailbox_command_def split: option.splits source_config.splits if_splits)

lemma configured_test_uncoded: "configured_test_command c n a m = Inl e \<Longrightarrow> \<not> is_coded e"
  using mailbox_command_uncoded
  by (auto simp: configured_test_command_def and_then_def split: sum.splits option.splits)

lemma test_result_uncoded:
  "(case r of Inl e \<Rightarrow> Inl (TestCommandError e)
     | Inr oc \<Rightarrow> if success oc then Inr () else Inl (TestCommandFailed (outcome_description oc))) = Inl f \<Longrightarrow> \<not> is_coded f"
  by (cases r) (auto split: if_splits)

lemma test_command_uncoded:
  assumes "test_command loaded exec took n a m = Some (Inl f)"
  shows "\<not> is_coded f"
proof (cases loaded)
  case (Inr c)
  show ?thesis
  proof (cases "configured_test_command c n a m")
    case (Inl e)
    with assms Inr configured_test_uncoded show ?thesis by (auto simp: test_command_def)
  next
    case (Inr found)
    obtain k cmd d policy where "found = (k, cmd, d, policy)" by (cases found) auto
    with assms Inr \<open>loaded = Inr c\<close> show ?thesis by (auto simp: test_command_def dest: test_result_uncoded)
  qed
qed (use assms in \<open>auto simp: test_command_def\<close>)

lemma check_config_uncoded: "check_config loaded h = Inl e \<Longrightarrow> \<not> is_coded e"
  by (auto simp: check_config_def split: sum.splits)

lemma start_daemon_uncoded: "start_daemon loaded h b = Inl e \<Longrightarrow> \<not> is_coded e"
  by (auto simp: start_daemon_def split: sum.splits prod.splits)

lemma cli_exit_codes: "cli_exit_code (run_cli w cl) \<in> {None, Some 0, Some 1}"
proof -
  have code: "exit_code r \<in> {0, 1}" if "\<And>e. r = Inl e \<Longrightarrow> \<not> is_coded e" for r :: "(daemon_failure, 'z) result"
    using that uncoded_exit by (cases r) auto
  show ?thesis
  proof (cases "cl_command cl")
    case None
    show ?thesis
    proof (cases "start_daemon (cli_load w cl) (su_host w) (cl_initial_connect_required cl)")
      case (Inl e)
      from start_daemon_uncoded [OF this] Inl None show ?thesis by (simp add: run_cli_def uncoded_exit)
    qed (use None in \<open>simp add: run_cli_def\<close>)
  next
    case (Some sub)
    show ?thesis
    proof (cases sub)
      case CheckConfig
      with Some code [of "check_config (cli_load w cl) (su_host w)"] check_config_uncoded show ?thesis
        by (simp add: run_cli_def)
    next
      case (TestCommand n a m)
      show ?thesis
      proof (cases "test_command (cli_load w cl) (su_exec w) (su_took w) n a m")
        case (Some r)
        with code [of r] test_command_uncoded [of "cli_load w cl" "su_exec w" "su_took w" n a m]
          \<open>cl_command cl = Some sub\<close> TestCommand show ?thesis by (simp add: run_cli_def)
      qed (use \<open>cl_command cl = Some sub\<close> TestCommand in \<open>simp add: run_cli_def\<close>)
    qed
  qed
qed

section \<open>Property\<close>

text \<open>
  C40. The command line and its handlers agree: the declared constraints accept a target of
  \<^verbatim>\<open>test-command\<close> exactly if its handler has a case for it, so an accepted invocation never ends in
  the handler's catch-all error; and a subcommand, or a daemon that fails to start, exits with 0 or
  1, as exit code 78 is left to authentication failures of a running daemon.
\<close>

theorem cli_agrees_with_handlers:
  "cli_accepts (Some (TestCommand command account mailbox)) =
     (configured_test_command c command account mailbox \<noteq> Inl TestTargetInvalid) \<and>
   cli_exit_code (run_cli w cl) \<in> {None, Some 0, Some 1}"
  using test_target_valid cli_exit_codes by blast

end
