(* ===== verification/Task_Reports.thy ===== *)
theory Task_Reports
  imports Daemon_Run
begin

text \<open>
  What the tasks of a configuration can report to the shared runtime state of
  \<^verbatim>\<open>src/src/state.rs\<close>. The contract \<open>reporting_task\<close> says that a task's reports concern its own
  watcher or lane only; every machine of the library is an instance. The state that all tasks
  share then keeps one entry for every source and lane of the configuration, and no others.
\<close>

section \<open>Reports of one task\<close>

definition reports_on :: "string set \<Rightarrow> string set \<Rightarrow> rt_op \<Rightarrow> bool" where
  "reports_on W R op \<longleftrightarrow> op_watcher op \<subseteq> W \<and> op_runner op \<subseteq> R"

lemma reports_on_simps [simp]:
  "reports_on W R (OpMarkWatcher i ph) \<longleftrightarrow> i \<in> W"
  "reports_on W R (OpWatcherProgress i)"
  "reports_on W R (OpMarkRunner i rph) \<longleftrightarrow> i \<in> R"
  "reports_on W R (OpCommandStarted i) \<longleftrightarrow> i \<in> R"
  "reports_on W R (OpCommandFinished i oc) \<longleftrightarrow> i \<in> R"
  "reports_on W R OpEvent"
  "reports_on W R (OpCommandOutcome oc)"
  "reports_on W R OpCommandError"
  by (simp_all add: reports_on_def)

definition reported :: "('o \<Rightarrow> rt_op option) \<Rightarrow> 'o list \<Rightarrow> rt_op list" where
  "reported report os = List.map_filter report os"

lemma reported_simps [simp]:
  "reported report [] = []"
  "reported report (x # os) = (case report x of None \<Rightarrow> [] | Some op \<Rightarrow> [op]) @ reported report os"
  "reported report (os @ os') = reported report os @ reported report os'"
  by (simp_all add: reported_def List.map_filter_def split: option.split)

lemma reported_map: "\<forall>x. report (f x) = None \<Longrightarrow> reported report (map f xs) = []"
  by (induction xs) auto

lemma reported_repeat: "list_all P (reported report os) \<Longrightarrow> list_all P (reported report (concat (replicate n os)))"
  by (induction n) auto

locale reporting_task =
  fixes step :: "('s, 'i, 'o) machine"
    and report :: "'o \<Rightarrow> rt_op option"
    and W :: "string set" and R :: "string set"
  assumes step_reports: "step s i = Some (s', os) \<Longrightarrow> list_all (reports_on W R) (reported report os)"
begin

lemma run_reports: "run_machine step s ins = Some (s', h) \<Longrightarrow> list_all (reports_on W R) (reported report h)"
proof (induction ins arbitrary: s h)
  case (Cons i ins)
  then show ?case using step_reports by (fastforce split: option.splits)
qed simp

lemma run_report: "run_machine step s ins = Some (s', h) \<Longrightarrow> op \<in> set (reported report h) \<Longrightarrow> reports_on W R op"
  using run_reports by (fastforce simp: list_all_iff)

end

section \<open>The tasks\<close>

fun lane_report :: "lane_output \<Rightarrow> rt_op option" where
  "lane_report (LMark op t) = Some op"
| "lane_report _ = None"

fun debounce_report :: "debounce_output \<Rightarrow> rt_op option" where
  "debounce_report (DMark op) = Some op"
| "debounce_report _ = None"

fun imap_report :: "imap_output \<Rightarrow> rt_op option" where
  "imap_report (ImMark op) = Some op"
| "imap_report _ = None"

fun poll_report :: "poll_output \<Rightarrow> rt_op option" where
  "poll_report (GmMark op) = Some op"
| "poll_report _ = None"

fun fs_report :: "fs_output \<Rightarrow> rt_op option" where
  "fs_report (FoMark op) = Some op"
| "fs_report _ = None"

fun fs_watch_report :: "fs_watch_output \<Rightarrow> rt_op option" where
  "fs_watch_report (FwMark op) = Some op"
| "fs_watch_report (FwOut x) = fs_report x"
| "fs_watch_report _ = None"

fun resume_report :: "resume_output \<Rightarrow> rt_op option" where
  "resume_report (RoMark op) = Some op"
| "resume_report _ = None"

fun listener_report :: "listener_output \<Rightarrow> rt_op option" where
  "listener_report (LiMark op) = Some op"
| "listener_report _ = None"

lemma lane_part_reports:
  "reports_on W R op \<Longrightarrow> list_all (reports_on W R) (reported lane_report (lane_mark l op now))"
  "reported lane_report (start_waiters ws) = []" "reported lane_report (finish_waiters ws report) = []"
  "reported lane_report (cancel_pending p) = []"
proof -
  show finish: "reported lane_report (finish_waiters ws report) = []" for ws report
    by (simp add: finish_waiters_def reported_map)
  have "reported lane_report (concat (map (\<lambda>(c, ws). finish_waiters ws ReportCancelled) xs)) = []" for xs :: "(string \<times> waiter list) list"
    by (induction xs) (auto simp: finish)
  then show "reported lane_report (cancel_pending p) = []" by (simp add: cancel_pending_def)
qed (simp_all add: lane_mark_def start_waiters_def reported_map)

lemma begin_run_reports: "list_all (reports_on {} {ln_lane l}) (reported lane_report (snd (begin_run l cmd ws now s)))"
  by (simp add: begin_run_def lane_part_reports)

lemma record_report_reports: "list_all (reports_on {} {ln_lane l}) (reported lane_report (record_report l report now))"
  by (simp add: record_report_def lane_part_reports split: command_run_report.split)

lemma dispatch_reports: "list_all (reports_on {} {ln_lane l}) (reported lane_report (snd (dispatch l now s)))"
proof (induction l now s rule: dispatch.induct)
  case (1 l now s)
  obtain name p where pop: "pop_next_command (l_pending s) = (name, p)" by fastforce
  show ?case
  proof (cases name)
    case (Some n)
    obtain ws p' where take: "take_waiters n p = (ws, p')" by fastforce
    with 1 pop Some begin_run_reports show ?thesis
      by (simp add: dispatch.simps [of l now s] lane_part_reports
case_prod_beta
          split: option.split interval_wait.split)
  qed (simp add: dispatch.simps [of l now s] pop)
qed

lemma dispatch_reported:
  "dispatch l now s = (s', os) \<Longrightarrow> list_all (reports_on {} {ln_lane l}) (reported lane_report os)"
  using dispatch_reports [of l now s] by simp

interpretation lane_reports: reporting_task "lane_step l" lane_report "{}" "{ln_lane l}"
  for l
proof
  fix s i s' os
  assume step: "lane_step l s i = Some (s', os)"
  have snd_eq: "r = (s', os) \<Longrightarrow> os = snd r" for r by simp
  show "list_all (reports_on {} {ln_lane l}) (reported lane_report os)"
    using step
    by (cases "l_pc s"; cases i)
       (auto simp: lane_step.simps lane_stop_def lane_part_reports begin_run_reports record_report_reports dispatch_reports dispatch_reported Let_def
         dest!: snd_eq split: option.splits if_splits prod.splits)
qed

interpretation heartbeat_reports: reporting_task "heartbeat_step interval watcher" Some "{}" "{}"
  for interval watcher
proof
  show "heartbeat_step interval watcher s i = Some (s', os) \<Longrightarrow> list_all (reports_on {} {}) (reported Some os)" for s i s' os
    by (cases "(interval, watcher, s, i)" rule: heartbeat_step.cases) (auto split: if_splits)
qed

interpretation listener_reports: reporting_task "listener_step t" listener_report "{rw_watcher t}" "{}"
  for t
proof
  show "listener_step t s i = Some (s', os) \<Longrightarrow> list_all (reports_on {rw_watcher t} {}) (reported listener_report os)" for s i s' os
    by (cases "(t, s, i)" rule: listener_step.cases)
       (auto simp: listener_event_def watch_system_resume_forever_def listener_mark_def report_system_resume_setup_error_def
         Let_def split: setup_result.splits sum.splits option.splits if_splits)
qed

lemma resume_marks [simp]:
  "list_all (reports_on W R) (reported resume_report (resume_mark_event cfg now))"
  "list_all (reports_on W R) (reported resume_report (resume_drain_events cfg n now))"
  by (simp_all add: resume_mark_event_def resume_drain_events_def reported_repeat)

lemma wait_for_quiet_reports:
  "wait_for_quiet cfg now u i = Some (pc, os) \<Longrightarrow> list_all (reports_on W R) (reported resume_report os)"
  by (cases "(cfg, now, u, i)" rule: wait_for_quiet.cases) (auto simp: resume_submit_def split: if_splits)

interpretation resume_reports: reporting_task "resume_step cfg" resume_report "{}" "{}"
  for cfg
proof
  fix s i s' os
  assume step: "resume_step cfg s i = Some (s', os)"
  obtain j now where i: "i = (j, now)" by fastforce
  show "list_all (reports_on {} {}) (reported resume_report os)"
  proof (cases s)
    case (RQuiet u)
    with step i wait_for_quiet_reports show ?thesis by simp
  qed (use step i in \<open>auto simp: resume_submit_def split: resume_input.splits option.splits\<close>)
qed

lemma debounce_marks [simp]:
  "list_all (reports_on W R) (reported debounce_report (db_mark_event cfg now))"
  "list_all (reports_on W R) (reported debounce_report (drain_events cfg n now))"
  by (simp_all add: db_mark_event_def drain_events_def reported_repeat)

lemma run_once_reports:
  "run_once pc now i = Some (RunReturns b os) \<Longrightarrow> list_all (reports_on W R) (reported debounce_report os)"
  by (cases "(pc, now, i)" rule: run_once.cases) auto

interpretation debounce_reports: reporting_task "debounce_step cfg" debounce_report "{}" "{}"
  for cfg
proof
  fix s i s' os
  assume step: "debounce_step cfg s i = Some (s', os)"
  obtain j now where i: "i = (j, now)" by fastforce
  have at: "debounce_at cfg now (s\<lparr>d_clock := now\<rparr>) j = Some (s', os)" using step i by (simp split: if_splits)
  note once = run_once_reports [of "d_pc s" now j _ os "{}" "{}"]
  show "list_all (reports_on {} {}) (reported debounce_report os)"
    using at once
    by (cases "d_pc s")
       (auto simp: debounce_at.simps submit_def split: debounce_input.splits option.splits run_once_step.splits bool.splits)
qed

lemma fs_marks [simp]:
  "list_all (reports_on W R) (reported fs_report (record_event cfg now suppressed))"
  "reported fs_report (send_initial_ready s) = []"
  by (simp_all add: record_event_def send_initial_ready_def)

lemma fs_settle_reports [simp]:
  "list_all (reports_on W R) (reported fs_report (snd (fs_settle cfg now b s)))"
  by (simp add: fs_settle_def fs_check_now_def fs_trigger_def Let_def split: option.split)

lemma fs_done_reports [simp]: "list_all (reports_on W R) (reported fs_report (snd (fs_done cfg now d s)))"
  by (simp add: fs_done_def into_operation_result_def into_batch_def split: option.split)

lemma fs_command_reports [simp]:
  "list_all (reports_on W R) (reported fs_report (snd (settle_after_own_command cfg now d s)))"
  "list_all (reports_on W R) (reported fs_report (snd (fs_rebaseline cfg now d s)))"
  "list_all (reports_on W R) (reported fs_report (snd (fs_command_failed cfg k now d s)))"
  "list_all (reports_on W R) (reported fs_report (snd (fs_check_now cfg now s)))"
  "list_all (reports_on W R) (reported fs_report (snd (fs_trigger k now s)))"
  by (simp_all add: settle_after_own_command_def fs_rebaseline_def fs_command_failed_def fs_check_now_def fs_trigger_def)

lemma collecting_reports:
  "collecting_events cfg now s back suppress d events_open i = Some r \<Longrightarrow>
     list_all (reports_on W R) (reported fs_report (snd r))"
  by (cases "(cfg, now, s, back, suppress, d, events_open, i)" rule: collecting_events.cases) auto

lemma fs_method_reports:
  "recv_work cfg now s i = Some r \<Longrightarrow> list_all (reports_on W R) (reported fs_report (snd r))"
  "wait_for_settled_batch cfg now s b due i = Some r \<Longrightarrow> list_all (reports_on W R) (reported fs_report (snd r))"
  "list_all (reports_on W R) (reported fs_report (snd (compare_state cfg now s d res)))"
  "list_all (reports_on W R) (reported fs_report (snd (accept_state cfg now s d res)))"
  "list_all (reports_on W R) (reported fs_report (snd (command_running cfg now s k d events_open own l)))"
  "list_all (reports_on W R) (reported fs_report (snd (fs_initial_baseline res s)))"
  "list_all (reports_on W R) (reported fs_report (snd (fs_begin cfg now s)))"
  subgoal by (cases "(cfg, now, s, i)" rule: recv_work.cases)
      (auto simp: run_on_startup_trigger_def split: if_splits option.splits bool.splits)
  subgoal by (cases "(cfg, now, s, b, due, i)" rule: wait_for_settled_batch.cases) (auto split: if_splits)
  subgoal by (cases "(cfg, now, s, d, res)" rule: compare_state.cases) auto
  subgoal by (cases "(cfg, now, s, d, res)" rule: accept_state.cases) auto
  subgoal by (cases "(cfg, now, s, k, d, events_open, own, l)" rule: command_running.cases) auto
  subgoal by (cases "(res, s)" rule: fs_initial_baseline.cases) auto
  subgoal by (simp add: fs_begin_def)
  done

lemma fs_step_reports:
  assumes "fs_step cfg s (i, now) = Some r"
  shows "list_all (reports_on W R) (reported fs_report (snd r))"
  using assms
  by (cases "fr_pc s")
     (auto simp: fs_step.simps fs_points collecting_reports fs_method_reports split: fs_input.splits if_splits sum.splits)

interpretation fs_watch_reports: reporting_task "fs_watch_step t" fs_watch_report "{fw_watcher t}" "{}"
  for t
proof
  have out: "reported fs_watch_report (map FwOut os) = reported fs_report os" for os
    by (induction os) auto
  fix s i s' os
  assume "fs_watch_step t s i = Some (s', os)"
  then show "list_all (reports_on {fw_watcher t} {}) (reported fs_watch_report os)"
    using fs_step_reports
    by (cases "(t, s, i)" rule: fs_watch_step.cases)
       (fastforce simp: out split: sum.splits option.splits prod.splits fs_pc.splits if_splits)+
qed

lemma poll_part_reports:
  "reported poll_report (map GmRequest qs) = []"
  "list_all (reports_on {pt_watcher t} {}) (reported poll_report (snd (poll_fails t retry e now s)))"
  "list_all (reports_on {pt_watcher t} {}) (reported poll_report (snd (poll_stop t s)))"
  "list_all (reports_on {pt_watcher t} {}) (reported poll_report (snd (poll_loop_top t b now s)))"
  "list_all (reports_on {pt_watcher t} {}) (reported poll_report (snd (baseline_done t n now s)))"
  by (simp_all add: reported_map poll_fails_def fail_initial_ready_def poll_stop_def poll_loop_top_def baseline_done_def mark_phase_def)

interpretation poll_reports: reporting_task "poll_step t" poll_report "{pt_watcher t}" "{}"
  for t
proof
  fix s i s' os
  assume step: "poll_step t s i = Some (s', os)"
  obtain j now where i: "i = (j, now)" by fastforce
  have snd_eq: "r = (s', os) \<Longrightarrow> os = snd r" for r by simp
  show "list_all (reports_on {pt_watcher t} {}) (reported poll_report os)"
    using step unfolding i
    by (cases "pw_pc s"; cases j)
       (auto simp: poll_step.simps poll_part_reports queue_source_event_def mark_phase_def dest!: snd_eq
         split: sum.splits prod.splits http_outcome.splits if_splits)
qed

lemma imap_part_reports:
  "list_all (reports_on {mt_watcher t} {}) (reported imap_report (snd (watch_stop t s)))"
  "list_all (reports_on {mt_watcher t} {}) (reported imap_report (snd (after_session t b result now s)))"
  "list_all (reports_on {mt_watcher t} {}) (reported imap_report (mark_idling t))"
  "list_all (reports_on {mt_watcher t} {}) (reported imap_report (queue_mailbox_event r))"
  by (auto simp: watch_stop_def after_session_def mark_idling_def queue_mailbox_event_def Let_def split: sum.split run_end.split)

lemma idle_reports:
  assumes "idle_step t on_connect s i = Some (s', os)"
  shows "list_all (reports_on {mt_watcher t} {}) (reported imap_report os)"
  using assms
  by (cases "id_pc s"; cases i)
     (auto simp: idle_step.simps idle_enter_def establish_def idle_line_def idle_finish_def imap_part_reports reported_repeat Let_def
       split: if_splits prod.splits io_result.splits sum.splits idle_response.splits)

lemma interrupted_reports:
  assumes "done_interrupted t bytes r ids = Some os"
  shows "list_all (reports_on {mt_watcher t} {}) (reported imap_report os)"
  by (rule done_interrupted_finish [OF assms])
     (auto simp: idle_finish_def imap_part_reports reported_repeat split: prod.splits)

interpretation imap_reports: reporting_task "watch_step t" imap_report "{mt_watcher t}" "{}"
  for t
proof
  fix s i s' os
  assume step: "watch_step t s i = Some (s', os)"
  obtain j now where i: "i = (j, now)" by fastforce
  have snd_eq: "r = (s', os) \<Longrightarrow> os = snd r" for r by simp
  show "list_all (reports_on {mt_watcher t} {}) (reported imap_report os)"
  proof (cases "\<exists>ids k. wt_pc s = WIdle ids \<and> j = InSession k")
    case False
    show ?thesis
    proof (cases "\<exists>bytes r. j = ResumeAtDone bytes r")
      case True
      then obtain bytes r where j: "j = ResumeAtDone bytes r" by blast
      show ?thesis
      proof (rule interrupted_step [OF step [unfolded i j]])
        fix ids os1 os2
        assume "done_interrupted t bytes r ids = Some os1" "os = os1 @ os2"
          "after_session t (id_established ids) (Inr EndReconnect) now s = (s', os2)"
        then show ?thesis
          using interrupted_reports imap_part_reports(2) [of t "id_established ids" "Inr EndReconnect" now s] by fastforce
      qed
    next
      case more: False
      with False step show ?thesis unfolding i
        by (cases "wt_pc s"; cases j)
           (auto simp: watch_step.simps imap_part_reports dest!: snd_eq split: prod.splits io_result.splits if_splits)
    qed
  next
    case True
    then obtain ids k where k: "wt_pc s = WIdle ids" "j = InSession k" by blast
    with step obtain ids' o1 where idle: "idle_step t (wt_connected_once s) ids k = Some (ids', o1)"
      by (auto simp: i watch_step.simps split: option.splits)
    note idle_reports [OF idle]
    with step k idle show ?thesis
      using imap_part_reports(2) [of t "id_established ids'" _ now "s\<lparr>wt_ready := id_ready ids'\<rparr>"]
      by (auto simp: i watch_step.simps Let_def split: idle_pc.splits prod.splits) (metis snd_conv)
  qed
qed

section \<open>What the planned tasks report\<close>

text \<open>A task of the plan with its supervisor; a mailbox or Gmail task has any script of its server.\<close>

inductive task_reports :: "task_plan \<Rightarrow> rt_op \<Rightarrow> bool" where
  lane_task: "run_machine (lane_step l) lane_init ins = Some (s, h) \<Longrightarrow> op \<in> set (reported lane_report h) \<Longrightarrow>
    task_reports (PlanLane l specs) op"
| lane_over: "op \<in> set (spawn_lane_runner (ln_lane l) joined) \<Longrightarrow> task_reports (PlanLane l specs) op"
| debounce_task: "run_machine (debounce_step d) debounce_init ins = Some (s, h) \<Longrightarrow> op \<in> set (reported debounce_report h) \<Longrightarrow>
    task_reports (PlanDebounce i d tr) op"
| debounce_over: "op \<in> set (spawn_debounce_runner i joined) \<Longrightarrow> task_reports (PlanDebounce i d tr) op"
| imap_task: "run_machine (watch_step t) (watch_init ready) ins = Some (s, h) \<Longrightarrow> mt_watcher t = i \<Longrightarrow>
    op \<in> set (reported imap_report h) \<Longrightarrow> task_reports (PlanImap i a m st) op"
| imap_over: "op \<in> set (fst (spawn_watcher i (ac_name a) (mb_name m) joined)) \<Longrightarrow> task_reports (PlanImap i a m st) op"
| poll_task: "run_machine (poll_step t) (poll_init ready) ins = Some (s, h) \<Longrightarrow> pt_watcher t = i \<Longrightarrow>
    op \<in> set (reported poll_report h) \<Longrightarrow> task_reports (PlanGmail i g ps tmo) op"
| poll_over: "op \<in> set (fst (spawn_gmail_api_poll_watcher i (gm_name g) joined)) \<Longrightarrow> task_reports (PlanGmail i g ps tmo) op"
| fs_task: "run_machine (fs_watch_step t) (FwStart ready startup) ins = Some (s, h) \<Longrightarrow>
    op \<in> set (reported fs_watch_report h) \<Longrightarrow> task_reports (PlanFs t startup cmd tr) op"
| fs_heartbeat: "run_machine (heartbeat_step interval (fw_watcher t)) (HbSleeping until) ins = Some (s, h) \<Longrightarrow>
    op \<in> set (reported Some h) \<Longrightarrow> task_reports (PlanFs t startup cmd tr) op"
| fs_over: "op \<in> set (spawn_fs_state_watcher (fw_watcher t) joined) \<Longrightarrow> task_reports (PlanFs t startup cmd tr) op"
| resume_task: "run_machine (resume_step r) RWait ins = Some (s, h) \<Longrightarrow> op \<in> set (reported resume_report h) \<Longrightarrow>
    task_reports (PlanResumeRunner i r tr) op"
| resume_over: "op \<in> set (spawn_system_resume_runner i joined) \<Longrightarrow> task_reports (PlanResumeRunner i r tr) op"
| listener_task: "run_machine (listener_step rw) (ListenerSetup ready) ins = Some (s, h) \<Longrightarrow>
    op \<in> set (reported listener_report h) \<Longrightarrow> task_reports (PlanResumeListener rw) op"
| listener_heartbeat: "run_machine (resume_heartbeat_step interval (rw_watcher rw)) (HbSleeping until) ins = Some (s, h) \<Longrightarrow>
    op \<in> set (reported Some h) \<Longrightarrow> task_reports (PlanResumeListener rw) op"
| listener_over: "op \<in> set (spawn_system_resume_watcher (rw_watcher rw) joined) \<Longrightarrow> task_reports (PlanResumeListener rw) op"

fun plan_watcher :: "task_plan \<Rightarrow> string set" where
  "plan_watcher (PlanDebounce i d tr) = {i}"
| "plan_watcher (PlanImap i a m st) = {i}"
| "plan_watcher (PlanGmail i g ps tmo) = {i}"
| "plan_watcher (PlanFs t startup cmd tr) = {fw_watcher t}"
| "plan_watcher (PlanResumeRunner i r tr) = {i}"
| "plan_watcher (PlanResumeListener rw) = {rw_watcher rw}"
| "plan_watcher _ = {}"

fun plan_runner :: "task_plan \<Rightarrow> string set" where
  "plan_runner (PlanLane l specs) = {ln_lane l}"
| "plan_runner _ = {}"

lemma reports_on_mono: "reports_on W R op \<Longrightarrow> W \<subseteq> W' \<Longrightarrow> R \<subseteq> R' \<Longrightarrow> reports_on W' R' op"
  by (auto simp: reports_on_def)

lemmas run_reports_own = lane_reports.run_report debounce_reports.run_report imap_reports.run_report poll_reports.run_report
  fs_watch_reports.run_report heartbeat_reports.run_report resume_reports.run_report listener_reports.run_report

lemmas supervisor_defs = spawn_lane_runner_def spawn_debounce_runner_def spawn_watcher_def spawn_gmail_api_poll_watcher_def
  spawn_fs_state_watcher_def spawn_system_resume_runner_def spawn_system_resume_watcher_def

lemma task_reports_own: "task_reports p op \<Longrightarrow> reports_on (plan_watcher p) (plan_runner p) op"
proof (induction rule: task_reports.induct)
  case (listener_heartbeat interval rw until ins s h op)
  then show ?case
    using reports_on_mono [OF heartbeat_reports.run_report] by (fastforce simp: resume_heartbeat_step_def)
qed (auto simp: supervisor_defs split: joined.splits sum.splits if_splits
      intro: run_reports_own reports_on_mono [OF debounce_reports.run_report] reports_on_mono [OF heartbeat_reports.run_report]
        reports_on_mono [OF resume_reports.run_report])

text \<open>Setting up a task registers what it reports on.\<close>

definition wires_own :: "wiring \<Rightarrow> bool" where
  "wires_own w \<longleftrightarrow> (case w of Inl e \<Rightarrow> True | Inr (ops, plans) \<Rightarrow>
     \<Union>(plan_watcher ` set plans) \<subseteq> \<Union>(op_watcher ` set ops) \<and> \<Union>(plan_runner ` set plans) \<subseteq> \<Union>(op_runner ` set ops))"

lemma wires_own_then: "wires_own a \<Longrightarrow> wires_own b \<Longrightarrow> wires_own (setup_then a b)"
  by (auto simp: wires_own_def setup_then_def and_then_def split: sum.splits)

lemma wires_own_all: "\<forall>w \<in> set ws. wires_own w \<Longrightarrow> wires_own (setup_all ws)"
proof (induction ws)
  case Nil
  show ?case by (simp add: wires_own_def)
next
  case (Cons w ws)
  then show ?case by (simp add: wires_own_then)
qed

lemma wires_own_mailbox: "wires_own (setup_mailbox c senders a m)"
  by (auto simp: wires_own_def setup_mailbox_def and_then_def Let_def split: sum.splits)

lemma wires_own_source: "wires_own (setup_source c senders s)"
  by (cases s) (auto simp: wires_own_def and_then_def startup_event_plan_def split: sum.splits option.splits)

lemma wires_own_lanes: "wires_own (setup_lanes by_lane)"
  by (auto simp: wires_own_def setup_lanes_def lane_of_def new_lane_def)

lemma daemon_wires_own: "wires_own (daemon_setup c)"
  unfolding daemon_setup_def Let_def
  by (intro wires_own_then wires_own_all wires_own_lanes) (auto simp: wires_own_mailbox wires_own_source)

section \<open>The shared state\<close>

lemma apply_ops_ids:
  "fst ` set (watchers (apply_ops ops st)) = fst ` set (watchers st) \<union> \<Union>(op_watcher ` fst ` set ops)"
  "fst ` set (command_runners (apply_ops ops st)) = fst ` set (command_runners st) \<union> \<Union>(op_runner ` fst ` set ops)"
  by (induction ops st rule: apply_ops.induct) (auto simp: apply_op_watcher_ids apply_op_runner_ids)

definition daemon_registered :: "config \<Rightarrow> rt_op list \<Rightarrow> instant \<Rightarrow> runtime_state" where
  "daemon_registered c ops now = apply_ops (map (\<lambda>op. (op, now)) ops) (daemon_state c)"

lemma lane_keys_card: "card (cs_lane ` set (runtime_command_specs c)) = command_lane_count c"
proof -
  let ?b = "commands_by_lane (runtime_command_specs c)"
  have "distinct (map fst ?b)" by (simp add: commands_by_lane_def lanes_distinct)
  moreover have "set (map fst ?b) = cs_lane ` set (runtime_command_specs c)"
    using lanes_keys [of "[]" "runtime_command_specs c"] by (simp add: commands_by_lane_def)
  ultimately show ?thesis using distinct_card [of "map fst ?b"] by (simp add: lane_count)
qed

lemma apply_ops_lanes [simp]: "total_command_lanes (apply_ops ops st) = total_command_lanes st"
  by (induction ops st rule: apply_ops.induct) simp_all

lemma reports_keep_ids:
  assumes "list_all (\<lambda>r. reports_on W R (fst r)) ops"
  shows "fst ` set (watchers st) = W \<Longrightarrow> fst ` set (watchers (apply_ops ops st)) = W"
    and "fst ` set (command_runners st) = R \<Longrightarrow> fst ` set (command_runners (apply_ops ops st)) = R"
  using assms unfolding apply_ops_ids by (auto simp: list_all_iff reports_on_def)

lemma registered_ids:
  assumes "config_ok c" "daemon_setup c = Inr (ops, plans)"
  shows "fst ` set (watchers (daemon_registered c ops now)) = set (watcher_ids c)"
    and "fst ` set (command_runners (daemon_registered c ops now)) = cs_lane ` set (runtime_command_specs c)"
    and "\<Union>(op_watcher ` set ops) = set (watcher_ids c)"
    and "\<Union>(op_runner ` set ops) = cs_lane ` set (runtime_command_specs c)"
proof -
  have lanes: "fst ` set (commands_by_lane (runtime_command_specs c)) = cs_lane ` set (runtime_command_specs c)"
    using lanes_keys [of "[]" "runtime_command_specs c"] by (simp add: commands_by_lane_def)
  from daemon_setup_ok [OF assms(1)] assms(2) have
    ops: "ops = map OpRegisterRunner (map fst (commands_by_lane (runtime_command_specs c))) @ map OpRegisterWatcher (watcher_ids c)" by auto
  have fst_ops: "fst ` set (map (\<lambda>op. (op, now)) ops) = set ops" by (simp add: image_image)
  show own: "\<Union>(op_watcher ` set ops) = set (watcher_ids c)"
    "\<Union>(op_runner ` set ops) = cs_lane ` set (runtime_command_specs c)"
    unfolding lanes [symmetric] by (auto simp: ops)
  show "fst ` set (watchers (daemon_registered c ops now)) = set (watcher_ids c)"
    "fst ` set (command_runners (daemon_registered c ops now)) = cs_lane ` set (runtime_command_specs c)"
    unfolding daemon_registered_def apply_ops_ids fst_ops own by (simp_all add: daemon_state_def new_runtime_state_def)
qed

lemma planned_reports_own:
  assumes "config_ok c" "daemon_setup c = Inr (ops, plans)" "list_ex (\<lambda>p. task_reports p op) plans"
  shows "reports_on (set (watcher_ids c)) (cs_lane ` set (runtime_command_specs c)) op"
proof -
  have wires: "\<Union>(plan_watcher ` set plans) \<subseteq> set (watcher_ids c)"
    "\<Union>(plan_runner ` set plans) \<subseteq> cs_lane ` set (runtime_command_specs c)"
    using daemon_wires_own [of c] unfolding wires_own_def assms(2) registered_ids(3,4) [OF assms(1,2), symmetric] by simp_all
  obtain p where p: "p \<in> set plans" "task_reports p op" using assms(3) unfolding list_ex_iff by (elim bexE)
  show ?thesis by (rule reports_on_mono [OF task_reports_own [OF p(2)]]) (use p(1) wires in blast)+
qed

text \<open>
  C4. The shared state is well typed for its configuration, always: after the registrations, and after
  any sequence of reports of the planned tasks and their supervisors, in whatever order, it holds
  exactly one entry for every source and for every lane of the configuration, and the numbers of
  entries are the totals the status line and the health check compare them with.
\<close>

theorem shared_state_stays_typed:
  assumes "validate c = Inr ()" "daemon_setup c = Inr (ops, plans)"
    and "list_all (\<lambda>r. list_ex (\<lambda>p. task_reports p (fst r)) plans) reports"
  shows "let st = apply_ops reports (daemon_registered c ops now) in
    rt_wf st \<and> fst ` set (watchers st) = set (watcher_ids c) \<and>
    fst ` set (command_runners st) = cs_lane ` set (runtime_command_specs c) \<and>
    length (watchers st) = total_sources st \<and> length (command_runners st) = total_command_lanes st"
proof -
  let ?st = "apply_ops reports (daemon_registered c ops now)"
  from assms(1) have ok: "config_ok c" by (simp add: validate_iff)
  have own: "list_all (\<lambda>r. reports_on (set (watcher_ids c)) (cs_lane ` set (runtime_command_specs c)) (fst r)) reports"
    using assms(3) by (rule list.pred_mono_strong) (rule planned_reports_own [OF ok assms(2)])
  have wf: "rt_wf ?st" by (simp add: daemon_registered_def daemon_state_wf mw_inv)
  have ids: "fst ` set (watchers ?st) = set (watcher_ids c)" "fst ` set (command_runners ?st) = cs_lane ` set (runtime_command_specs c)"
    using reports_keep_ids [OF own] registered_ids(1,2) [OF ok assms(2), of now] by blast+
  have "length (watchers ?st) = length (watcher_ids c)"
    using wf ids(1) ok distinct_card [of "map fst (watchers ?st)"] distinct_card [of "watcher_ids c"]
    by (simp add: rt_wf_def config_ok_def watcher_ids_def)
  moreover have "length (command_runners ?st) = command_lane_count c"
    using wf ids(2) lane_keys_card distinct_card [of "map fst (command_runners ?st)"] by (simp add: rt_wf_def)
  moreover have "total_sources ?st = length (watcher_ids c)" "total_command_lanes ?st = command_lane_count c"
    by (simp_all add: daemon_registered_def watcher_ids_def legacy_names_length source_count_def daemon_state_def
        new_runtime_state_def)
  ultimately show ?thesis using wf ids by (simp add: Let_def)
qed

lemma demo_setup:
  "\<exists>ops plans. daemon_setup demo_config = Inr (ops, plans) \<and>
     PlanDebounce ''a/INBOX'' (debounce_for (mailbox_debounce \<lparr>mb_name = ''INBOX'', mb_on_notify = ''true'', mb_debounce_seconds = None\<rparr> demo_config))
       (''a/INBOX'', \<lparr>ct_command = ''a/INBOX'', ct_source = ''a/INBOX''\<rparr>) \<in> set plans"
  by (simp add: daemon_setup_def setup_lanes_def setup_then_def setup_mailbox_def find_trigger_def command_senders_def
      commands_by_lane_def lane_push_def runtime_command_specs_def mailbox_spec_def legacy_source_name_def unwrap_or_def
      demo_config_def demo_account_def Let_def)

lemma shared_state_stays_typed_witness:
  "\<exists>ops plans. daemon_setup demo_config = Inr (ops, plans) \<and>
     (let st = apply_ops [(OpMarkWatcher ''a/INBOX'' WCrashed, 5)] (daemon_registered demo_config ops 0) in
      fst ` set (watchers st) = set (watcher_ids demo_config) \<and> length (watchers st) = total_sources st)"
proof -
  have v: "validate demo_config = Inr ()" using demo_config_ok by (simp add: validate_iff)
  from demo_setup obtain ops plans d tr where s: "daemon_setup demo_config = Inr (ops, plans)"
    "PlanDebounce ''a/INBOX'' d tr \<in> set plans" by blast
  have "task_reports (PlanDebounce ''a/INBOX'' d tr) (OpMarkWatcher ''a/INBOX'' WCrashed)"
    by (rule debounce_over [of _ _ JoinFailed]) (simp add: spawn_debounce_runner_def)
  with s(2) have "list_all (\<lambda>r. list_ex (\<lambda>p. task_reports p (fst r)) plans) [(OpMarkWatcher ''a/INBOX'' WCrashed, 5 :: instant)]"
    by (auto simp: list_ex_iff)
  from shared_state_stays_typed [OF v s(1) this, of 0] s(1) show ?thesis by (auto simp: Let_def)
qed

end
