(* ===== verification/Lane_Client.thy ===== *)
theory Lane_Client
  imports Command_Lane
begin

text \<open>
  A task that submits a command to a lane and waits for its end, linked to the lane as
  \<open>run_daemon\<close> of \<^verbatim>\<open>src/src/main.rs\<close> connects them: its trigger on the lane's request channel, the
  lane's answer on the lifecycle channel of the request. The locale \<open>lane_client\<close> is what the
  link needs of the task. Both parts take steps in any order, and other tasks may send requests
  to the same lane.
\<close>

section \<open>Requests that wait in a lane\<close>

fun arrivals :: "lane_input \<Rightarrow> (string \<times> waiter) list" where
  "arrivals (LRequest (Some r) now) = [r]"
| "arrivals (LDone result now requests stop) = requests"
| "arrivals _ = []"

lemma accepted_arrivals: "accepted [i] = map snd (arrivals i)"
  by (cases i rule: arrivals.cases) auto

fun queue_waiting :: "string \<Rightarrow> (string \<times> waiter list) list \<Rightarrow> waiter set" where
  "queue_waiting c [] = {}"
| "queue_waiting c ((d, ws) # q) = (if d = c then set ws else {}) \<union> queue_waiting c q"

text \<open>Waiters of a command that has not been started for them.\<close>

definition waiting :: "string \<Rightarrow> lane_state \<Rightarrow> waiter set" where
  "waiting c s = queue_waiting c (pr_view (l_pending s)) \<union>
     (case l_pc s of LCooling cmd ws t \<Rightarrow> (if lc_name cmd = c then set ws else {}) | _ \<Rightarrow> {})"

definition starts :: "string \<Rightarrow> lane_output list \<Rightarrow> bool" where
  "starts c os \<longleftrightarrow> (\<exists>t. RunCommand c t \<in> set os)"

lemma queue_waiting_coalesce:
  "queue_waiting c (coalesce d w q) = (if d = c then insert w (queue_waiting c q) else queue_waiting c q)"
  by (induction d w q rule: coalesce.induct) (simp, clarsimp)

lemma queue_waiting_coalesce_all:
  "queue_waiting c (coalesce_all rs q) = {w. (c, w) \<in> set rs} \<union> queue_waiting c q"
  by (induction rs arbitrary: q) (auto simp: coalesce_all_def queue_waiting_coalesce split: if_splits)

lemma queue_waiting_queued: "w \<in> queue_waiting c q \<Longrightarrow> w \<in> set (queued q)"
  by (induction c q rule: queue_waiting.induct) (auto simp: queued_def split: if_splits)

lemma waiting_held: "w \<in> waiting c s \<Longrightarrow> w \<in> set (held s)"
  by (auto simp: waiting_def held_def queue_waiting_queued split: lane_pc.splits if_splits)

lemma starts_append [simp]: "starts c (xs @ ys) \<longleftrightarrow> starts c xs \<or> starts c ys"
  by (auto simp: starts_def)

lemma dispatch_waiting:
  assumes "pr_ok (l_pending s)" "lane_cfg_ok cfg" "ln_commands cfg c \<noteq> None"
    "dispatch cfg now s = (s', os)" "l_pc s' \<noteq> LPanicked"
  shows "queue_waiting c (pr_view (l_pending s)) \<subseteq> waiting c s' \<or> starts c os"
  using assms
proof (induction cfg now s arbitrary: s' os rule: dispatch.induct)
  case (1 cfg now s)
  from 1(2) show ?case
  proof (cases rule: pq.pop_cases)
    case (some name ws q1 q2)
    note step = 1(5) [unfolded dispatch.simps [of cfg now s]]
    show ?thesis
    proof (cases "ln_commands cfg name")
      case None
      obtain s1 o1 where d: "dispatch cfg now (s\<lparr>l_pending := q2\<rparr>) = (s1, o1)" by fastforce
      have eq: "s' = s1" "os = finish_waiters ws (ReportError ''unknown command'') @ o1"
        using step some None d by simp_all
      have "pr_ok (l_pending (s\<lparr>l_pending := q2\<rparr>))" using some by simp
      from 1(1) [OF some(1) [symmetric] refl some(2) [symmetric] None this 1(3,4) d] eq some None 1(4,6)
      show ?thesis by (cases "name = c") auto
    next
      case (Some cmd)
      then have name: "lc_name cmd = name" using 1(3) by (simp add: lane_cfg_ok_def)
      show ?thesis
        using step some Some name 1(6)
        by (cases "interval_wait cmd (l_last_finished s) now")
           (auto simp: begin_run_def waiting_def starts_def)
    qed
  qed simp
qed

lemma lane_waiting:
  assumes cfg: "lane_cfg_ok cfg" "ln_commands cfg c \<noteq> None" and inv: "lane_inv cfg s"
    and step: "lane_step cfg s i = Some (s', os)" and alive: "\<not> lane_final s'"
  shows "waiting c s \<union> {w. (c, w) \<in> set (arrivals i)} \<subseteq> waiting c s' \<or> starts c os"
proof -
  have ok: "pr_ok (l_pending s)" using inv by (simp add: lane_inv_def)
  have panic: "l_pc s' \<noteq> LPanicked" "l_pc s' \<noteq> LStopped" using alive by (auto simp: lane_final_def)
  show ?thesis
  proof (cases "l_pc s")
    case LInit
    with step show ?thesis by (cases i) (auto simp: lane_step.simps waiting_def)
  next
    case LIdle
    show ?thesis
    proof (cases i)
      case (LShutdown ch now)
      with step LIdle panic have "dispatch cfg now s = (s', os)"
        by (auto simp: lane_step.simps lane_stop_def split: if_splits)
      from dispatch_waiting [OF ok cfg this panic(1)] LIdle LShutdown show ?thesis by (simp add: waiting_def)
    next
      case (LRequest r now)
      with step LIdle panic obtain d w where r: "r = Some (d, w)"
        "dispatch cfg now (s\<lparr>l_pending := pr_push d w (l_pending s)\<rparr>) = (s', os)"
        by (cases r) (auto simp: lane_step.simps lane_stop_def)
      have "pr_ok (l_pending (s\<lparr>l_pending := pr_push d w (l_pending s)\<rparr>))" using pr_push_ok [OF ok] by simp
      from dispatch_waiting [OF this cfg r(2) panic(1)] LIdle LRequest r(1) show ?thesis
        by (auto simp: waiting_def pr_push_view [OF ok] queue_waiting_coalesce split: if_splits)
    qed (use step LIdle in \<open>simp_all add: lane_step.simps\<close>)
  next
    case (LCooling cmd ws run_at)
    show ?thesis
    proof (cases i)
      case (LTimer now)
      with step LCooling show ?thesis
        by (auto simp: lane_step.simps begin_run_def waiting_def starts_def split: if_splits)
    next
      case (LShutdown ch now)
      with step LCooling panic show ?thesis
        by (auto simp: lane_step.simps lane_stop_def begin_run_def waiting_def starts_def split: if_splits)
    next
      case (LRequest r now)
      with step LCooling panic show ?thesis
        by (cases r) (auto simp: lane_step.simps lane_stop_def waiting_def pr_push_view [OF ok]
            queue_waiting_coalesce split: if_splits)
    qed (use step LCooling in \<open>simp_all add: lane_step.simps\<close>)
  next
    case (LRunning cmd ws)
    show ?thesis
    proof (cases i)
      case (LDone result now requests stop)
      let ?s1 = "s\<lparr>l_last_finished := (l_last_finished s)(lc_name cmd \<mapsto> now), l_pending := drain_requests requests (l_pending s)\<rparr>"
      from step LRunning LDone panic obtain o2 where d: "dispatch cfg now ?s1 = (s', o2)" "starts c o2 \<longrightarrow> starts c os"
        by (fastforce simp: lane_step.simps lane_stop_def Let_def starts_def split: if_splits prod.splits)
      have "pr_ok (l_pending ?s1)" using ok by (simp add: mw_inv)
      from dispatch_waiting [OF this cfg d(1) panic(1)] d(2) LRunning LDone show ?thesis
        by (auto simp: waiting_def drain_requests_view [OF ok] queue_waiting_coalesce_all)
    qed (use step LRunning panic(1) in \<open>auto simp: lane_step.simps\<close>)
  qed (use step in \<open>cases i; simp add: lane_step.simps\<close>)+
qed

section \<open>The link\<close>

text \<open>Where a client stands towards its lane.\<close>

datatype client_phase = Away | Submitted | Accepted | Over

text \<open>What an input tells the client of its request.\<close>

datatype lane_reply = StartAccepted | StartRefused | RunStarted | RunFinished command_run_report | RunLost

text \<open>What an effect means for the events the client owes a command.\<close>

datatype client_effect = Takes | Checks | Submits | Neutral

text \<open>
  The number of requests the client has sent, whether the last of them is still in the lane's
  channel, and its answer if there is one. The waiters of the client's requests are the even
  numbers, those of other tasks the odd ones.
\<close>

record 's linked_state =
  lk_client :: 's
  lk_lane :: lane_state
  lk_runs :: nat
  lk_request :: bool
  lk_answer :: "command_run_report option"

datatype 'i linked_input = LinkClient 'i | LinkLane lane_input

datatype 'o linked_output = FromClient 'o | FromLane lane_output

definition linked_init :: "'s \<Rightarrow> 's linked_state" where
  "linked_init s = \<lparr>lk_client = s, lk_lane = lane_init, lk_runs = 0, lk_request = False, lk_answer = None\<rparr>"

definition own_waiter :: "'s linked_state \<Rightarrow> waiter" where
  "own_waiter s = 2 * lk_runs s"

text \<open>The client's last request has not been started.\<close>

definition unstarted :: "string \<Rightarrow> 's linked_state \<Rightarrow> bool" where
  "unstarted c s \<longleftrightarrow> lk_request s \<or> own_waiter s \<in> waiting c (lk_lane s)"

fun can_hear :: "string \<Rightarrow> 's linked_state \<Rightarrow> lane_reply option \<Rightarrow> bool" where
  "can_hear c s None \<longleftrightarrow> True"
| "can_hear c s (Some StartAccepted) \<longleftrightarrow> \<not> lane_final (lk_lane s)"
| "can_hear c s (Some StartRefused) \<longleftrightarrow> lane_final (lk_lane s)"
| "can_hear c s (Some RunStarted) \<longleftrightarrow> \<not> unstarted c s"
| "can_hear c s (Some (RunFinished report)) \<longleftrightarrow> lk_answer s = Some report"
| "can_hear c s (Some RunLost) \<longleftrightarrow> lane_final (lk_lane s)"

fun after_hearing :: "lane_reply option \<Rightarrow> 's linked_state \<Rightarrow> 's linked_state" where
  "after_hearing (Some StartAccepted) s = s\<lparr>lk_runs := Suc (lk_runs s), lk_request := True\<rparr>"
| "after_hearing (Some (RunFinished report)) s = s\<lparr>lk_answer := None\<rparr>"
| "after_hearing _ s = s"

lemma after_hearing_lane [simp]: "lk_lane (after_hearing r s) = lk_lane s"
  by (cases "(r, s)" rule: after_hearing.cases) auto

definition own_arrivals :: "lane_input \<Rightarrow> (string \<times> waiter) list" where
  "own_arrivals i = filter (\<lambda>r. even (snd r)) (arrivals i)"

definition can_receive :: "string \<Rightarrow> 's linked_state \<Rightarrow> lane_input \<Rightarrow> bool" where
  "can_receive c s i \<longleftrightarrow> own_arrivals i = [] \<or> (lk_request s \<and> own_arrivals i = [(c, own_waiter s)])"

fun answer_to :: "waiter \<Rightarrow> lane_output list \<Rightarrow> command_run_report option" where
  "answer_to w [] = None"
| "answer_to w (WaiterFinished v r # os) = (if v = w then Some r else answer_to w os)"
| "answer_to w (_ # os) = answer_to w os"

fun linked_step :: "('s, 'i, 'o) machine \<Rightarrow> ('i \<Rightarrow> lane_reply option) \<Rightarrow> lane_config \<Rightarrow> string
    \<Rightarrow> ('s linked_state, 'i linked_input, 'o linked_output) machine" where
  "linked_step step reply lane c s (LinkClient i) =
     (if can_hear c s (reply i) then
        map_option (\<lambda>(d, os). ((after_hearing (reply i) s)\<lparr>lk_client := d\<rparr>, map FromClient os)) (step (lk_client s) i)
      else None)"
| "linked_step step reply lane c s (LinkLane i) =
     (if can_receive c s i then
        map_option (\<lambda>(l, os). (s\<lparr>lk_lane := l, lk_request := (lk_request s \<and> own_arrivals i = []),
            lk_answer := (if answer_to (own_waiter s) os = None then lk_answer s else answer_to (own_waiter s) os)\<rparr>,
            map FromLane os))
          (lane_step lane (lk_lane s) i)
      else None)"

declare linked_step.simps [simp del]

text \<open>What the client owes after a history: events and submissions since the command was last started.\<close>

fun owed_by :: "nat \<Rightarrow> client_effect list \<Rightarrow> nat" where
  "owed_by n [] = n"
| "owed_by n (Takes # es) = owed_by (Suc n) es"
| "owed_by n (Checks # es) = owed_by 0 es"
| "owed_by n (Submits # es) = owed_by (Suc n) es"
| "owed_by n (Neutral # es) = owed_by n es"

fun owed :: "('o \<Rightarrow> client_effect) \<Rightarrow> string \<Rightarrow> nat \<Rightarrow> 'o linked_output list \<Rightarrow> nat" where
  "owed effect c n [] = n"
| "owed effect c n (FromClient x # os) = owed effect c (owed_by n [effect x]) os"
| "owed effect c n (FromLane (RunCommand d t) # os) = owed effect c (if d = c then 0 else n) os"
| "owed effect c n (FromLane _ # os) = owed effect c n os"

definition linked_alive :: "('s \<Rightarrow> client_phase) \<Rightarrow> 's linked_state \<Rightarrow> bool" where
  "linked_alive phase s \<longleftrightarrow> phase (lk_client s) \<noteq> Over \<and> \<not> lane_final (lk_lane s)"

text \<open>
  Where what is owed can be: still with the client, submitted, or as a request of the client that
  the lane has not started.
\<close>

definition on_its_way :: "('s \<Rightarrow> client_phase) \<Rightarrow> ('s \<Rightarrow> bool) \<Rightarrow> string \<Rightarrow> 's linked_state \<Rightarrow> bool" where
  "on_its_way phase owes c s \<longleftrightarrow> owes (lk_client s) \<or> phase (lk_client s) = Submitted \<or>
     (phase (lk_client s) = Accepted \<and> unstarted c s)"

definition tickets :: "'s linked_state \<Rightarrow> nat" where
  "tickets s = (if lk_request s then 1 else 0) + count (mset (held (lk_lane s))) (own_waiter s) +
     (if lk_answer s = None then 0 else 1)"

definition linked_inv :: "('s \<Rightarrow> client_phase) \<Rightarrow> ('s \<Rightarrow> bool) \<Rightarrow> ('o \<Rightarrow> client_effect) \<Rightarrow> lane_config \<Rightarrow> string
    \<Rightarrow> 's linked_state \<Rightarrow> 'o linked_output list \<Rightarrow> bool" where
  "linked_inv phase owes effect lane c s h \<longleftrightarrow> (linked_alive phase s \<longrightarrow> lane_inv lane (lk_lane s) \<and>
     tickets s = (if phase (lk_client s) = Accepted then 1 else 0) \<and>
     (\<forall>w \<in> set (held (lk_lane s)). even w \<longrightarrow> w \<le> own_waiter s) \<and>
     (0 < owed effect c 0 h \<longrightarrow> on_its_way phase owes c s))"

definition lane_knows :: "lane_config \<Rightarrow> string \<Rightarrow> bool" where
  "lane_knows lane c \<longleftrightarrow> lane_cfg_ok lane \<and> ln_commands lane c \<noteq> None"

lemma owed_by_append [simp]: "owed_by n (xs @ ys) = owed_by (owed_by n xs) ys"
  by (induction n xs rule: owed_by.induct) auto

lemma owed_append: "owed effect c n (xs @ ys) = owed effect c (owed effect c n xs) ys"
  by (induction effect c n xs rule: owed.induct) auto

lemma owed_client [simp]: "owed effect c n (map FromClient os) = owed_by n (map effect os)"
proof (induction os arbitrary: n)
  case (Cons x os)
  then show ?case by (cases "effect x") simp_all
qed simp

lemma owed_lane: "owed effect c n (map FromLane os) = (if starts c os then 0 else n)"
proof (induction os arbitrary: n)
  case (Cons x os)
  then show ?case by (cases x) (auto simp: starts_def)
qed (simp add: starts_def)

lemma answer_to_answered: "answer_to w os \<noteq> None \<longleftrightarrow> w \<in> set (answered os)"
  by (induction w os rule: answer_to.induct) auto

lemma arrivals_own:
  "can_receive c s i \<Longrightarrow> even w \<Longrightarrow>
     count (mset (map snd (arrivals i))) w = (if lk_request s \<and> own_arrivals i \<noteq> [] \<and> w = own_waiter s then 1 else 0)"
proof -
  assume c: "can_receive c s i" and w: "even w"
  have "count (mset (map snd rs)) w = count (mset (map snd (filter (\<lambda>r. even (snd r)) rs))) w" for rs :: "(string \<times> waiter) list"
    using w by (induction rs) auto
  then have "count (mset (map snd (arrivals i))) w = count (mset (map snd (own_arrivals i))) w"
    by (simp add: own_arrivals_def)
  with c show ?thesis by (auto simp: can_receive_def)
qed

lemma lane_tickets:
  assumes bal: "mset (answered los) + mset (held l') = mset (held (lk_lane s)) + mset (map snd (arrivals i))"
    and rec: "can_receive c s i" and one: "tickets s \<le> 1"
  shows "tickets (s\<lparr>lk_lane := l', lk_request := (lk_request s \<and> own_arrivals i = []),
       lk_answer := (if answer_to (own_waiter s) los = None then lk_answer s else answer_to (own_waiter s) los)\<rparr>) = tickets s"
    (is "tickets ?s' = _")
proof -
  have own: "own_waiter ?s' = own_waiter s" by (simp add: own_waiter_def)
  have new: "count (mset (map snd (arrivals i))) (own_waiter s) = (if lk_request s \<and> own_arrivals i \<noteq> [] then 1 else 0)"
    using arrivals_own [OF rec, of "own_waiter s"] by (simp add: own_waiter_def)
  define told before after where "told = count (mset (answered los)) (own_waiter s)"
    and "before = count (mset (held (lk_lane s))) (own_waiter s)" and "after = count (mset (held l')) (own_waiter s)"
  have sum: "told + after = before + (if lk_request s \<and> own_arrivals i \<noteq> [] then 1 else 0)"
    using arg_cong [OF bal, of "\<lambda>m. count m (own_waiter s)"] new
    by (simp only: count_union told_def before_def after_def)
  have told: "answer_to (own_waiter s) los \<noteq> None \<longleftrightarrow> 0 < told"
    by (simp only: answer_to_answered told_def count_greater_zero_iff set_mset_mset)
  have count: "tickets s = (if lk_request s then 1 else 0) + before + (if lk_answer s = None then 0 else 1)"
    "tickets ?s' = (if lk_request s \<and> own_arrivals i = [] then 1 else 0) + after + (if lk_answer s = None \<and> told = 0 then 0 else 1)"
    using told unfolding tickets_def own before_def after_def by auto
  show ?thesis using one sum unfolding count by (auto split: if_splits)
qed

lemma lane_ids:
  assumes bal: "mset (answered los) + mset (held l') = mset (held (lk_lane s)) + mset (map snd (arrivals i))"
    and rec: "can_receive c s i" and ids: "\<forall>w \<in> set (held (lk_lane s)). even w \<longrightarrow> w \<le> own_waiter s"
  shows "\<forall>w \<in> set (held l'). even w \<longrightarrow> w \<le> own_waiter s"
proof (intro ballI impI)
  fix w assume w: "w \<in> set (held l')" "even w"
  then have "w \<in> set (held (lk_lane s)) \<or> w \<in> set (map snd (arrivals i))"
    using arg_cong [OF bal, of set_mset] by auto
  then show "w \<le> own_waiter s"
  proof
    assume "w \<in> set (map snd (arrivals i))"
    then have "0 < count (mset (map snd (arrivals i))) w" by (simp add: count_greater_zero_iff)
    with arrivals_own [OF rec w(2)] show ?thesis by (simp split: if_splits)
  qed (use ids w(2) in blast)
qed

section \<open>What the link needs of the client\<close>

locale lane_client =
  fixes step :: "('s, 'i, 'o) machine"
    and start :: 's
    and phase :: "'s \<Rightarrow> client_phase"
    and reply :: "'i \<Rightarrow> lane_reply option"
    and effect :: "'o \<Rightarrow> client_effect"
    and owes :: "'s \<Rightarrow> bool"
  assumes start_away: "phase start = Away"
    and over_stays: "step s i = Some (s', os) \<Longrightarrow> phase s = Over \<Longrightarrow> phase s' = Over"
    and away_step: "step s i = Some (s', os) \<Longrightarrow> phase s = Away \<Longrightarrow> phase s' \<noteq> Over \<Longrightarrow>
      reply i = None \<and> phase s' \<noteq> Accepted"
    and submitted_step: "step s i = Some (s', os) \<Longrightarrow> phase s = Submitted \<Longrightarrow> phase s' \<noteq> Over \<Longrightarrow>
      (reply i = None \<and> phase s' = Submitted) \<or> (reply i = Some StartAccepted \<and> phase s' = Accepted) \<or>
      reply i = Some StartRefused"
    and accepted_step: "step s i = Some (s', os) \<Longrightarrow> phase s = Accepted \<Longrightarrow> phase s' \<noteq> Over \<Longrightarrow>
      ((reply i = None \<or> reply i = Some RunStarted) \<and> phase s' = Accepted) \<or>
      ((\<exists>report. reply i = Some (RunFinished report)) \<and> phase s' \<noteq> Accepted) \<or> reply i = Some RunLost"
    and debt_step: "step s i = Some (s', os) \<Longrightarrow> phase s' \<noteq> Over \<Longrightarrow> n = 0 \<or> owes s \<Longrightarrow>
      0 < owed_by n (map effect os) \<Longrightarrow> owes s' \<or> phase s' = Submitted"
begin

abbreviation "link \<equiv> linked_step step reply"

abbreviation "link_inv \<equiv> linked_inv phase owes effect"

lemma init_inv: "link_inv lane c (linked_init start) []"
  by (simp add: linked_inv_def linked_init_def tickets_def held_def lane_init_def lane_init_inv [unfolded lane_init_def]
      start_away own_waiter_def)

lemma client_inv:
  assumes "link_inv lane c s h" "link lane c s (LinkClient i) = Some (s', os)"
  shows "link_inv lane c s' (h @ os)"
proof (cases "linked_alive phase s'")
  case True
  obtain d' dos where step: "step (lk_client s) i = Some (d', dos)" "can_hear c s (reply i)"
    and s': "s' = (after_hearing (reply i) s)\<lparr>lk_client := d'\<rparr>" "os = map FromClient dos"
    using assms(2) by (auto simp: linked_step.simps split: if_splits)
  have lane: "lk_lane s' = lk_lane s" unfolding s' by simp
  have open_lane: "\<not> lane_final (lk_lane s)" and on: "phase d' \<noteq> Over" using True lane s'(1) by (simp_all add: linked_alive_def)
  have "phase (lk_client s) \<noteq> Over" using over_stays [OF step(1)] on by blast
  with open_lane have "linked_alive phase s" by (simp add: linked_alive_def)
  with assms(1) have inv: "lane_inv lane (lk_lane s)" "tickets s = (if phase (lk_client s) = Accepted then 1 else 0)"
    "\<forall>w \<in> set (held (lk_lane s)). even w \<longrightarrow> w \<le> own_waiter s" "0 < owed effect c 0 h \<longrightarrow> on_its_way phase owes c s"
    by (simp_all add: linked_inv_def)
  define n where "n = owed effect c 0 h"
  have h: "owed effect c 0 (h @ os) = owed_by n (map effect dos)" by (simp add: owed_append s'(2) n_def)
  have debt: "owes d' \<or> phase d' = Submitted" if "n = 0 \<or> owes (lk_client s)" "0 < owed_by n (map effect dos)"
    using debt_step [OF step(1) on that] .
  have fresh: "count (mset (held (lk_lane s))) (2 * Suc (lk_runs s)) = 0"
  proof -
    have "2 * Suc (lk_runs s) \<notin> set (held (lk_lane s))" using inv(3) by (force simp: own_waiter_def)
    then show ?thesis by simp
  qed
  have enough: ?thesis
    if "tickets s' = (if phase d' = Accepted then 1 else 0)" "own_waiter s \<le> own_waiter s'"
      "0 < owed_by n (map effect dos) \<Longrightarrow> on_its_way phase owes c s'"
  proof -
    have "lk_client s' = d'" by (simp add: s'(1))
    moreover have "\<forall>w \<in> set (held (lk_lane s')). even w \<longrightarrow> w \<le> own_waiter s'"
      using inv(3) that(2) unfolding lane by (blast intro: order_trans)
    ultimately show ?thesis using that inv(1) unfolding linked_inv_def lane h by simp
  qed
  show ?thesis
  proof (cases "phase (lk_client s)")
    case Away
    with away_step [OF step(1) _ on] have r: "reply i = None" "phase d' \<noteq> Accepted" by simp_all
    have "n = 0 \<or> owes (lk_client s)" using inv(4) Away by (auto simp: on_its_way_def n_def)
    then show ?thesis using r inv(2) Away debt
      by (intro enough) (auto simp: s'(1) tickets_def own_waiter_def on_its_way_def split: if_splits)
  next
    case Submitted
    from submitted_step [OF step(1) this on] show ?thesis
    proof (elim disjE)
      assume "reply i = None \<and> phase d' = Submitted"
      then show ?thesis using inv(2) Submitted
        by (intro enough) (auto simp: s'(1) tickets_def own_waiter_def on_its_way_def split: if_splits)
    next
      assume "reply i = Some StartAccepted \<and> phase d' = Accepted"
      then show ?thesis using inv(2) Submitted fresh
        by (intro enough) (simp_all add: s'(1) tickets_def own_waiter_def on_its_way_def unstarted_def split: if_splits)
    qed (use step(2) open_lane in simp)
  next
    case Accepted
    from accepted_step [OF step(1) this on] show ?thesis
    proof (elim disjE)
      assume a: "(reply i = None \<or> reply i = Some RunStarted) \<and> phase d' = Accepted"
      then have s1: "s' = s\<lparr>lk_client := d'\<rparr>" by (auto simp: s'(1))
      have "on_its_way phase owes c s'" if "0 < owed_by n (map effect dos)"
      proof (cases "n = 0 \<or> owes (lk_client s)")
        case False
        with inv(4) Accepted have "unstarted c s" by (auto simp: on_its_way_def n_def)
        with a show ?thesis by (simp add: on_its_way_def s1 unstarted_def own_waiter_def)
      qed (use debt that a in \<open>auto simp: on_its_way_def s1\<close>)
      then show ?thesis using inv(2) Accepted a
        by (intro enough) (auto simp: s1 tickets_def own_waiter_def split: if_splits)
    next
      assume "(\<exists>report. reply i = Some (RunFinished report)) \<and> phase d' \<noteq> Accepted"
      then obtain r where r: "reply i = Some (RunFinished r)" "lk_answer s = Some r" "phase d' \<noteq> Accepted"
        using step(2) by auto
      then have left: "\<not> lk_request s" "count (mset (held (lk_lane s))) (own_waiter s) = 0"
        using inv(2) Accepted by (auto simp: tickets_def split: if_splits)
      then have "\<not> unstarted c s" using waiting_held [of "own_waiter s" c "lk_lane s"] by (auto simp: unstarted_def)
      then have "n = 0 \<or> owes (lk_client s)" using inv(4) Accepted by (auto simp: on_its_way_def n_def)
      with left r debt show ?thesis
        by (intro enough) (auto simp: s'(1) tickets_def own_waiter_def on_its_way_def)
    qed (use step(2) open_lane in simp)
  qed (use \<open>phase (lk_client s) \<noteq> Over\<close> in simp)
qed (simp add: linked_inv_def)

lemma lane_part_inv:
  assumes "lane_knows lane c" "link_inv lane c s h" "link lane c s (LinkLane i) = Some (s', os)"
  shows "link_inv lane c s' (h @ os)"
proof (cases "linked_alive phase s'")
  case True
  obtain l' los where step: "lane_step lane (lk_lane s) i = Some (l', los)" "can_receive c s i"
    and s': "s' = s\<lparr>lk_lane := l', lk_request := (lk_request s \<and> own_arrivals i = []),
       lk_answer := (if answer_to (own_waiter s) los = None then lk_answer s else answer_to (own_waiter s) los)\<rparr>" "os = map FromLane los"
    using assms(3) by (auto simp: linked_step.simps split: if_splits)
  have alive: "\<not> lane_final l'" "phase (lk_client s) \<noteq> Over" using True by (simp_all add: linked_alive_def s')
  have "\<not> lane_final (lk_lane s)" using step(1) lane_final_stuck by fastforce
  with alive(2) assms(2) have inv: "lane_inv lane (lk_lane s)" "tickets s = (if phase (lk_client s) = Accepted then 1 else 0)"
    "\<forall>w \<in> set (held (lk_lane s)). even w \<longrightarrow> w \<le> own_waiter s" "0 < owed effect c 0 h \<longrightarrow> on_its_way phase owes c s"
    by (simp_all add: linked_inv_def linked_alive_def)
  have cfg: "lane_cfg_ok lane" "ln_commands lane c \<noteq> None" using assms(1) by (simp_all add: lane_knows_def)
  have fact: "step_fact lane (lk_lane s) i l' los" by (rule lane_step_fact [OF cfg(1) inv(1) step(1)])
  have bal: "mset (answered los) + mset (held l') = mset (held (lk_lane s)) + mset (map snd (arrivals i))"
    using fact alive(1) by (simp add: step_fact_def lane_final_def accepted_arrivals)
  have own: "own_waiter s' = own_waiter s" by (simp add: own_waiter_def s')
  have client: "lk_client s' = lk_client s" by (simp add: s')
  have tickets: "tickets s' = tickets s"
    using lane_tickets [OF bal step(2)] inv(2) by (simp add: s')
  have ids: "\<forall>w \<in> set (held l'). even w \<longrightarrow> w \<le> own_waiter s"
    using lane_ids [OF bal step(2) inv(3)] .
  have way: "on_its_way phase owes c s'" if "on_its_way phase owes c s" "\<not> starts c los"
  proof -
    have "waiting c (lk_lane s) \<union> {w. (c, w) \<in> set (arrivals i)} \<subseteq> waiting c l'"
      using lane_waiting [OF cfg inv(1) step(1) alive(1)] that(2) by blast
    moreover have "(c, own_waiter s) \<in> set (arrivals i)" if "own_arrivals i \<noteq> []"
    proof -
      have "(c, own_waiter s) \<in> set (own_arrivals i)" using step(2) that by (auto simp: can_receive_def)
      then show ?thesis by (simp add: own_arrivals_def)
    qed
    ultimately show ?thesis using that(1) unfolding on_its_way_def unstarted_def own client by (auto simp: s')
  qed
  have h: "owed effect c 0 (h @ os) = (if starts c los then 0 else owed effect c 0 h)"
    by (simp add: owed_append s'(2) owed_lane)
  have "lane_inv lane l'" using fact by (simp add: step_fact_def)
  with tickets inv(2,4) ids way h show ?thesis
    unfolding linked_inv_def own client by (auto simp: s')
qed (simp add: linked_inv_def)

end

sublocale lane_client < linked: step_machine "linked_step step reply lane c" "linked_init start"
    "\<lambda>s h. lane_knows lane c \<longrightarrow> linked_inv phase owes effect lane c s h" for lane c
proof
  show "lane_knows lane c \<longrightarrow> linked_inv phase owes effect lane c (linked_init start) []" using init_inv by blast
  show "lane_knows lane c \<longrightarrow> linked_inv phase owes effect lane c s' (h @ os)"
    if "lane_knows lane c \<longrightarrow> linked_inv phase owes effect lane c s h" "linked_step step reply lane c s i = Some (s', os)" for s h i s' os
    using that client_inv lane_part_inv by (cases i) blast+
qed

context lane_client
begin

lemma keeps_events:
  assumes "lane_knows lane c" "run_machine (linked_step step reply lane c) (linked_init start) ins = Some (s, h)"
    "linked_alive phase s"
  shows "owed effect c 0 h = 0 \<or> on_its_way phase owes c s"
  using linked.run_inv [OF assms(2)] assms(1,3) by (auto simp: linked_inv_def)

end

end
