(* ===== verification/Event_Channel.thy ===== *)
theory Event_Channel
  imports Lane_Client
begin

text \<open>
  A source, the bounded channel it reports its events on, and the task that receives them, as
  \<open>run_daemon\<close> of \<^verbatim>\<open>src/src/main.rs\<close> spawns them. The source is any machine whose effects say which
  results its sends had; it is told the results the channel gives. The locale \<open>channel_client\<close> is the
  contract of the receiving task, from which source, channel and task together are a client of a lane.
\<close>

section \<open>The channel\<close>

definition EVENT_CHANNEL :: nat where "EVENT_CHANNEL = 64"

text \<open>A source: its machine, the send an effect is, whether it has ended and dropped its sender, and the times of its inputs.\<close>

record ('w, 'j, 'p) event_source =
  es_step :: "('w, 'j, 'p) machine"
  es_sent :: "'p \<Rightarrow> send_result option"
  es_ended :: "'w \<Rightarrow> bool"
  es_time :: "'j \<Rightarrow> instant option"

text \<open>What an input of the task says of its event channel.\<close>

datatype channel_use = NoReceive | ReceiveOne | ReceiveAll nat | ReceiveClosed

record ('w, 's) channel_state =
  ch_source :: 'w
  ch_queue :: nat
  ch_task :: 's

text \<open>The startup task of a source with \<^verbatim>\<open>run_on_startup\<close> has a sender of its own.\<close>

datatype ('j, 'i) channel_input = SourceStep 'j | StartupSend | TaskStep 'i

datatype ('p, 'o) channel_output = FromSource 'p | StartupSent send_result | FromTask 'o

definition channel_init :: "'w \<Rightarrow> 's \<Rightarrow> ('w, 's) channel_state" where
  "channel_init w s = \<lparr>ch_source = w, ch_queue = 0, ch_task = s\<rparr>"

text \<open>\<^verbatim>\<open>try_send\<close>: closed when the receiving task is gone, full at the bound.\<close>

definition channel_try_send :: "bool \<Rightarrow> nat \<Rightarrow> send_result" where
  "channel_try_send gone q = (if gone then SendClosed else if q < EVENT_CHANNEL then SendOk else SendFull)"

definition after_send :: "bool \<Rightarrow> nat \<Rightarrow> nat" where
  "after_send gone q = (if channel_try_send gone q = SendOk then Suc q else q)"

text \<open>The sends of one step, in order; \<open>None\<close> if the source was told something else.\<close>

fun deliver :: "bool \<Rightarrow> nat \<Rightarrow> send_result list \<Rightarrow> nat option" where
  "deliver gone q [] = Some q"
| "deliver gone q (r # rs) = (if r = channel_try_send gone q then deliver gone (after_send gone q) rs else None)"

text \<open>
  What the task can observe: an event only if one is queued, all of them when it drains, and the
  end of the channel only when it is empty and the source has ended.
\<close>

fun can_use :: "bool \<Rightarrow> nat \<Rightarrow> channel_use \<Rightarrow> bool" where
  "can_use ended q NoReceive \<longleftrightarrow> True"
| "can_use ended q ReceiveOne \<longleftrightarrow> 0 < q"
| "can_use ended q (ReceiveAll n) \<longleftrightarrow> n = q"
| "can_use ended q ReceiveClosed \<longleftrightarrow> ended \<and> q = 0"

fun after_use :: "nat \<Rightarrow> channel_use \<Rightarrow> nat" where
  "after_use q ReceiveOne = q - 1"
| "after_use q (ReceiveAll n) = 0"
| "after_use q _ = q"

fun channel_step :: "('w, 'j, 'p) event_source \<Rightarrow> ('s, 'i, 'o) machine \<Rightarrow> ('s \<Rightarrow> client_phase) \<Rightarrow> ('i \<Rightarrow> channel_use)
    \<Rightarrow> ('i \<Rightarrow> bool) \<Rightarrow> (('w, 's) channel_state, ('j, 'i) channel_input, ('p, 'o) channel_output) machine" where
  "channel_step src step phase uses calm s (SourceStep j) = (case es_step src (ch_source s) j of
     None \<Rightarrow> None
   | Some (w, ps) \<Rightarrow> map_option (\<lambda>q. (s\<lparr>ch_source := w, ch_queue := q\<rparr>, map FromSource ps))
       (deliver (phase (ch_task s) = Over) (ch_queue s) (List.map_filter (es_sent src) ps)))"
| "channel_step src step phase uses calm s StartupSend =
     Some (s\<lparr>ch_queue := after_send (phase (ch_task s) = Over) (ch_queue s)\<rparr>,
       [StartupSent (channel_try_send (phase (ch_task s) = Over) (ch_queue s))])"
| "channel_step src step phase uses calm s (TaskStep i) =
     (if calm i \<and> can_use (es_ended src (ch_source s)) (ch_queue s) (uses i) then
        map_option (\<lambda>(d, os). (s\<lparr>ch_queue := after_use (ch_queue s) (uses i), ch_task := d\<rparr>, map FromTask os)) (step (ch_task s) i)
      else None)"

declare channel_step.simps [simp del]

fun channel_reply :: "('i \<Rightarrow> lane_reply option) \<Rightarrow> ('j, 'i) channel_input \<Rightarrow> lane_reply option" where
  "channel_reply reply (TaskStep i) = reply i"
| "channel_reply reply _ = None"

fun channel_time :: "('w, 'j, 'p) event_source \<Rightarrow> ('i \<Rightarrow> instant option) \<Rightarrow> ('j, 'i) channel_input \<Rightarrow> instant option" where
  "channel_time src at (SourceStep j) = es_time src j"
| "channel_time src at StartupSend = None"
| "channel_time src at (TaskStep i) = at i"

text \<open>Every event sent is owed, also one that a full channel turned away.\<close>

fun channel_effect :: "('w, 'j, 'p) event_source \<Rightarrow> ('p, 'o) channel_output \<Rightarrow> client_effect" where
  "channel_effect src (FromSource p) = (if es_sent src p = None then Neutral else Takes)"
| "channel_effect src (StartupSent r) = Takes"
| "channel_effect src (FromTask x) = Neutral"

definition channel_phase :: "('s \<Rightarrow> client_phase) \<Rightarrow> ('w, 's) channel_state \<Rightarrow> client_phase" where
  "channel_phase phase s = phase (ch_task s)"

definition channel_owes :: "('s \<Rightarrow> bool) \<Rightarrow> ('w, 's) channel_state \<Rightarrow> bool" where
  "channel_owes gathers s \<longleftrightarrow> 0 < ch_queue s \<or> gathers (ch_task s)"

section \<open>What a step does to the channel\<close>

lemma owed_by_silent [simp]: "owed_by n (map (channel_effect src \<circ> FromTask) os) = n"
  by (induction os) auto

lemma owed_by_sends: "owed_by n (map (channel_effect src \<circ> FromSource) ps) = n + length (List.map_filter (es_sent src) ps)"
proof (induction ps arbitrary: n)
  case (Cons p ps)
  then show ?case by (cases "es_sent src p") (simp_all add: map_filter_simps)
qed (simp add: map_filter_simps)

text \<open>A send leaves something in the queue of a task that still receives.\<close>

lemma after_send_queue: "q \<le> after_send gone q" "0 < after_send False q"
  by (auto simp: after_send_def channel_try_send_def EVENT_CHANNEL_def)

lemma deliver_queue:
  "deliver gone q rs = Some q' \<Longrightarrow> q \<le> q' \<and> (\<not> gone \<and> rs \<noteq> [] \<longrightarrow> 0 < q')"
proof (induction gone q rs rule: deliver.induct)
  case (2 gone q r rs)
  then show ?case using after_send_queue(1) [of q gone] after_send_queue(2) [of q]
    by (fastforce split: if_splits)
qed simp

section \<open>The contract of the receiving task\<close>

text \<open>
  It submits for what it gathers, gathers what it receives, and is told the end of what it
  submitted. \<open>calm\<close> excludes wakes without a cause.
\<close>

locale channel_client =
  fixes step :: "('s, 'i, 'o) machine"
    and start :: 's
    and phase :: "'s \<Rightarrow> client_phase"
    and reply :: "'i \<Rightarrow> lane_reply option"
    and uses :: "'i \<Rightarrow> channel_use"
    and calm :: "'i \<Rightarrow> bool"
    and gathers :: "'s \<Rightarrow> bool"
  assumes start_away: "phase start = Away"
    and over_stays: "step s i = Some (s', os) \<Longrightarrow> phase s = Over \<Longrightarrow> phase s' = Over"
    and away_step: "step s i = Some (s', os) \<Longrightarrow> calm i \<Longrightarrow> phase s = Away \<Longrightarrow> phase s' \<noteq> Over \<Longrightarrow>
      reply i = None \<and> phase s' \<noteq> Accepted"
    and submitted_step: "step s i = Some (s', os) \<Longrightarrow> calm i \<Longrightarrow> phase s = Submitted \<Longrightarrow> phase s' \<noteq> Over \<Longrightarrow>
      (reply i = None \<and> phase s' = Submitted) \<or> (reply i = Some StartAccepted \<and> phase s' = Accepted) \<or>
      reply i = Some StartRefused"
    and accepted_step: "step s i = Some (s', os) \<Longrightarrow> calm i \<Longrightarrow> phase s = Accepted \<Longrightarrow> phase s' \<noteq> Over \<Longrightarrow>
      ((reply i = None \<or> reply i = Some RunStarted) \<and> phase s' = Accepted) \<or>
      ((\<exists>report. reply i = Some (RunFinished report)) \<and> phase s' \<noteq> Accepted) \<or> reply i = Some RunLost"
    and receive_step: "step s i = Some (s', os) \<Longrightarrow> calm i \<Longrightarrow> phase s' \<noteq> Over \<Longrightarrow> phase s' \<noteq> Submitted \<Longrightarrow>
      gathers s \<or> uses i = ReceiveOne \<or> (\<exists>n. uses i = ReceiveAll (Suc n)) \<Longrightarrow> gathers s'"

context channel_client
begin

lemma channel_cases:
  assumes "channel_step src step phase uses calm s i = Some (s', os)"
  obtains (source) j w ps q where "i = SourceStep j" "es_step src (ch_source s) j = Some (w, ps)" "os = map FromSource ps"
      "deliver (phase (ch_task s) = Over) (ch_queue s) (List.map_filter (es_sent src) ps) = Some q"
      "s' = s\<lparr>ch_source := w, ch_queue := q\<rparr>"
  | (startup) "i = StartupSend" "s' = s\<lparr>ch_queue := after_send (phase (ch_task s) = Over) (ch_queue s)\<rparr>"
      "os = [StartupSent (channel_try_send (phase (ch_task s) = Over) (ch_queue s))]"
  | (task) j d dos where "i = TaskStep j" "calm j" "can_use (es_ended src (ch_source s)) (ch_queue s) (uses j)"
      "step (ch_task s) j = Some (d, dos)" "s' = s\<lparr>ch_queue := after_use (ch_queue s) (uses j), ch_task := d\<rparr>"
      "os = map FromTask dos"
  using assms by (cases i) (auto simp: channel_step.simps split: if_splits option.splits)

lemma channel_debt:
  assumes "channel_step src step phase uses calm s i = Some (s', os)" "phase (ch_task s') \<noteq> Over"
    "n = 0 \<or> channel_owes gathers s" "0 < owed_by n (map (channel_effect src) os)"
  shows "channel_owes gathers s' \<or> phase (ch_task s') = Submitted"
  using assms(1)
proof (cases rule: channel_cases)
  case (source j w ps q)
  then show ?thesis using assms(2-4) deliver_queue [OF source(4)]
    by (auto simp: channel_owes_def owed_by_sends)
next
  case startup
  then show ?thesis using assms(2) after_send_queue(2) by (simp add: channel_owes_def)
next
  case (task j d dos)
  then have "channel_owes gathers s" using assms(3,4) by simp
  then show ?thesis using receive_step [OF task(4,2)] assms(2) task(3,5)
    by (cases "uses j"; cases "ch_queue s") (auto simp: channel_owes_def)
qed

end

sublocale channel_client < client: lane_client "channel_step src step phase uses calm" "channel_init w start" "channel_phase phase"
    "channel_reply reply" "channel_effect src" "channel_owes gathers" for src w
proof (unfold_locales, goal_cases)
  case 1
  show ?case by (simp add: channel_phase_def channel_init_def start_away)
next
  case (2 s i s' os)
  then show ?case by (cases rule: channel_cases [OF 2(1)]) (auto simp: channel_phase_def over_stays)
next
  case (3 s i s' os)
  then show ?case by (cases rule: channel_cases [OF 3(1)]) (auto simp: channel_phase_def away_step)
next
  case (4 s i s' os)
  then show ?case
    using submitted_step by (cases rule: channel_cases [OF 4(1)]) (force simp: channel_phase_def)+
next
  case (5 s i s' os)
  then show ?case
    using accepted_step by (cases rule: channel_cases [OF 5(1)]) (force simp: channel_phase_def)+
next
  case (6 s i s' os n)
  then show ?case using channel_debt by (simp add: channel_phase_def)
qed

end
