(* ===== verification/Event_Pipeline.thy ===== *)
theory Event_Pipeline
  imports Event_Channel Debouncer Resume_Source
begin

text \<open>
  The tasks of \<^verbatim>\<open>src/src/main.rs\<close> that submit commands, as clients of a lane: the debouncer and the
  runner of a resume source behind their event channels, instances of the contract of
  \<^verbatim>\<open>Event_Channel\<close>, and the runner of a filesystem source, an instance of that of \<^verbatim>\<open>Lane_Client\<close>. So
  none of them loses an event on the way to its command, whatever source is at the other end.
\<close>

section \<open>The debouncer\<close>

fun debounce_phase :: "debounce_state \<Rightarrow> client_phase" where
  "debounce_phase s = (case d_pc s of DStarting \<Rightarrow> Submitted | DRunning \<Rightarrow> Accepted | DStopped \<Rightarrow> Over | _ \<Rightarrow> Away)"

fun debounce_reply :: "debounce_input \<times> instant \<Rightarrow> lane_reply option" where
  "debounce_reply (DStartResult (Inr u), now) = Some StartAccepted"
| "debounce_reply (DStartResult (Inl e), now) = Some StartRefused"
| "debounce_reply (DFinished (Inr report), now) = Some (RunFinished report)"
| "debounce_reply (DFinished (Inl e), now) = Some RunLost"
| "debounce_reply _ = None"

fun debounce_uses :: "debounce_input \<times> instant \<Rightarrow> channel_use" where
  "debounce_uses (DRecv (Some u), now) = ReceiveOne"
| "debounce_uses (DRecv None, now) = ReceiveClosed"
| "debounce_uses (DDrained n, now) = ReceiveAll n"
| "debounce_uses _ = NoReceive"

definition debounce_gathers :: "debounce_state \<Rightarrow> bool" where
  "debounce_gathers s \<longleftrightarrow> collecting (d_pc s)"

lemma debounce_calm_step:
  assumes "debounce_step cfg s (i, now) = Some (s', os)" "no_false_wake (i, now)"
  obtains (stop) "d_pc s' = DStopped"
  | (take) "d_pc s = DWait" "i = DRecv (Some ())" "collecting (d_pc s')"
  | (gather) n where "collecting (d_pc s)" "i = DTimer \<or> i = DDrained n" "collecting (d_pc s') \<or> d_pc s' = DStarting"
  | (accepted) "d_pc s = DStarting" "i = DStartResult (Inr ())" "d_pc s' = DRunning"
  | (refused) e where "d_pc s = DStarting" "i = DStartResult (Inl e)" "d_pc s' = DDrainAfter"
  | (over) r where "d_pc s = DRunning" "i = DFinished r" "d_pc s' = DDrainAfter"
  | (again) n where "d_pc s = DDrainAfter" "i = DDrained n" "if n = 0 then d_pc s' = DWait else collecting (d_pc s')"
proof -
  have stop': "i = DShutdown ch \<Longrightarrow> asks_stop ch" for ch using assms(2) by simp
  have at: "debounce_at cfg now (s\<lparr>d_clock := now\<rparr>) i = Some (s', os)"
    using assms(1) by (simp split: if_splits)
  show thesis
  proof (cases "d_pc s")
    case DWait
    with at show ?thesis using stop' that(1,2)
      by (cases i) (auto simp: debounce_at.simps collecting_def enter_debounce_pc split: option.splits if_splits)
  next
    case (DDebouncing u)
    with at show ?thesis using stop' that(1,3)
      by (cases i) (auto simp: debounce_at.simps collecting_def split: if_splits)
  next
    case DDrainBefore
    with at show ?thesis using that(1,3)
      by (cases i) (auto simp: debounce_at.simps collecting_def submit_def split: option.splits)
  next
    case (DCooling u)
    with at show ?thesis using stop' that(1,3)
      by (cases i) (auto simp: debounce_at.simps collecting_def split: if_splits)
  next
    case DDrainCooled
    with at show ?thesis using that(1,3)
      by (cases i) (auto simp: debounce_at.simps collecting_def submit_def)
  next
    case DStarting
    show ?thesis
    proof (cases i)
      case (DStartResult r)
      with at DStarting show ?thesis using that(4,5) by (cases r) (auto simp: debounce_at.simps)
    qed (use at DStarting stop' that(1) in \<open>auto simp: debounce_at.simps\<close>)
  next
    case DRunning
    with at show ?thesis using stop' that(1,6) by (cases i) (auto simp: debounce_at.simps)
  next
    case DDrainAfter
    with at show ?thesis using that(7)
      by (cases i) (auto simp: debounce_at.simps collecting_def enter_debounce_pc split: if_splits)
  next
    case DStopped
    with at show ?thesis by (simp add: debounce_at.simps)
  qed
qed

lemma debounce_reply_finished:
  "debounce_reply (DFinished r, now) = Some (case r of Inr report \<Rightarrow> RunFinished report | Inl e \<Rightarrow> RunLost)"
  by (cases r) auto

interpretation debounce_client: channel_client "debounce_step cfg" debounce_init debounce_phase debounce_reply
    debounce_uses no_false_wake debounce_gathers for cfg
proof (unfold_locales, goal_cases)
  case 1
  show ?case by (simp add: debounce_init_def)
next
  case (2 s i s' os)
  then show ?case by (cases i) (auto simp: debounce_at.simps split: debounce_pc.splits if_splits)
next
  case (3 s i s' os)
  obtain j now where i: "i = (j, now)" by fastforce
  from 3 show ?case unfolding i
    by (cases rule: debounce_calm_step) (auto simp: collecting_def split: debounce_pc.splits if_splits)
next
  case (4 s i s' os)
  obtain j now where i: "i = (j, now)" by fastforce
  from 4 show ?case unfolding i
    by (cases rule: debounce_calm_step) (auto simp: collecting_def split: debounce_pc.splits if_splits)
next
  case (5 s i s' os)
  obtain j now where i: "i = (j, now)" by fastforce
  from 5 show ?case unfolding i
    by (cases rule: debounce_calm_step) (auto simp: collecting_def debounce_reply_finished split: sum.splits debounce_pc.splits if_splits)
next
  case (6 s i s' os)
  obtain j now where i: "i = (j, now)" by fastforce
  from 6 show ?case unfolding i debounce_gathers_def
    by (cases rule: debounce_calm_step) (auto simp: collecting_def split: debounce_pc.splits if_splits)
qed

section \<open>The runner of a resume source\<close>

fun resume_phase :: "resume_pc \<Rightarrow> client_phase" where
  "resume_phase pc = (case pc of RStarting \<Rightarrow> Submitted | RFinishing \<Rightarrow> Accepted | ROver \<Rightarrow> Over | RPanicked \<Rightarrow> Over | _ \<Rightarrow> Away)"

fun resume_reply :: "resume_input \<times> instant \<Rightarrow> lane_reply option" where
  "resume_reply (RsStartResult (Inr u), now) = Some StartAccepted"
| "resume_reply (RsStartResult (Inl e), now) = Some StartRefused"
| "resume_reply (RsFinished (Inr report), now) = Some (RunFinished report)"
| "resume_reply (RsFinished (Inl e), now) = Some RunLost"
| "resume_reply _ = None"

fun resume_uses :: "resume_input \<times> instant \<Rightarrow> channel_use" where
  "resume_uses (RsEvent (Some u), now) = ReceiveOne"
| "resume_uses (RsEvent None, now) = ReceiveClosed"
| "resume_uses (RsDrained n, now) = ReceiveAll n"
| "resume_uses _ = NoReceive"

definition resume_gathers :: "resume_pc \<Rightarrow> bool" where
  "resume_gathers pc \<longleftrightarrow> (\<exists>u. pc = RQuiet u) \<or> pc = RQuietDrain"

lemma enter_quiet_gathers:
  "resume_gathers (settle_until cfg now) \<or> settle_until cfg now = RPanicked"
  "resume_gathers (enter_quiet cfg now) \<or> enter_quiet cfg now = RPanicked"
  by (auto simp: enter_quiet_def settle_until_def resume_gathers_def split: option.splits)

text \<open>The shutdown channel wakes the runner only to stop it; its event channel may close.\<close>

fun resume_calm :: "resume_input \<times> instant \<Rightarrow> bool" where
  "resume_calm (RsShutdown changed, now) = asks_stop changed"
| "resume_calm _ = True"

lemma resume_calm_step:
  assumes "resume_step cfg pc (i, now) = Some (pc', os)" "resume_calm (i, now)"
  obtains (stop) "resume_phase pc' = Over"
  | (take) "pc = RWait" "i = RsEvent (Some ())" "resume_gathers pc'"
  | (gather) u n where "resume_gathers pc" "i = RsTimer \<or> i = RsEvent u \<or> i = RsDrained n" "resume_gathers pc' \<or> pc' = RStarting"
  | (accepted) "pc = RStarting" "i = RsStartResult (Inr ())" "pc' = RFinishing"
  | (refused) e where "pc = RStarting" "i = RsStartResult (Inl e)" "pc' = RDrain"
  | (over) r where "pc = RFinishing" "i = RsFinished r" "pc' = RDrain"
  | (again) n where "pc = RDrain" "i = RsDrained n" "if n = 0 then pc' = RWait else resume_gathers pc'"
proof -
  have stop': "i = RsShutdown ch \<Longrightarrow> asks_stop ch" for ch using assms(2) by simp
  note quiet = enter_quiet_gathers [of cfg now]
  show thesis
  proof (cases pc)
    case RWait
    with assms(1) show ?thesis using stop' quiet that(1,2)
      by (cases i) (auto split: option.splits if_splits)
  next
    case (RQuiet u)
    then have g: "resume_gathers pc" by (simp add: resume_gathers_def)
    from RQuiet assms show ?thesis using quiet that(1) that(3) [OF g]
      by (cases "(cfg, now, u, i)" rule: wait_for_quiet.cases) (auto simp: resume_submit_def split: if_splits)
  next
    case RQuietDrain
    then have g: "resume_gathers pc" by (simp add: resume_gathers_def)
    from RQuietDrain assms(1) show ?thesis using that(3) [OF g] by (cases i) (auto simp: resume_submit_def)
  next
    case RStarting
    show ?thesis
    proof (cases i)
      case (RsStartResult r)
      with assms(1) RStarting show ?thesis using that(4,5) by (cases r) auto
    qed (use assms(1) RStarting stop' that(1) in auto)
  next
    case RFinishing
    with assms(1) show ?thesis using stop' that(1,6) by (cases i) auto
  next
    case RDrain
    with assms(1) show ?thesis using quiet(2) that(1,7) by (cases i) (auto split: if_splits)
  qed (use assms(1) in auto)
qed

lemma resume_reply_finished:
  "resume_reply (RsFinished r, now) = Some (case r of Inr report \<Rightarrow> RunFinished report | Inl e \<Rightarrow> RunLost)"
  by (cases r) auto

interpretation resume_client: channel_client "resume_step cfg" RWait resume_phase resume_reply
    resume_uses resume_calm resume_gathers for cfg
proof (unfold_locales, goal_cases)
  case 1
  show ?case by simp
next
  case (2 s i s' os)
  then show ?case by (cases i) (auto split: resume_pc.splits)
next
  case (3 s i s' os)
  obtain j now where i: "i = (j, now)" by fastforce
  from 3 show ?case unfolding i
    by (cases rule: resume_calm_step) (auto simp: resume_gathers_def split: if_splits)
next
  case (4 s i s' os)
  obtain j now where i: "i = (j, now)" by fastforce
  from 4 show ?case unfolding i
    by (cases rule: resume_calm_step) (auto simp: resume_gathers_def split: if_splits)
next
  case (5 s i s' os)
  obtain j now where i: "i = (j, now)" by fastforce
  from 5 show ?case unfolding i
    by (cases rule: resume_calm_step) (auto simp: resume_gathers_def resume_reply_finished split: sum.splits if_splits)
next
  case (6 s i s' os)
  obtain j now where i: "i = (j, now)" by fastforce
  from 6 show ?case unfolding i
    by (cases rule: resume_calm_step) (auto simp: resume_gathers_def split: if_splits)
qed

section \<open>The runner of a filesystem source\<close>

fun fs_phase :: "fs_state \<Rightarrow> client_phase" where
  "fs_phase s = (case fr_pc s of
     FSubmitting k d events_open \<Rightarrow> Submitted
   | FRunning k d events_open own \<Rightarrow> Accepted
   | FOver \<Rightarrow> Over
   | FPanicked \<Rightarrow> Over
   | _ \<Rightarrow> Away)"

fun fs_reply :: "fs_input \<times> instant \<Rightarrow> lane_reply option" where
  "fs_reply (FsStartResult (Inr u), now) = Some StartAccepted"
| "fs_reply (FsStartResult (Inl e), now) = Some StartRefused"
| "fs_reply (FsLifecycle (Some Started), now) = Some RunStarted"
| "fs_reply (FsLifecycle (Some (Finished report)), now) = Some (RunFinished report)"
| "fs_reply (FsLifecycle None, now) = Some RunLost"
| "fs_reply _ = None"

text \<open>
  An event that is not suppressed and a failed run of a batch are owed a check; a check of the
  state settles them, and what it submits is owed a start.
\<close>

fun fs_effect :: "fs_output \<Rightarrow> client_effect" where
  "fs_effect (FoEvent t False) = Takes"
| "fs_effect (FoRead t CheckRead) = Checks"
| "fs_effect (FoSubmit t k) = Submits"
| "fs_effect (FoCommandOver t BatchTrigger False) = Takes"
| "fs_effect _ = Neutral"

definition fs_owes :: "fs_state \<Rightarrow> bool" where
  "fs_owes s \<longleftrightarrow> (case fr_pc s of
     FSettling b due \<Rightarrow> True
   | FReading d events_open \<Rightarrow> dt_first d \<noteq> None
   | FSubmitting k d events_open \<Rightarrow> dt_first d \<noteq> None
   | FRunning k d events_open own \<Rightarrow> dt_first d \<noteq> None
   | FSelfSettle until d events_open \<Rightarrow> dt_first d \<noteq> None
   | FRebaseline d events_open \<Rightarrow> dt_first d \<noteq> None
   | _ \<Rightarrow> False)"

text \<open>Where an operation that does not wait for a command can leave the source, from a debt \<open>n\<close>.\<close>

definition fs_pays :: "nat \<Rightarrow> fs_state \<times> fs_output list \<Rightarrow> bool" where
  "fs_pays n r \<longleftrightarrow> fs_phase (fst r) \<noteq> Accepted \<and> (fs_phase (fst r) = Away \<longrightarrow>
     0 < owed_by n (map fs_effect (snd r)) \<longrightarrow> fs_owes (fst r))"

lemma owed_record_event [simp]:
  "owed_by n (map fs_effect (record_event cfg now suppressed)) = (if suppressed then n else Suc n)"
  by (auto simp: record_event_def)

lemma fs_over_pays [simp]: "fs_pays n (fs_goto FOver s, os)"
  by (simp add: fs_pays_def fs_goto_def)

lemma fs_trigger_pays: "fs_pays n (fs_trigger k now s)"
  by (simp add: fs_pays_def fs_trigger_def fs_goto_def)

lemma fs_check_now_pays: "fs_pays n (fs_check_now cfg now s)"
  using fs_trigger_pays by (auto simp: fs_check_now_def) (simp add: fs_pays_def fs_goto_def)

lemma fs_settle_pays: "fs_pays n (fs_settle cfg now b s)"
  using fs_check_now_pays
  by (auto simp: fs_settle_def Let_def split: option.splits) (simp_all add: fs_pays_def fs_goto_def fs_owes_def)

lemma fs_done_pays: "n = 0 \<or> dt_first d \<noteq> None \<Longrightarrow> fs_pays n (fs_done cfg now d s)"
  by (auto simp: fs_done_def into_operation_result_def into_batch_def fs_settle_pays split: option.splits)
     (simp add: fs_pays_def fs_goto_def)

lemma fs_pays_append [simp]: "fs_pays n (apsnd (append os) r) = fs_pays (owed_by n (map fs_effect os)) r"
  by (simp add: fs_pays_def)

lemma fs_pays_Cons [simp]: "fs_pays n (apsnd (Cons x) r) = fs_pays (owed_by n [fs_effect x]) r"
  by (cases "fs_effect x") (simp_all add: fs_pays_def)

lemma fs_rebaseline_pays: "n = 0 \<or> dt_first d \<noteq> None \<Longrightarrow> fs_pays n (fs_rebaseline cfg now d s)"
  using fs_done_pays by (auto simp: fs_rebaseline_def) (auto simp: fs_pays_def fs_goto_def fs_owes_def)

lemma fs_after_own_pays: "n = 0 \<or> dt_first d \<noteq> None \<Longrightarrow> fs_pays n (settle_after_own_command cfg now d s)"
  using fs_rebaseline_pays by (auto simp: settle_after_own_command_def) (auto simp: fs_pays_def fs_goto_def fs_owes_def)

lemma fs_failed_pays: "n = 0 \<or> dt_first d \<noteq> None \<Longrightarrow> fs_pays n (fs_command_failed cfg k now d s)"
  by (cases k) (auto simp: fs_command_failed_def note_now_def intro!: fs_done_pays)

lemma fs_startup_pays: "fs_pays n (run_on_startup_trigger now s)"
  by (simp add: run_on_startup_trigger_def fs_trigger_pays)

lemma compare_state_pays: "n = 0 \<or> dt_first d \<noteq> None \<Longrightarrow> fs_pays n (compare_state cfg now s d r)"
  using fs_done_pays fs_trigger_pays
  by (cases "(cfg, now, s, d, r)" rule: compare_state.cases) auto

lemma accept_state_pays: "n = 0 \<or> dt_first d \<noteq> None \<Longrightarrow> fs_pays n (accept_state cfg now s d r)"
  using fs_done_pays
  by (cases "(cfg, now, s, d, r)" rule: accept_state.cases) auto

lemma command_running_pays:
  "n = 0 \<or> dt_first d \<noteq> None \<Longrightarrow> l \<noteq> Some Started \<Longrightarrow> fs_pays n (command_running cfg now s k d events_open own l)"
  using fs_after_own_pays fs_failed_pays
  by (cases "(cfg, now, s, k, d, events_open, own, l)" rule: command_running.cases) auto

text \<open>The collecting loops keep their suspension point and its tracker.\<close>

lemma fs_top_pays [simp]: "fs_pays 0 (fs_goto FTop s, send_initial_ready s')" "fs_pays 0 (fs_goto FTop s, [])"
    "fs_pays 0 (fs_goto FRecv s, [])"
  by (simp_all add: fs_pays_def fs_goto_def send_initial_ready_def)

lemma recv_work_pays: "recv_work cfg now s i = Some r \<Longrightarrow> fs_pays 0 r"
  by (cases "(cfg, now, s, i)" rule: recv_work.cases)
     (auto simp: fs_settle_pays fs_startup_pays split: if_splits option.splits bool.splits)

lemma initial_baseline_pays: "fs_pays 0 (fs_initial_baseline r s)"
  by (cases "(r, s)" rule: fs_initial_baseline.cases) (auto simp: fs_pays_def fs_goto_def send_initial_ready_def)

lemma fs_begin_pays: "fs_pays 0 (fs_begin cfg now s)"
  by (auto simp: fs_begin_def fs_pays_def fs_goto_def send_initial_ready_def)

lemma settled_batch_pays: "wait_for_settled_batch cfg now s b due i = Some r \<Longrightarrow> fs_pays n r"
  by (cases "(cfg, now, s, b, due, i)" rule: wait_for_settled_batch.cases)
     (auto simp: fs_settle_pays fs_check_now_pays split: if_splits)

text \<open>The collecting loops keep the source's place and its debt.\<close>

definition fs_keeps :: "nat \<Rightarrow> fs_state \<Rightarrow> fs_state \<times> fs_output list \<Rightarrow> bool" where
  "fs_keeps n s r \<longleftrightarrow> fs_phase (fst r) = Over \<or> (fs_phase (fst r) = fs_phase s \<and>
     (0 < owed_by n (map fs_effect (snd r)) \<longrightarrow> fs_owes (fst r)))"

lemma collecting_events_keeps:
  assumes "collecting_events cfg now s back suppress d events_open i = Some r" "n = 0 \<or> dt_first d \<noteq> None"
    "\<And>d' open'. fs_phase (fs_goto (back d' open') s) = fs_phase s"
    "\<And>d' open'. fs_owes (fs_goto (back d' open') s) \<longleftrightarrow> dt_first d' \<noteq> None"
  shows "fs_keeps n s r \<and> fs_reply (i, now) = None"
  using assms
  by (cases "(cfg, now, s, back, suppress, d, events_open, i)" rule: collecting_events.cases)
     (auto simp: fs_keeps_def note_now_def fs_goto_def split: if_splits)

text \<open>Every step, by what it does to the source's place and its debt.\<close>

definition fs_moves :: "nat \<Rightarrow> fs_state \<Rightarrow> lane_reply option \<Rightarrow> fs_state \<times> fs_output list \<Rightarrow> bool" where
  "fs_moves n s reply r \<longleftrightarrow> (case fs_phase s of
     Away \<Rightarrow> reply = None \<and> (fs_keeps n s r \<or> fs_pays n r)
   | Submitted \<Rightarrow> (reply = None \<and> fs_keeps n s r) \<or> (reply = Some StartRefused \<and> fs_pays n r) \<or>
       (reply = Some StartAccepted \<and> fs_phase (fst r) = Accepted \<and> (0 < owed_by n (map fs_effect (snd r)) \<longrightarrow> fs_owes (fst r)))
   | Accepted \<Rightarrow> ((reply = None \<or> reply = Some RunStarted) \<and> fs_keeps n s r) \<or>
       ((reply = Some RunLost \<or> (\<exists>report. reply = Some (RunFinished report))) \<and> fs_pays n r)
   | Over \<Rightarrow> False)"

lemma fs_step_moves:
  assumes "fs_step cfg s (i, now) = Some r" "n = 0 \<or> fs_owes s"
  shows "fs_moves n s (fs_reply (i, now)) r"
proof (cases "fr_pc s")
  case FStart
  with assms show ?thesis by (cases i) (auto simp: fs_step.simps fs_moves_def fs_begin_pays fs_owes_def)
next
  case FInitRead
  with assms show ?thesis by (cases i) (auto simp: fs_step.simps fs_moves_def initial_baseline_pays fs_owes_def)
next
  case FTop
  with assms show ?thesis
    by (cases i) (auto simp: fs_step.simps fs_moves_def recv_work_top_def fs_startup_pays fs_owes_def)
next
  case FRecv
  with assms(1) have w: "recv_work cfg now s i = Some r" by (simp add: fs_step.simps)
  then have "fs_reply (i, now) = None" by (cases i) auto
  with recv_work_pays [OF w] FRecv assms(2) show ?thesis by (simp add: fs_moves_def fs_owes_def)
next
  case (FSettling b due)
  with assms(1) have w: "wait_for_settled_batch cfg now s b due i = Some r" by (simp add: fs_step.simps)
  then have "fs_reply (i, now) = None" by (cases i) auto
  with settled_batch_pays [OF w] FSettling show ?thesis by (simp add: fs_moves_def)
next
  case (FReading d events_open)
  with assms(2) have d: "n = 0 \<or> dt_first d \<noteq> None" by (simp add: fs_owes_def)
  show ?thesis
  proof (cases "\<exists>x. i = FsRead x")
    case False
    with assms(1) FReading have "collecting_events cfg now s FReading False d events_open i = Some r"
      by (cases i) (auto simp: fs_step.simps fs_points)
    from collecting_events_keeps [OF this d] FReading show ?thesis by (simp add: fs_moves_def fs_goto_def fs_owes_def)
  qed (use assms(1) FReading compare_state_pays [OF d] in \<open>auto simp: fs_step.simps fs_points fs_moves_def\<close>)
next
  case (FSubmitting k d events_open)
  with assms(2) have d: "n = 0 \<or> dt_first d \<noteq> None" by (simp add: fs_owes_def)
  show ?thesis
  proof (cases "\<exists>x. i = FsStartResult x")
    case False
    with assms(1) FSubmitting have "collecting_events cfg now s (FSubmitting k) False d events_open i = Some r"
      by (cases i) (auto simp: fs_step.simps fs_points)
    from collecting_events_keeps [OF this d] FSubmitting show ?thesis by (simp add: fs_moves_def fs_goto_def fs_owes_def)
  next
    case True
    then obtain x where "i = FsStartResult x" by blast
    with assms(1) FSubmitting fs_failed_pays [OF d] d show ?thesis
      by (cases x) (auto simp: fs_step.simps fs_points fs_moves_def fs_goto_def fs_owes_def)
  qed
next
  case (FRunning k d events_open own)
  with assms(2) have d: "n = 0 \<or> dt_first d \<noteq> None" by (simp add: fs_owes_def)
  show ?thesis
  proof (cases "\<exists>x. i = FsLifecycle x")
    case False
    with assms(1) FRunning have "collecting_events cfg now s (\<lambda>d' open'. FRunning k d' open' own) own d events_open i = Some r"
      by (cases i) (auto simp: fs_step.simps fs_points)
    from collecting_events_keeps [OF this d] FRunning show ?thesis by (simp add: fs_moves_def fs_goto_def fs_owes_def)
  next
    case True
    then obtain x where x: "i = FsLifecycle x" by blast
    with assms(1) FRunning have r: "r = command_running cfg now s k d events_open own x" by (simp add: fs_step.simps fs_points)
    show ?thesis
    proof (cases "x = Some Started")
      case True
      with x r d FRunning show ?thesis by (auto simp: fs_moves_def fs_keeps_def fs_goto_def fs_owes_def)
    next
      case False
      from command_running_pays [OF d this] have p: "fs_pays n r" by (simp add: r)
      with False x FRunning show ?thesis by (cases x) (auto simp: fs_moves_def intro: command_lifecycle.exhaust)
    qed
  qed
next
  case (FSelfSettle until d events_open)
  with assms(2) have d: "n = 0 \<or> dt_first d \<noteq> None" by (simp add: fs_owes_def)
  show ?thesis
  proof (cases "i = FsTimer")
    case False
    with assms(1) FSelfSettle have "collecting_events cfg now s (FSelfSettle until) True d events_open i = Some r"
      by (cases i) (auto simp: fs_step.simps fs_points)
    from collecting_events_keeps [OF this d] FSelfSettle show ?thesis by (simp add: fs_moves_def fs_goto_def fs_owes_def)
  qed (use assms(1) FSelfSettle fs_rebaseline_pays [OF d] in \<open>auto simp: fs_step.simps fs_points fs_moves_def split: if_splits\<close>)
next
  case (FRebaseline d events_open)
  with assms(2) have d: "n = 0 \<or> dt_first d \<noteq> None" by (simp add: fs_owes_def)
  show ?thesis
  proof (cases "\<exists>x. i = FsRead x")
    case False
    with assms(1) FRebaseline have "collecting_events cfg now s FRebaseline True d events_open i = Some r"
      by (cases i) (auto simp: fs_step.simps fs_points)
    from collecting_events_keeps [OF this d] FRebaseline show ?thesis by (simp add: fs_moves_def fs_goto_def fs_owes_def)
  qed (use assms(1) FRebaseline accept_state_pays [OF d] in \<open>auto simp: fs_step.simps fs_points fs_moves_def\<close>)
qed (use assms in \<open>auto simp: fs_step.simps\<close>)

interpretation fs_client: lane_client "fs_step cfg" "fs_init ready startup" fs_phase fs_reply fs_effect fs_owes
  for cfg ready startup
proof (unfold_locales, goal_cases)
  case 1
  show ?case by (simp add: fs_init_def)
next
  case (2 s i s' os)
  then show ?case by (cases i) (auto simp: fs_step.simps split: fs_pc.splits)
next
  case (3 s i s' os)
  then show ?case using fs_step_moves [of cfg s "fst i" "snd i" "(s', os)" 0]
    by (auto simp: fs_moves_def fs_keeps_def fs_pays_def)
next
  case (4 s i s' os)
  then show ?case using fs_step_moves [of cfg s "fst i" "snd i" "(s', os)" 0]
    by (auto simp: fs_moves_def fs_keeps_def fs_pays_def)
next
  case (5 s i s' os)
  then show ?case using fs_step_moves [of cfg s "fst i" "snd i" "(s', os)" 0]
    by (auto simp: fs_moves_def fs_keeps_def fs_pays_def)
next
  case (6 s i s' os n)
  then show ?case using fs_step_moves [of cfg s "fst i" "snd i" "(s', os)" n]
    by (cases "fs_phase s'"; cases "fs_phase s") (auto simp: fs_moves_def fs_keeps_def fs_pays_def)
qed

section \<open>The composed tasks\<close>

text \<open>A mailbox or Gmail source: watcher, event channel, debouncer and the lane of its command.\<close>

definition debounce_pipeline where
  "debounce_pipeline src d = linked_step (channel_step src (debounce_step d) debounce_phase debounce_uses no_false_wake)
     (channel_reply debounce_reply)"

definition debounce_pipeline_init where
  "debounce_pipeline_init w = linked_init (channel_init w debounce_init)"

text \<open>A resume source: listener, event channel, runner and lane.\<close>

definition resume_pipeline where
  "resume_pipeline src cfg = linked_step (channel_step src (resume_step cfg) resume_phase resume_uses resume_calm)
     (channel_reply resume_reply)"

definition resume_pipeline_init where
  "resume_pipeline_init w = linked_init (channel_init w RWait)"

text \<open>A filesystem source: runner and lane; its channel is the choice of its inputs.\<close>

definition fs_pipeline where
  "fs_pipeline cfg = linked_step (fs_step cfg) fs_reply"

definition fs_pipeline_init where
  "fs_pipeline_init ready startup = linked_init (fs_init ready startup)"

end
