(* ===== verification/Lane_Progress.thy ===== *)
theory Lane_Progress
  imports Lane_Client
begin

text \<open>
  What is on its way can arrive: a lane can always be brought to rest, and a client that owes its
  command a start can always reach one, by the completions the environment may choose (a timer,
  the end of a run, the receipt of a request), each at a time the clock can show: the continuations
  of this theory start at the present time, never go back, and end within a bound that the longest
  configured delay determines. The only obstacle is arithmetic: a delay that ends past the clock's
  limit panics a task, so the bound must lie below that limit.
\<close>

section \<open>A lane comes to rest\<close>

text \<open>The time at which an input of a lane is observed.\<close>

fun lane_time :: "lane_input \<Rightarrow> instant option" where
  "lane_time (LBoot now) = Some now"
| "lane_time (LShutdown changed now) = Some now"
| "lane_time (LRequest r now) = Some now"
| "lane_time (LTimer now) = Some now"
| "lane_time (LDone result now requests stop) = Some now"
| "lane_time LExecutorPanics = None"

text \<open>No interval of the lane is longer than \<open>D\<close>.\<close>

definition lane_within :: "duration \<Rightarrow> lane_config \<Rightarrow> bool" where
  "lane_within D cfg \<longleftrightarrow> (\<forall>c cmd. ln_commands cfg c = Some cmd \<longrightarrow> lc_min_interval cmd \<le> D)"

text \<open>What the lane remembers of finished runs is past.\<close>

definition lane_timed :: "instant \<Rightarrow> lane_state \<Rightarrow> bool" where
  "lane_timed now s \<longleftrightarrow> (\<forall>c f. l_last_finished s c = Some f \<longrightarrow> f \<le> now)"

definition pending_commands :: "lane_state \<Rightarrow> string set" where
  "pending_commands s = fst ` set (pr_view (l_pending s))"

lemma lane_timed_later: "lane_timed now s \<Longrightarrow> now \<le> t \<Longrightarrow> lane_timed t s"
  by (fastforce simp: lane_timed_def)

lemma dispatch_finished [simp]: "l_last_finished (fst (dispatch cfg now s)) = l_last_finished s"
proof (induction cfg now s rule: dispatch.induct)
  case (1 cfg now s)
  then show ?case
    by (auto simp: dispatch.simps [of cfg now s] begin_run_def split: prod.split option.split interval_wait.split)
qed

lemma dispatch_keeps: "dispatch cfg now s = (s', os) \<Longrightarrow> l_last_finished s' = l_last_finished s"
  using dispatch_finished [of cfg now s] by simp

lemma lane_timed_step:
  assumes "lane_timed now s" "lane_step cfg s i = Some (s', os)" "\<And>v. lane_time i = Some v \<Longrightarrow> now = v"
  shows "lane_timed now s'"
proof -
  have "l_last_finished s' = l_last_finished s \<or> (\<exists>c. l_last_finished s' = (l_last_finished s)(c \<mapsto> now))"
    using assms(2,3)
    by (cases i; cases "l_pc s")
       (auto simp: lane_step.simps lane_stop_def begin_run_def Let_def dest!: dispatch_keeps split: if_splits option.splits prod.splits)
  with assms(1) show ?thesis by (auto simp: lane_timed_def split: if_splits)
qed

text \<open>
  A dispatch whose commands have all been over since \<open>A\<close> picks one that nobody else waits for, to be
  run within \<open>D\<close> of \<open>A\<close>.
\<close>

lemma dispatch_next:
  assumes "pr_ok (l_pending s)" "lane_cfg_ok cfg" "dispatch cfg now s = (s', os)" "lane_within D cfg" "A + D < instant_limit"
    "\<forall>c \<in> pending_commands s. \<forall>f. l_last_finished s c = Some f \<longrightarrow> f \<le> A"
  shows "l_pc s' \<noteq> LPanicked \<and> pending_commands s' \<subseteq> pending_commands s \<and>
    (l_pc s' = LIdle \<or> length (pr_view (l_pending s')) < length (pr_view (l_pending s))) \<and>
    (case l_pc s' of
       LRunning cmd ws \<Rightarrow> lc_name cmd \<notin> pending_commands s'
     | LCooling cmd ws u \<Rightarrow> lc_name cmd \<notin> pending_commands s' \<and> u \<le> A + D
     | _ \<Rightarrow> True)"
  using assms
proof (induction cfg now s arbitrary: s' os rule: dispatch.induct)
  case (1 cfg now s)
  from 1(2) show ?case
  proof (cases rule: pq.pop_cases)
    case (none q')
    then have "s' = s\<lparr>l_pc := LIdle, l_pending := q'\<rparr>"
      using 1(4) pq.is_empty_iff [of q'] by (simp add: dispatch.simps [of cfg now s])
    with none show ?thesis by (simp add: pending_commands_def)
  next
    case (some name ws q1 q2)
    note step = 1(4) [unfolded dispatch.simps [of cfg now s]]
    have left: "pending_commands (s\<lparr>l_pending := q2\<rparr>) \<subseteq> pending_commands s" "name \<notin> fst ` set (pr_view q2)"
      "name \<in> pending_commands s"
      using some(4) pq.view_distinct [OF 1(2)] by (auto simp: pending_commands_def)
    show ?thesis
    proof (cases "ln_commands cfg name")
      case None
      obtain s1 o1 where d: "dispatch cfg now (s\<lparr>l_pending := q2\<rparr>) = (s1, o1)" by fastforce
      have "s' = s1" using step some None d by simp
      moreover have "pr_ok (l_pending (s\<lparr>l_pending := q2\<rparr>))" using some by simp
      moreover have "\<forall>c \<in> pending_commands (s\<lparr>l_pending := q2\<rparr>). \<forall>f. l_last_finished (s\<lparr>l_pending := q2\<rparr>) c = Some f \<longrightarrow> f \<le> A"
        using 1(7) left(1) by auto
      ultimately show ?thesis
        using 1(1) [OF some(1) [symmetric] refl some(2) [symmetric] None _ 1(3) d 1(5,6)] some(4) left(1) by auto
    next
      case (Some cmd)
      then have name: "lc_name cmd = name" "lc_min_interval cmd \<le> D"
        using 1(3,5) by (auto simp: lane_cfg_ok_def lane_within_def)
      have wait: "interval_wait cmd (l_last_finished s) now \<noteq> IntervalOverflow"
        "interval_wait cmd (l_last_finished s) now = WaitUntil u \<Longrightarrow> u \<le> A + D" for u
        using name 1(6,7) left(3)
        by (fastforce simp: interval_wait_def instant_add_def split: option.splits if_splits)+
      then show ?thesis using step some Some name left
        by (cases "interval_wait cmd (l_last_finished s) now")
           (auto simp: begin_run_def pending_commands_def)
    qed
  qed
qed

definition lane_work :: "lane_state \<Rightarrow> nat" where
  "lane_work s = 2 * length (pr_view (l_pending s)) + (case l_pc s of LRunning cmd ws \<Rightarrow> 1 | LCooling cmd ws t \<Rightarrow> 2 | _ \<Rightarrow> 0)"

definition lane_at_rest :: "lane_state \<Rightarrow> bool" where
  "lane_at_rest s \<longleftrightarrow> l_pc s = LIdle \<and> held s = []"

lemma at_rest_not_final: "lane_at_rest s \<Longrightarrow> \<not> lane_final s"
  by (simp add: lane_at_rest_def lane_final_def)

text \<open>
  A lane at time \<open>t\<close> on its way to rest at \<open>A + D\<close>: only a command that no request waits for may
  have been over since \<open>A\<close>.
\<close>

definition draining :: "instant \<Rightarrow> duration \<Rightarrow> instant \<Rightarrow> lane_state \<Rightarrow> bool" where
  "draining A D t s \<longleftrightarrow> t \<le> A + D \<and>
     (\<forall>c \<in> pending_commands s. \<forall>f. l_last_finished s c = Some f \<longrightarrow> f \<le> A) \<and>
     (case l_pc s of
        LRunning cmd ws \<Rightarrow> lc_name cmd \<in> pending_commands s \<longrightarrow> t \<le> A
      | LCooling cmd ws u \<Rightarrow> u \<le> A + D \<and> (lc_name cmd \<in> pending_commands s \<longrightarrow> t \<le> A \<and> u \<le> A)
      | _ \<Rightarrow> True)"

lemma timed_draining:
  assumes "lane_timed now s" "lane_inv cfg s" "lane_within D cfg"
  shows "draining (now + D) D now s"
proof (cases "l_pc s")
  case (LCooling cmd ws u)
  with assms(2) obtain f where "ln_commands cfg (lc_name cmd) = Some cmd" "l_last_finished s (lc_name cmd) = Some f" "u = f + lc_min_interval cmd"
    by (auto simp: lane_inv_def settled_def)
  with assms(1,3) have "u \<le> now + D" by (auto simp: lane_timed_def lane_within_def intro: add_mono)
  with assms(1) LCooling show ?thesis by (auto simp: draining_def lane_timed_def intro: trans_le_add1)
qed (use assms(1) in \<open>auto simp: draining_def lane_timed_def intro: trans_le_add1\<close>)

text \<open>A dispatch leaves such a lane at rest or with less work.\<close>

lemma dispatch_works:
  assumes "pr_ok (l_pending s)" "lane_cfg_ok cfg" "dispatch cfg t s = (s', os)" "lane_within D cfg" "A + D < instant_limit"
    "\<forall>c \<in> pending_commands s. \<forall>f. l_last_finished s c = Some f \<longrightarrow> f \<le> A" "t \<le> A + D"
  shows "lane_inv cfg s' \<and> draining A D t s' \<and> \<not> lane_final s' \<and>
    (l_pc s' = LIdle \<or> lane_work s' \<le> 2 * length (pr_view (l_pending s)))"
proof -
  note spec = dispatch_spec [OF assms(1-3)]
  then have settled: "settled cfg s'" and same: "l_last_finished s' = l_last_finished s" and ok: "pr_ok (l_pending s')" by blast+
  note go = dispatch_next [OF assms(1-6)]
  have "lane_inv cfg s'" using settled ok by (auto simp: lane_inv_def settled_def split: lane_pc.splits)
  moreover have "\<not> lane_final s'" using settled go by (auto simp: settled_def lane_final_def)
  moreover have "draining A D t s'" using go assms(6,7) same by (auto simp: draining_def split: lane_pc.splits)
  moreover have "l_pc s' = LIdle \<or> lane_work s' \<le> 2 * length (pr_view (l_pending s))"
    using go by (auto simp: lane_work_def split: lane_pc.splits)
  ultimately show ?thesis by blast
qed

lemma lane_drains:
  assumes "lane_inv cfg s" "lane_cfg_ok cfg" "lane_within D cfg" "A + D < instant_limit" "draining A D t s" "\<not> lane_final s"
  shows "\<exists>ins s' os. run_machine (lane_step cfg) s ins = Some (s', os) \<and> lane_at_rest s' \<and>
    paced lane_time t ins (A + D) \<and> list_all (\<lambda>i. arrivals i = []) ins"
  using assms(1,5,6)
proof (induction "lane_work s" arbitrary: s t rule: less_induct)
  case less
  have ok: "pr_ok (l_pending s)" using less.prems(1) by (simp add: lane_inv_def)
  have before: "t \<le> A + D" and over: "\<forall>c \<in> pending_commands s. \<forall>f. l_last_finished s c = Some f \<longrightarrow> f \<le> A"
    using less.prems(2) by (simp_all add: draining_def)
  have rest: "lane_at_rest s'" if "l_pc s' = LIdle" "lane_inv cfg s'" for s'
    using that by (simp add: lane_at_rest_def held_def lane_inv_def settled_def queued_def)
  have continue: ?case if "lane_step cfg s i = Some (s1, os)" "arrivals i = []" "lane_time i = Some u" "t \<le> u" "u \<le> A + D"
    "l_pc s1 = LIdle \<or> lane_work s1 < lane_work s" "draining A D u s1" "\<not> lane_final s1" for i s1 os u
  proof -
    have inv: "lane_inv cfg s1" using lane_step_fact [OF assms(2) less.prems(1) that(1)] by (simp add: step_fact_def)
    show ?thesis
    proof (cases "l_pc s1 = LIdle")
      case True
      with rest inv that show ?thesis by (intro exI [of _ "[i]"]) simp
    next
      case False
      with less.hyps [OF _ inv that(7,8)] that(6) obtain ins s' os' where
        "run_machine (lane_step cfg) s1 ins = Some (s', os')" "lane_at_rest s'" "paced lane_time u ins (A + D)" "list_all (\<lambda>i. arrivals i = []) ins" by blast
      with that show ?thesis by (intro exI [of _ "i # ins"]) simp
    qed
  qed
  show ?case
  proof (cases "l_pc s")
    case LIdle
    with rest less.prems(1) before show ?thesis by (intro exI [of _ "[]"]) simp
  next
    case (LRunning cmd ws)
    let ?s1 = "s\<lparr>l_last_finished := (l_last_finished s)(lc_name cmd \<mapsto> t), l_pending := drain_requests [] (l_pending s)\<rparr>"
    obtain s2 o2 where d: "dispatch cfg t ?s1 = (s2, o2)" by fastforce
    have p: "pr_ok (l_pending ?s1)" "pr_view (l_pending ?s1) = pr_view (l_pending s)"
      using ok drain_requests_view [OF ok, of "[]"] by (simp_all add: mw_inv coalesce_all_def)
    then have keys: "pending_commands ?s1 = pending_commands s" by (simp add: pending_commands_def)
    have "\<forall>c \<in> pending_commands ?s1. \<forall>f. l_last_finished ?s1 c = Some f \<longrightarrow> f \<le> A"
      using over less.prems(2) LRunning unfolding keys by (auto simp: draining_def)
    note w = dispatch_works [OF p(1) assms(2) d assms(3,4) this before]
    obtain os where step: "lane_step cfg s (LDone (Inl []) t [] False) = Some (s2, os)"
      using LRunning d by (simp add: lane_step.simps Let_def)
    have "l_pc s2 = LIdle \<or> lane_work s2 < lane_work s" using w p(2) LRunning by (auto simp: lane_work_def)
    from continue [OF step _ _ _ before this] w show ?thesis by simp
  next
    case (LCooling cmd ws u)
    let ?v = "max t u"
    have step: "lane_step cfg s (LTimer ?v) = Some (begin_run cfg cmd ws ?v s)" using LCooling by (simp add: lane_step.simps)
    have "?v \<le> A + D" "draining A D ?v (s\<lparr>l_pc := LRunning cmd ws\<rparr>)"
      using less.prems(2) LCooling by (auto simp: draining_def pending_commands_def)
    with continue [of "LTimer ?v" "s\<lparr>l_pc := LRunning cmd ws\<rparr>"] step LCooling show ?thesis
      by (simp add: begin_run_def lane_work_def lane_final_def)
  next
    case LInit
    let ?s1 = "s\<lparr>l_pc := LIdle\<rparr>"
    have "draining A D t ?s1" using before over by (simp add: draining_def pending_commands_def)
    with LInit before show ?thesis
      by (intro continue [of "LBoot t" ?s1 _ t]) (simp_all add: lane_step.simps lane_final_def)
  qed (use less.prems(1,3) in \<open>auto simp: lane_final_def lane_inv_def settled_def\<close>)
qed

text \<open>A run of a lane that receives nothing: who waits is started, who is held is answered.\<close>

lemma quiet_run:
  assumes "run_machine (lane_step cfg) s ins = Some (s', os)" "list_all (\<lambda>i. arrivals i = []) ins"
    "lane_inv cfg s" "lane_cfg_ok cfg" "ln_commands cfg c \<noteq> None" "\<not> lane_final s'"
  shows "(waiting c s \<subseteq> waiting c s' \<or> starts c os) \<and> mset (answered os) + mset (held s') = mset (held s)"
  using assms(1-3)
proof (induction ins arbitrary: s os)
  case (Cons i ins)
  obtain s1 o1 o2 where r: "lane_step cfg s i = Some (s1, o1)" "run_machine (lane_step cfg) s1 ins = Some (s', o2)" "os = o1 @ o2"
    using Cons.prems(1) by (auto split: option.splits)
  have fin: "\<not> lane_final s1"
  proof
    assume "lane_final s1"
    with r(2) have "s' = s1" by (cases ins) (simp_all add: lane_final_stuck)
    with \<open>lane_final s1\<close> assms(6) show False by simp
  qed
  have fact: "step_fact cfg s i s1 o1" by (rule lane_step_fact [OF assms(4) Cons.prems(3) r(1)])
  have quiet: "arrivals i = []" using Cons.prems(2) by simp
  have "mset (answered o1) + mset (held s1) = mset (held s)"
    using fact fin quiet by (simp add: step_fact_def lane_final_def accepted_arrivals)
  moreover have "waiting c s \<subseteq> waiting c s1 \<or> starts c o1"
    using lane_waiting [OF assms(4,5) Cons.prems(3) r(1) fin] by blast
  moreover have "(waiting c s1 \<subseteq> waiting c s' \<or> starts c o2) \<and> mset (answered o2) + mset (held s') = mset (held s1)"
    using Cons.IH [OF r(2)] Cons.prems(2) fact by (simp add: step_fact_def)
  ultimately show ?case unfolding r(3)
    by (metis answered_append mset_append starts_append subset_trans union_assoc)
qed simp

section \<open>The link comes to a start\<close>

text \<open>The time of an input of the link, from the times of the client's inputs.\<close>

fun linked_time :: "('i \<Rightarrow> instant option) \<Rightarrow> 'i linked_input \<Rightarrow> instant option" where
  "linked_time at (LinkClient i) = at i"
| "linked_time at (LinkLane i) = lane_time i"

lemma paced_linked [simp]:
  "paced (linked_time at) t (map LinkClient ins) u = paced at t ins u"
  "paced (linked_time at) t (map LinkLane lins) u = paced lane_time t lins u"
  by (simp_all add: paced_map o_def)

text \<open>Some continuation from the present time on, in the order of its times, starts the command by \<open>until\<close>.\<close>

definition can_start :: "('s linked_state, 'i linked_input, 'o linked_output) machine \<Rightarrow> ('i \<Rightarrow> instant option)
    \<Rightarrow> string \<Rightarrow> instant \<Rightarrow> instant \<Rightarrow> 's linked_state \<Rightarrow> bool" where
  "can_start link at c now until s \<longleftrightarrow> (\<exists>ins s' h t. paced (linked_time at) now ins until \<and>
     run_machine link s ins = Some (s', h) \<and> FromLane (RunCommand c t) \<in> set h)"

lemma can_start_later:
  assumes "run_machine (linked_step step reply lane c) s ins = Some (s1, h)" "paced (linked_time at) now ins t"
    "can_start (linked_step step reply lane c) at c t until s1"
  shows "can_start (linked_step step reply lane c) at c now until s"
proof -
  from assms(3) obtain jns s2 h2 u where j: "paced (linked_time at) t jns until"
    "run_machine (linked_step step reply lane c) s1 jns = Some (s2, h2)" "FromLane (RunCommand c u) \<in> set h2"
    unfolding can_start_def by blast
  have "run_machine (linked_step step reply lane c) s (ins @ jns) = Some (s2, h @ h2)"
    using assms(1) j(2) by (simp add: run_append)
  then show ?thesis using j(3) paced_join [OF assms(2) j(1)] unfolding can_start_def by fastforce
qed

lemma can_start_now:
  "run_machine (linked_step step reply lane c) s ins = Some (s1, map FromLane os) \<Longrightarrow> paced (linked_time at) now ins until \<Longrightarrow>
     starts c os \<Longrightarrow> can_start (linked_step step reply lane c) at c now until s"
  unfolding can_start_def starts_def by fastforce

lemma can_start_until: "can_start link at c now until s \<Longrightarrow> until \<le> until' \<Longrightarrow> can_start link at c now until' s"
  unfolding can_start_def by (blast intro: paced_mono)

lemma answer_to_waiting: "answer_to w os = None \<Longrightarrow> w \<notin> set (answered os)"
  using answer_to_answered by blast

text \<open>The lane's part of the link, receiving nothing.\<close>

lemma link_lane_run:
  assumes "run_machine (lane_step lane) (lk_lane s) ins = Some (l', os)" "list_all (\<lambda>i. arrivals i = []) ins"
  shows "\<exists>s'. run_machine (linked_step step reply lane c) s (map LinkLane ins) = Some (s', map FromLane os) \<and> lk_lane s' = l' \<and>
    lk_client s' = lk_client s \<and> lk_runs s' = lk_runs s \<and> lk_request s' = lk_request s"
  using assms
proof (induction ins arbitrary: s os)
  case (Cons i ins)
  obtain l1 o1 o2 where r: "lane_step lane (lk_lane s) i = Some (l1, o1)" "run_machine (lane_step lane) l1 ins = Some (l', o2)" "os = o1 @ o2"
    using Cons.prems(1) by (auto split: option.splits)
  have own: "own_arrivals i = []" using Cons.prems(2) by (simp add: own_arrivals_def)
  define s1 where "s1 = s\<lparr>lk_lane := l1, lk_request := (lk_request s \<and> own_arrivals i = []),
    lk_answer := (if answer_to (own_waiter s) o1 = None then lk_answer s else answer_to (own_waiter s) o1)\<rparr>"
  have step: "linked_step step reply lane c s (LinkLane i) = Some (s1, map FromLane o1)"
    using r(1) own by (simp add: linked_step.simps can_receive_def s1_def)
  have "lk_lane s1 = l1" by (simp add: s1_def)
  with Cons.IH [of s1 o2] r(2) Cons.prems(2) obtain s' where
    "run_machine (linked_step step reply lane c) s1 (map LinkLane ins) = Some (s', map FromLane o2)" "lk_lane s' = l'"
    "lk_client s' = lk_client s1" "lk_runs s' = lk_runs s1" "lk_request s' = lk_request s1" by auto
  with step own r(3) show ?case by (simp add: s1_def)
qed simp

lemma link_client_run:
  assumes "run_machine step (lk_client s) ins = Some (d, os)" "list_all (\<lambda>i. reply i = None) ins"
  shows "\<exists>h. run_machine (linked_step step reply lane c) s (map LinkClient ins) = Some (s\<lparr>lk_client := d\<rparr>, h)"
  using assms
proof (induction ins arbitrary: s os)
  case (Cons i ins)
  obtain d1 o1 o2 where r: "step (lk_client s) i = Some (d1, o1)" "run_machine step d1 ins = Some (d, o2)"
    using Cons.prems(1) by (auto split: option.splits)
  have "linked_step step reply lane c s (LinkClient i) = Some (s\<lparr>lk_client := d1\<rparr>, map FromClient o1)"
    using r(1) Cons.prems(2) by (simp add: linked_step.simps)
  with Cons.IH [of "s\<lparr>lk_client := d1\<rparr>" o2] r(2) Cons.prems(2) show ?case by fastforce
qed simp

text \<open>A client that reaches a submission between two times, without hearing from the lane.\<close>

definition reaches_submission :: "('s, 'i, 'o) machine \<Rightarrow> ('i \<Rightarrow> instant option) \<Rightarrow> ('s \<Rightarrow> client_phase) \<Rightarrow> ('i \<Rightarrow> lane_reply option)
    \<Rightarrow> instant \<Rightarrow> instant \<Rightarrow> 's \<Rightarrow> bool" where
  "reaches_submission step at phase reply now until s \<longleftrightarrow>
     (\<exists>ins s' os. list_all (\<lambda>i. reply i = None) ins \<and> paced at now ins until \<and> run_machine step s ins = Some (s', os) \<and> phase s' = Submitted)"

lemma reaches_submission_now: "phase s = Submitted \<Longrightarrow> now \<le> until \<Longrightarrow> reaches_submission step at phase reply now until s"
  unfolding reaches_submission_def by (intro exI [of _ "[]"]) simp

lemma reaches_submission_step:
  assumes "step s i = Some (s', os)" "reply i = None" "at i = Some t" "now \<le> t" "reaches_submission step at phase reply t until s'"
  shows "reaches_submission step at phase reply now until s"
proof -
  from assms(5) obtain ins s2 os2 where "list_all (\<lambda>i. reply i = None) ins" "paced at t ins until"
    "run_machine step s' ins = Some (s2, os2)" "phase s2 = Submitted"
    unfolding reaches_submission_def by blast
  with assms(1-4) show ?thesis unfolding reaches_submission_def by (intro exI [of _ "i # ins"]) simp
qed

text \<open>
  What the link then promises: as long as client and lane are alive, nothing is owed to the
  command, or what is owed is on its way. If moreover the clock has never gone back, no delay of the
  client (\<open>within\<close>) or interval of the lane is longer than \<open>D\<close>, and the clock has room for eight of
  them, then some continuation of the run, in the order of its times, starts the command within
  that time.
\<close>

definition delivery where
  "delivery phase owes effect within at link start lane c \<longleftrightarrow>
     (\<forall>ins s h. run_machine link start ins = Some (s, h) \<and> linked_alive phase s \<longrightarrow>
        owed effect c 0 h = 0 \<or>
        (on_its_way phase owes c s \<and>
         (\<forall>now D. paced (linked_time at) 0 ins now \<and> within D \<and> lane_within D lane \<and> now + 8 * D < instant_limit \<longrightarrow>
            can_start link at c now (now + 8 * D) s)))"

text \<open>
  What a client must offer: from a debt it can submit, a submission can be accepted, and after the
  end of a run that leaves a debt it can submit again, each in time. \<open>timely D now\<close> says that the
  times a state holds are in order: what is past lies before \<open>now\<close>, what is awaited within \<open>D\<close> of it.
\<close>

locale live_client = lane_client step start phase reply effect owes
  for step :: "('s, 'i, 'o) machine" and start phase reply and effect :: "'o \<Rightarrow> client_effect" and owes +
  fixes at :: "'i \<Rightarrow> instant option"
    and within :: "duration \<Rightarrow> bool"
    and timely :: "duration \<Rightarrow> instant \<Rightarrow> 's \<Rightarrow> bool"
  assumes timely_start: "timely D 0 start"
    and timely_later: "timely D now s \<Longrightarrow> now \<le> t \<Longrightarrow> timely D t s"
    and timely_step: "within D \<Longrightarrow> timely D now s \<Longrightarrow> step s i = Some (s', os) \<Longrightarrow> (\<And>v. at i = Some v \<Longrightarrow> now = v) \<Longrightarrow> timely D now s'"
    and submit_again: "within D \<Longrightarrow> timely D now s \<Longrightarrow> now + 2 * D < instant_limit \<Longrightarrow> owes s \<Longrightarrow> phase s = Away \<Longrightarrow>
      reaches_submission step at phase reply now (now + 2 * D) s"
    and accept_again: "timely D now s \<Longrightarrow> phase s = Submitted \<Longrightarrow>
      \<exists>i s' os. reply i = Some StartAccepted \<and> at i = Some now \<and> step s i = Some (s', os) \<and> phase s' = Accepted"
    and finish_again: "within D \<Longrightarrow> timely D now s \<Longrightarrow> now + 2 * D < instant_limit \<Longrightarrow> owes s \<Longrightarrow> phase s = Accepted \<Longrightarrow>
      \<exists>i s' os. reply i = Some (RunFinished report) \<and> at i = Some now \<and> step s i = Some (s', os) \<and>
        reaches_submission step at phase reply now (now + 2 * D) s'"
begin

text \<open>A state the link reaches by \<open>now\<close>.\<close>

definition good :: "duration \<Rightarrow> instant \<Rightarrow> lane_config \<Rightarrow> string \<Rightarrow> 's linked_state \<Rightarrow> 'o linked_output list \<Rightarrow> bool" where
  "good D now lane c s h \<longleftrightarrow> lane_knows lane c \<and> linked_inv phase owes effect lane c s h \<and> linked_alive phase s \<and>
     within D \<and> lane_within D lane \<and> lane_timed now (lk_lane s) \<and> timely D now (lk_client s)"

lemma link_run_inv:
  assumes "lane_knows lane c" "linked_inv phase owes effect lane c s h" "run_machine (linked_step step reply lane c) s ins = Some (s', os)"
  shows "linked_inv phase owes effect lane c s' (h @ os)"
  using assms(2,3)
proof (induction ins arbitrary: s h os)
  case (Cons i ins)
  obtain s1 o1 o2 where r: "linked_step step reply lane c s i = Some (s1, o1)"
    "run_machine (linked_step step reply lane c) s1 ins = Some (s', o2)" "os = o1 @ o2"
    using Cons.prems(2) by (auto split: option.splits)
  have "linked_inv phase owes effect lane c s1 (h @ o1)"
    using r(1) client_inv [OF Cons.prems(1)] lane_part_inv [OF assms(1) Cons.prems(1)] by (cases i) blast+
  from Cons.IH [OF this r(2)] r(3) show ?case by simp
qed simp

lemma link_timed_step:
  assumes "within D" "lane_timed now (lk_lane s) \<and> timely D now (lk_client s)" "linked_step step reply lane c s i = Some (s', os)"
    "\<And>v. linked_time at i = Some v \<Longrightarrow> now = v"
  shows "lane_timed now (lk_lane s') \<and> timely D now (lk_client s')"
proof (cases i)
  case (LinkClient j)
  with assms(3) obtain d dos where "step (lk_client s) j = Some (d, dos)" "lk_client s' = d" "lk_lane s' = lk_lane s"
    by (auto simp: linked_step.simps split: if_splits)
  with assms(1,2,4) LinkClient show ?thesis using timely_step by auto
next
  case (LinkLane j)
  with assms(3) obtain l los where "lane_step lane (lk_lane s) j = Some (l, los)" "lk_client s' = lk_client s" "lk_lane s' = l"
    by (auto simp: linked_step.simps split: if_splits)
  with assms(2,4) LinkLane show ?thesis using lane_timed_step by auto
qed

lemma link_timed_run:
  assumes "within D" "lane_timed now (lk_lane s) \<and> timely D now (lk_client s)" "paced (linked_time at) now ins t"
    "run_machine (linked_step step reply lane c) s ins = Some (s', os)"
  shows "lane_timed t (lk_lane s') \<and> timely D t (lk_client s')"
  using assms(4,3,2)
proof (rule paced_run)
  show "lane_timed u (lk_lane s) \<and> timely D u (lk_client s)" if "lane_timed t (lk_lane s) \<and> timely D t (lk_client s)" "t \<le> u" for t s u
    using that lane_timed_later timely_later by blast
  show "lane_timed t (lk_lane s') \<and> timely D t (lk_client s')"
    if "lane_timed t (lk_lane s) \<and> timely D t (lk_client s)" "linked_step step reply lane c s i = Some (s', os)"
      "\<And>v. linked_time at i = Some v \<Longrightarrow> t = v" for t s i s' os
    using link_timed_step [OF assms(1) that] .
qed

lemma good_run:
  assumes "good D now lane c s h" "run_machine (linked_step step reply lane c) s ins = Some (s', os)"
    "paced (linked_time at) now ins t" "linked_alive phase s'"
  shows "good D t lane c s' (h @ os)"
proof -
  have "lane_timed t (lk_lane s') \<and> timely D t (lk_client s')"
    by (rule link_timed_run [OF _ _ assms(3,2)]) (use assms(1) in \<open>simp_all add: good_def\<close>)
  with assms(1,4) link_run_inv [OF _ _ assms(2)] show ?thesis by (simp add: good_def)
qed

lemma good_parts:
  assumes "good D now lane c s h"
  shows "lane_inv lane (lk_lane s)" "lane_cfg_ok lane" "ln_commands lane c \<noteq> None" "lane_within D lane"
    "\<not> lane_final (lk_lane s)" "phase (lk_client s) \<noteq> Over" "tickets s = (if phase (lk_client s) = Accepted then 1 else 0)"
    "lane_timed now (lk_lane s)" "within D" "timely D now (lk_client s)"
  using assms by (auto simp: good_def linked_inv_def linked_alive_def lane_knows_def)

lemma rest_waits_nobody: "lane_at_rest l \<Longrightarrow> waiting c l = {}"
  using waiting_held by (fastforce simp: lane_at_rest_def)

lemma drain:
  assumes "good D now lane c s h" "now + 2 * D < instant_limit"
  obtains "can_start (linked_step step reply lane c) at c now (now + 2 * D) s"
  | ins s1 h1 where "run_machine (linked_step step reply lane c) s ins = Some (s1, h1)" "paced (linked_time at) now ins (now + 2 * D)"
      "good D (now + 2 * D) lane c s1 (h @ h1)" "lane_at_rest (lk_lane s1)" "lk_client s1 = lk_client s" "lk_request s1 = lk_request s"
      "own_waiter s \<notin> waiting c (lk_lane s)"
proof -
  note g = good_parts [OF assms(1)]
  have until: "now + D + D = now + 2 * D" by simp
  from lane_drains [OF g(1,2,4) _ timed_draining [OF g(8,1,4)] g(5), unfolded until] assms(2) obtain ins l' os where
    l: "run_machine (lane_step lane) (lk_lane s) ins = Some (l', os)" "lane_at_rest l'" "paced lane_time now ins (now + 2 * D)"
    "list_all (\<lambda>i. arrivals i = []) ins" by blast
  from link_lane_run [OF l(1,4), of step reply c] obtain s1 where s1: "run_machine (linked_step step reply lane c) s (map LinkLane ins) = Some (s1, map FromLane os)"
    "lk_lane s1 = l'" "lk_client s1 = lk_client s" "lk_request s1 = lk_request s" by blast
  have paced: "paced (linked_time at) now (map LinkLane ins) (now + 2 * D)" using l(3) by simp
  have "good D (now + 2 * D) lane c s1 (h @ map FromLane os)"
    by (rule good_run [OF assms(1) s1(1) paced]) (use s1 l g(6) at_rest_not_final in \<open>simp_all add: linked_alive_def\<close>)
  moreover have "waiting c (lk_lane s) \<subseteq> {} \<or> starts c os"
    using quiet_run [OF l(1,4) g(1,2,3) at_rest_not_final [OF l(2)]] rest_waits_nobody [OF l(2)] by simp
  ultimately show ?thesis using that(1) [OF can_start_now [OF s1(1) paced]] that(2) [OF s1(1) paced] s1 l(2) by blast
qed

lemma requested_can_start:
  assumes "good D now lane c s h" "lk_request s" "now + 4 * D < instant_limit"
  shows "can_start (linked_step step reply lane c) at c now (now + 4 * D) s"
proof (rule drain [OF assms(1)])
  assume "can_start (linked_step step reply lane c) at c now (now + 2 * D) s"
  then show ?thesis by (rule can_start_until) simp
next
  fix ins s1 h1
  assume r: "run_machine (linked_step step reply lane c) s ins = Some (s1, h1)" "paced (linked_time at) now ins (now + 2 * D)"
    "good D (now + 2 * D) lane c s1 (h @ h1)" "lane_at_rest (lk_lane s1)" "lk_request s1 = lk_request s"
  let ?t = "now + 2 * D"
  note g = good_parts [OF r(3)]
  let ?i = "LRequest (Some (c, own_waiter s1)) ?t"
  let ?l = "(lk_lane s1)\<lparr>l_pending := pr_push c (own_waiter s1) (l_pending (lk_lane s1))\<rparr>"
  obtain l2 o2 where d: "dispatch lane ?t ?l = (l2, o2)" by fastforce
  have ok: "pr_ok (l_pending ?l)" using g(1) pr_push_ok by (simp add: lane_inv_def)
  from dispatch_works [OF ok g(2) d g(4), of ?t] g(8) assms(3) have w: "\<not> lane_final l2" by (simp add: lane_timed_def)
  have lane: "lane_step lane (lk_lane s1) ?i = Some (l2, o2)" using r(4) d by (simp add: lane_step.simps lane_at_rest_def)
  define s2 where "s2 = s1\<lparr>lk_lane := l2, lk_request := False,
    lk_answer := (if answer_to (own_waiter s1) o2 = None then lk_answer s1 else answer_to (own_waiter s1) o2)\<rparr>"
  have own: "own_arrivals ?i = [(c, own_waiter s1)]" by (simp add: own_arrivals_def own_waiter_def)
  have step: "linked_step step reply lane c s1 (LinkLane ?i) = Some (s2, map FromLane o2)"
    using lane own r(5) assms(2) by (simp add: linked_step.simps can_receive_def s2_def)
  then have one: "run_machine (linked_step step reply lane c) s1 [LinkLane ?i] = Some (s2, map FromLane o2)" by simp
  have at_t: "paced (linked_time at) ?t [LinkLane ?i] ?t" by simp
  have "good D ?t lane c s2 ((h @ h1) @ map FromLane o2)"
    by (rule good_run [OF r(3) one at_t]) (use w g(6) in \<open>simp_all add: s2_def linked_alive_def\<close>)
  then have "can_start (linked_step step reply lane c) at c ?t (?t + 2 * D) s2" if "own_waiter s1 \<in> waiting c l2"
    by (rule drain) (use that assms(3) in \<open>simp_all add: s2_def own_waiter_def\<close>)
  moreover have "own_waiter s1 \<in> waiting c l2 \<or> starts c o2"
    using lane_waiting [OF g(2,3,1) lane w] by auto
  ultimately have "can_start (linked_step step reply lane c) at c ?t (?t + 2 * D) s1"
    using can_start_now [OF one, of at ?t "?t + 2 * D"] can_start_later [OF one at_t] by auto
  then have "can_start (linked_step step reply lane c) at c now (?t + 2 * D) s" by (rule can_start_later [OF r(1,2)])
  then show ?thesis by (rule can_start_until) simp
qed (use assms(3) in simp)

lemma submitted_can_start:
  assumes "good D now lane c s h" "phase (lk_client s) = Submitted" "now + 4 * D < instant_limit"
  shows "can_start (linked_step step reply lane c) at c now (now + 4 * D) s"
proof -
  from accept_again [OF good_parts(10) [OF assms(1)] assms(2)] obtain i d os where
    i: "reply i = Some StartAccepted" "at i = Some now" "step (lk_client s) i = Some (d, os)" "phase d = Accepted" by blast
  define s1 where "s1 = s\<lparr>lk_runs := Suc (lk_runs s), lk_request := True, lk_client := d\<rparr>"
  have one: "run_machine (linked_step step reply lane c) s [LinkClient i] = Some (s1, map FromClient os)"
    using i good_parts(5) [OF assms(1)] by (simp add: linked_step.simps s1_def)
  have at_t: "paced (linked_time at) now [LinkClient i] now" using i(2) by simp
  have "good D now lane c s1 (h @ map FromClient os)"
    by (rule good_run [OF assms(1) one at_t]) (use i(4) good_parts [OF assms(1)] in \<open>simp_all add: s1_def linked_alive_def\<close>)
  from requested_can_start [OF this _ assms(3)] can_start_later [OF one at_t] show ?thesis by (simp add: s1_def)
qed

lemma submission_can_start:
  assumes "good D now lane c s h" "reaches_submission step at phase reply now (now + 2 * D) (lk_client s)" "now + 6 * D < instant_limit"
  shows "can_start (linked_step step reply lane c) at c now (now + 6 * D) s"
proof -
  from assms(2) obtain ins d os where d: "list_all (\<lambda>i. reply i = None) ins" "paced at now ins (now + 2 * D)"
    "run_machine step (lk_client s) ins = Some (d, os)" "phase d = Submitted" unfolding reaches_submission_def by blast
  from link_client_run [OF d(3,1), of lane c] obtain os' where
    run: "run_machine (linked_step step reply lane c) s (map LinkClient ins) = Some (s\<lparr>lk_client := d\<rparr>, os')" by blast
  have paced: "paced (linked_time at) now (map LinkClient ins) (now + 2 * D)" using d(2) by simp
  have "good D (now + 2 * D) lane c (s\<lparr>lk_client := d\<rparr>) (h @ os')"
    by (rule good_run [OF assms(1) run paced]) (use d(4) good_parts [OF assms(1)] in \<open>simp_all add: linked_alive_def\<close>)
  from submitted_can_start [OF this] d(4) assms(3)
  have "can_start (linked_step step reply lane c) at c (now + 2 * D) (now + 2 * D + 4 * D) (s\<lparr>lk_client := d\<rparr>)" by simp
  from can_start_later [OF run paced this] show ?thesis by (rule can_start_until) simp
qed

lemma submission_not_over: "reaches_submission step at phase reply now until s \<Longrightarrow> phase s \<noteq> Over"
proof
  assume "reaches_submission step at phase reply now until s" and over: "phase s = Over"
  then obtain ins s' os where r: "run_machine step s ins = Some (s', os)" "phase s' = Submitted" unfolding reaches_submission_def by blast
  from r(1) over have "phase s' = Over"
  proof (induction ins arbitrary: s os)
    case (Cons j js)
    then obtain s1 p1 p2 where "step s j = Some (s1, p1)" "run_machine step s1 js = Some (s', p2)" by (auto split: option.splits)
    with Cons.IH [OF this(2)] over_stays [OF this(1)] Cons.prems(2) show ?case by simp
  qed simp
  with r(2) show False by simp
qed

lemma finished_can_start:
  assumes "good D now lane c s h" "phase (lk_client s) = Accepted" "owes (lk_client s)" "\<not> unstarted c s" "now + 8 * D < instant_limit"
  shows "can_start (linked_step step reply lane c) at c now (now + 8 * D) s"
proof (rule drain [OF assms(1)])
  assume "can_start (linked_step step reply lane c) at c now (now + 2 * D) s"
  then show ?thesis by (rule can_start_until) simp
next
  fix ins s1 h1
  assume r: "run_machine (linked_step step reply lane c) s ins = Some (s1, h1)" "paced (linked_time at) now ins (now + 2 * D)"
    "good D (now + 2 * D) lane c s1 (h @ h1)"
    "lane_at_rest (lk_lane s1)" "lk_client s1 = lk_client s" "lk_request s1 = lk_request s"
  let ?t = "now + 2 * D"
  note g = good_parts [OF r(3)]
  have "tickets s1 = 1" "\<not> lk_request s1" "held (lk_lane s1) = []"
    using g(7) r assms(2,4) by (simp_all add: lane_at_rest_def unstarted_def)
  then obtain report where report: "lk_answer s1 = Some report" by (auto simp: tickets_def split: if_splits)
  have "?t + 2 * D < instant_limit" using assms(5) by simp
  from finish_again [OF g(9,10) this, of report] assms(2,3) obtain i d os where
    i: "reply i = Some (RunFinished report)" "at i = Some ?t" "step (lk_client s1) i = Some (d, os)"
      "reaches_submission step at phase reply ?t (?t + 2 * D) d"
    unfolding r(5) by blast
  define s2 where "s2 = s1\<lparr>lk_answer := None, lk_client := d\<rparr>"
  have one: "run_machine (linked_step step reply lane c) s1 [LinkClient i] = Some (s2, map FromClient os)"
    using i(1,3) report by (simp add: linked_step.simps s2_def)
  have at_t: "paced (linked_time at) ?t [LinkClient i] ?t" using i(2) by simp
  have "good D ?t lane c s2 ((h @ h1) @ map FromClient os)"
    by (rule good_run [OF r(3) one at_t]) (use g submission_not_over [OF i(4)] in \<open>simp_all add: s2_def linked_alive_def\<close>)
  from submission_can_start [OF this] i(4) assms(5)
  have "can_start (linked_step step reply lane c) at c ?t (?t + 6 * D) s2" by (simp add: s2_def)
  from can_start_later [OF r(1,2) can_start_later [OF one at_t this]] show ?thesis by (rule can_start_until) simp
qed (use assms(5) in simp)

text \<open>Whatever is on its way can arrive.\<close>

lemma arrives:
  assumes "good D now lane c s h" "on_its_way phase owes c s" "now + 8 * D < instant_limit"
  shows "can_start (linked_step step reply lane c) at c now (now + 8 * D) s"
proof (cases "phase (lk_client s)")
  case Away
  with assms(2) have "owes (lk_client s)" by (simp add: on_its_way_def)
  from submit_again [OF good_parts(9,10) [OF assms(1)] _ this Away] assms(3)
  have "can_start (linked_step step reply lane c) at c now (now + 6 * D) s"
    by (intro submission_can_start [OF assms(1)]) simp_all
  then show ?thesis by (rule can_start_until) simp
next
  case Submitted
  with submitted_can_start [OF assms(1)] assms(3) have "can_start (linked_step step reply lane c) at c now (now + 4 * D) s" by simp
  then show ?thesis by (rule can_start_until) simp
next
  case Accepted
  show ?thesis
  proof (cases "unstarted c s")
    case True
    show ?thesis
    proof (cases "lk_request s")
      case True
      from requested_can_start [OF assms(1) True] assms(3)
      have "can_start (linked_step step reply lane c) at c now (now + 4 * D) s" by simp
      then show ?thesis by (rule can_start_until) simp
    next
      case False
      with \<open>unstarted c s\<close> have held: "own_waiter s \<in> waiting c (lk_lane s)" by (simp add: unstarted_def)
      have "now + 2 * D < instant_limit" using assms(3) by simp
      from drain [OF assms(1) this] held
      have "can_start (linked_step step reply lane c) at c now (now + 2 * D) s" by blast
      then show ?thesis by (rule can_start_until) simp
    qed
  next
    case False
    with assms Accepted show ?thesis by (intro finished_can_start [OF assms(1)]) (auto simp: on_its_way_def)
  qed
qed (use good_parts(6) [OF assms(1)] in simp)

lemma owed_arrives:
  assumes "lane_knows lane c" "run_machine (linked_step step reply lane c) (linked_init start) ins = Some (s, h)"
    "linked_alive phase s" "0 < owed effect c 0 h"
    "paced (linked_time at) 0 ins now" "within D" "lane_within D lane" "now + 8 * D < instant_limit"
  shows "can_start (linked_step step reply lane c) at c now (now + 8 * D) s"
proof -
  have "lane_timed 0 (lk_lane (linked_init start)) \<and> timely D 0 (lk_client (linked_init start))"
    using timely_start by (simp add: linked_init_def lane_timed_def lane_init_def)
  from link_timed_run [OF assms(6) this assms(5,2)]
  have "lane_timed now (lk_lane s)" "timely D now (lk_client s)" by simp_all
  moreover have "linked_inv phase owes effect lane c s h" using linked.run_inv [OF assms(2)] assms(1) by blast
  ultimately have "good D now lane c s h" using assms by (simp add: good_def)
  moreover have "on_its_way phase owes c s" using keeps_events [OF assms(1-3)] assms(4) by simp
  ultimately show ?thesis using arrives assms(8) by blast
qed

text \<open>Both halves: what is owed is on its way, and what is on its way can arrive.\<close>

lemma delivers:
  assumes "lane_knows lane c"
  shows "delivery phase owes effect within at (linked_step step reply lane c) (linked_init start) lane c"
  unfolding delivery_def
proof (intro allI impI)
  fix ins s h
  assume run: "run_machine (linked_step step reply lane c) (linked_init start) ins = Some (s, h) \<and> linked_alive phase s"
  show "owed effect c 0 h = 0 \<or> (on_its_way phase owes c s \<and>
         (\<forall>now D. paced (linked_time at) 0 ins now \<and> within D \<and> lane_within D lane \<and> now + 8 * D < instant_limit \<longrightarrow>
            can_start (linked_step step reply lane c) at c now (now + 8 * D) s))"
  proof (cases "owed effect c 0 h = 0")
    case False
    with keeps_events [OF assms conjunct1 [OF run] conjunct2 [OF run]] have "on_its_way phase owes c s" by simp
    moreover have "can_start (linked_step step reply lane c) at c now (now + 8 * D) s"
      if "paced (linked_time at) 0 ins now \<and> within D \<and> lane_within D lane \<and> now + 8 * D < instant_limit" for now D
      using owed_arrives [OF assms conjunct1 [OF run] conjunct2 [OF run]] False that by simp
    ultimately show ?thesis by blast
  qed simp
qed

end

end
