(* ===== verification/Pipeline_Progress.thy ===== *)
theory Pipeline_Progress
  imports Event_Pipeline Lane_Progress
begin

text \<open>
  The submitting tasks of \<^verbatim>\<open>src/src/main.rs\<close> as instances of the contract of \<^verbatim>\<open>Lane_Progress\<close>: from
  whatever they owe, their own timers and reads lead to a submission within twice their longest
  delay, so what is on its way can reach its command in time.
\<close>

text \<open>The observations of the tasks carry the time they are made.\<close>

abbreviation stamp :: "'i \<times> instant \<Rightarrow> instant option" where
  "stamp i \<equiv> Some (snd i)"

lemma reaches_submission_until:
  "reaches_submission step at phase reply now u s \<Longrightarrow> u \<le> u' \<Longrightarrow> reaches_submission step at phase reply now u' s"
  unfolding reaches_submission_def by (blast intro: paced_mono)

section \<open>The debouncer\<close>

abbreviation "debounce_channel src cfg \<equiv> channel_step src (debounce_step cfg) debounce_phase debounce_uses no_false_wake"

abbreviation "debounce_submits src cfg \<equiv>
  reaches_submission (debounce_channel src cfg) (channel_time src stamp) (channel_phase debounce_phase) (channel_reply debounce_reply)"

definition debounce_within :: "debounce_config \<Rightarrow> duration \<Rightarrow> bool" where
  "debounce_within cfg D \<longleftrightarrow> db_debounce cfg \<le> D \<and> db_cooldown cfg \<le> D"

definition debounce_timely :: "duration \<Rightarrow> instant \<Rightarrow> debounce_state \<Rightarrow> bool" where
  "debounce_timely D now s \<longleftrightarrow> d_clock s \<le> now \<and>
     (case d_pc s of DDebouncing u \<Rightarrow> u \<le> now + D | DCooling u \<Rightarrow> u \<le> now + D | _ \<Rightarrow> True)"

lemma debounce_timely_later: "debounce_timely D now s \<Longrightarrow> now \<le> t \<Longrightarrow> debounce_timely D t s"
  by (auto simp: debounce_timely_def split: debounce_pc.splits)

lemma cooldown_within:
  "debounce_within cfg D \<Longrightarrow> wait_for_cooldown cfg l now = Some u \<Longrightarrow> u \<le> now + D"
  by (auto simp: debounce_within_def wait_for_cooldown_def Let_def split: option.splits if_splits)

lemma entered_timely: "debounce_within cfg D \<Longrightarrow> d_clock s \<le> now \<Longrightarrow> debounce_timely D now (enter_debounce cfg now s)"
  by (simp add: debounce_timely_def debounce_within_def enter_debounce_pc)

lemma debounce_timely_step:
  assumes "debounce_within cfg D" "debounce_timely D now s" "debounce_step cfg s (i, now) = Some (s', os)"
  shows "debounce_timely D now s'"
proof -
  have at: "debounce_at cfg now (s\<lparr>d_clock := now\<rparr>) i = Some (s', os)" using assms(3) by (simp split: if_splits)
  have near: "u \<le> now + D" if "d_pc s = DDebouncing u \<or> d_pc s = DCooling u" for u
    using assms(2) that by (auto simp: debounce_timely_def)
  show ?thesis
  proof (cases "d_pc s = DStarting \<or> d_pc s = DRunning")
    case True
    with at show ?thesis
      by (auto simp: debounce_at.simps debounce_timely_def split: option.splits run_once_step.splits bool.splits)
  next
    case False
    with at near assms(1) show ?thesis
      by (cases "d_pc s"; cases i)
         (auto simp: debounce_at.simps submit_def debounce_timely_def enter_debounce_pc debounce_within_def
           dest!: cooldown_within [OF assms(1)] split: option.splits if_splits)
  qed
qed

lemma debounce_channel_step:
  assumes "case debounce_at cfg t (ch_task s\<lparr>d_clock := t\<rparr>) i of None \<Rightarrow> False
      | Some (d, os) \<Rightarrow> debounce_submits src cfg t until (s\<lparr>ch_queue := after_use (ch_queue s) (debounce_uses (i, t)), ch_task := d\<rparr>)"
    and "d_clock (ch_task s) \<le> t" "no_false_wake (i, t)" "can_use (es_ended src (ch_source s)) (ch_queue s) (debounce_uses (i, t))"
    "debounce_reply (i, t) = None" "now \<le> t"
  shows "debounce_submits src cfg now until s"
proof -
  obtain d os where after: "debounce_at cfg t (ch_task s\<lparr>d_clock := t\<rparr>) i = Some (d, os)"
    "debounce_submits src cfg t until (s\<lparr>ch_queue := after_use (ch_queue s) (debounce_uses (i, t)), ch_task := d\<rparr>)"
    using assms(1) by (auto split: option.splits)
  show ?thesis
    by (rule reaches_submission_step [where i = "TaskStep (i, t)" and t = t]) (use after assms(2-) in \<open>simp_all add: channel_step.simps\<close>)
qed

lemma debounce_started: "d_pc (ch_task s) = DStarting \<Longrightarrow> now \<le> until \<Longrightarrow> debounce_submits src cfg now until s"
  by (rule reaches_submission_now) (simp_all add: channel_phase_def)

lemma cooled_submits: "d_pc (ch_task s) = DDrainCooled \<Longrightarrow> d_clock (ch_task s) \<le> now \<Longrightarrow> debounce_submits src cfg now now s"
  by (rule debounce_channel_step [where i = "DDrained (ch_queue s)" and t = now])
     (simp_all add: debounce_at.simps submit_def debounce_started)

lemma cooling_submits:
  "d_pc (ch_task s) = DCooling u \<Longrightarrow> d_clock (ch_task s) \<le> now \<Longrightarrow> debounce_submits src cfg now (max u now) s"
  by (rule debounce_channel_step [where i = DTimer and t = "max u now"])
     (simp_all add: debounce_at.simps submit_def cooled_submits)

lemma before_submits:
  assumes "d_pc (ch_task s) = DDrainBefore" "d_clock (ch_task s) \<le> now" "debounce_within cfg D"
  shows "debounce_submits src cfg now (now + D) s"
proof (cases "wait_for_cooldown cfg (d_last_finished (ch_task s)) now")
  case None
  with assms show ?thesis
    by (intro debounce_channel_step [where i = "DDrained (ch_queue s)" and t = now])
       (simp_all add: debounce_at.simps submit_def debounce_started)
next
  case (Some u)
  have u: "max u now \<le> now + D" using cooldown_within [OF assms(3) Some] by simp
  show ?thesis
    by (rule debounce_channel_step [where i = "DDrained (ch_queue s)" and t = now])
       (use assms Some in \<open>simp_all add: debounce_at.simps submit_def reaches_submission_until [OF cooling_submits u]\<close>)
qed

lemma collecting_submits:
  assumes "collecting (d_pc (ch_task s))" "debounce_timely D now (ch_task s)" "debounce_within cfg D"
  shows "debounce_submits src cfg now (now + 2 * D) s"
proof -
  have clock: "d_clock (ch_task s) \<le> now" using assms(2) by (simp add: debounce_timely_def)
  consider (debouncing) u where "d_pc (ch_task s) = DDebouncing u" | (before) "d_pc (ch_task s) = DDrainBefore"
    | (cooling) u where "d_pc (ch_task s) = DCooling u" | (cooled) "d_pc (ch_task s) = DDrainCooled"
    using assms(1) by (auto simp: collecting_def)
  then show ?thesis
  proof cases
    case debouncing
    let ?v = "max u now"
    have v: "?v \<le> now + D" using debouncing assms(2) by (auto simp: debounce_timely_def)
    have "debounce_submits src cfg now (?v + D) s"
      by (rule debounce_channel_step [where i = DTimer and t = ?v])
         (use debouncing clock assms(3) in \<open>simp_all add: debounce_at.simps before_submits\<close>)
    then show ?thesis by (rule reaches_submission_until) (use v in simp)
  next
    case before
    from before_submits [OF this clock assms(3)] show ?thesis by (rule reaches_submission_until) simp
  next
    case cooling
    from cooling_submits [OF this clock] show ?thesis
      by (rule reaches_submission_until) (use cooling assms(2) in \<open>auto simp: debounce_timely_def\<close>)
  next
    case cooled
    from cooled_submits [OF this clock] show ?thesis by (rule reaches_submission_until) simp
  qed
qed

lemma entered_collecting: "collecting (d_pc (enter_debounce cfg now s))"
  by (simp add: enter_debounce_pc collecting_def)

lemma after_run_submits:
  assumes "d_pc (ch_task s) = DDrainAfter" "0 < ch_queue s" "d_clock (ch_task s) \<le> now" "debounce_within cfg D"
  shows "debounce_submits src cfg now (now + 2 * D) s"
  using assms
  by (intro debounce_channel_step [where i = "DDrained (ch_queue s)" and t = now])
     (simp_all add: debounce_at.simps submit_def collecting_submits entered_collecting entered_timely)

lemma waiting_submits:
  assumes "d_pc (ch_task s) = DWait" "0 < ch_queue s" "d_clock (ch_task s) \<le> now" "debounce_within cfg D"
  shows "debounce_submits src cfg now (now + 2 * D) s"
  using assms
  by (intro debounce_channel_step [where i = "DRecv (Some ())" and t = now])
     (simp_all add: debounce_at.simps submit_def collecting_submits entered_collecting entered_timely)

text \<open>What the times of a task say of its channel, whose source has none that matter to the task.\<close>

lemma channel_timely_step:
  assumes "channel_step src step phase uses calm s i = Some (s', os)" "timely now (ch_task s)"
    "\<And>v. channel_time src stamp i = Some v \<Longrightarrow> now = v"
    "\<And>j s' os. step (ch_task s) (j, now) = Some (s', os) \<Longrightarrow> timely now s'"
  shows "timely now (ch_task s')"
proof (cases i)
  case (TaskStep j)
  with assms show ?thesis by (cases j) (auto simp: channel_step.simps split: if_splits)
qed (use assms(1,2) in \<open>auto simp: channel_step.simps split: option.splits\<close>)

interpretation debounce_live: live_client "debounce_channel src cfg" "channel_init w debounce_init" "channel_phase debounce_phase"
    "channel_reply debounce_reply" "channel_effect src" "channel_owes debounce_gathers" "channel_time src stamp"
    "debounce_within cfg" "\<lambda>D now s. debounce_timely D now (ch_task s)" for src w cfg
proof (intro live_client.intro debounce_client.client.lane_client_axioms live_client_axioms.intro, goal_cases)
  case (1 D)
  show ?case by (simp add: debounce_timely_def channel_init_def debounce_init_def)
next
  case (2 D now s t)
  then show ?case by (rule debounce_timely_later)
next
  case (3 D now s i s' os)
  show ?case
    by (rule channel_timely_step [OF 3(3)]) (use 3(2,4) debounce_timely_step [OF 3(1,2)] in blast)+
next
  case (4 D now s)
  then show ?case
    using collecting_submits [of s D now cfg src] after_run_submits [of s now cfg D src] waiting_submits [of s now cfg D src]
    by (cases "d_pc (ch_task s)") (auto simp: channel_owes_def debounce_gathers_def channel_phase_def collecting_def debounce_timely_def)
next
  case (5 D now s)
  then have pc: "d_pc (ch_task s) = DStarting" "d_clock (ch_task s) \<le> now"
    by (auto simp: channel_phase_def debounce_timely_def split: debounce_pc.splits)
  show ?case
    by (intro exI [of _ "TaskStep (DStartResult (Inr ()), now)"])
       (simp add: channel_step.simps debounce_at.simps pc channel_phase_def)
next
  case (6 D now s report)
  then have pc: "d_pc (ch_task s) = DRunning" "d_clock (ch_task s) \<le> now"
    by (auto simp: channel_phase_def debounce_timely_def split: debounce_pc.splits)
  with 6 have "0 < ch_queue s" by (simp add: channel_owes_def debounce_gathers_def collecting_def)
  with 6(1) pc show ?case
    by (intro exI [of _ "TaskStep (DFinished (Inr report), now)"])
       (auto simp: channel_step.simps debounce_at.simps intro: after_run_submits)
qed

section \<open>The runner of a resume source\<close>

abbreviation "resume_channel src cfg \<equiv> channel_step src (resume_step cfg) resume_phase resume_uses resume_calm"

abbreviation "resume_submits src cfg \<equiv>
  reaches_submission (resume_channel src cfg) (channel_time src stamp) (channel_phase resume_phase) (channel_reply resume_reply)"

definition resume_within :: "resume_config \<Rightarrow> duration \<Rightarrow> bool" where
  "resume_within cfg D \<longleftrightarrow> rc_settle cfg \<le> D"

definition resume_timely :: "duration \<Rightarrow> instant \<Rightarrow> resume_pc \<Rightarrow> bool" where
  "resume_timely D now pc \<longleftrightarrow> (case pc of RQuiet u \<Rightarrow> u \<le> now + D | _ \<Rightarrow> True)"

lemma settle_timely:
  "resume_within cfg D \<Longrightarrow> resume_timely D now (settle_until cfg now)"
  "resume_within cfg D \<Longrightarrow> resume_timely D now (enter_quiet cfg now)"
  by (auto simp: resume_timely_def resume_within_def enter_quiet_def settle_until_def instant_add_def split: option.splits if_splits)

lemma run_once_timely: "resume_run_once pc i = Some pc' \<Longrightarrow> resume_timely D now pc'"
  by (cases "(pc, i)" rule: resume_run_once.cases) (auto simp: resume_timely_def split: if_splits)

lemma resume_timely_step:
  assumes "resume_within cfg D" "resume_timely D now pc" "resume_step cfg pc (i, now) = Some (pc', os)"
  shows "resume_timely D now pc'"
proof (cases pc)
  case (RQuiet u)
  with assms show ?thesis
    by (cases "(cfg, now, u, i)" rule: wait_for_quiet.cases)
       (auto simp: resume_submit_def settle_timely resume_timely_def [of _ _ RStarting] resume_timely_def [of _ _ ROver] split: if_splits)
qed (use assms run_once_timely in \<open>auto simp: resume_submit_def settle_timely resume_timely_def [of _ _ RStarting]
       resume_timely_def [of _ _ ROver] resume_timely_def [of _ _ RWait] split: resume_input.splits option.splits if_splits\<close>)

lemma resume_channel_step:
  assumes "case resume_step cfg (ch_task s) (i, t) of None \<Rightarrow> False
      | Some (d, os) \<Rightarrow> resume_submits src cfg t until (s\<lparr>ch_queue := after_use (ch_queue s) (resume_uses (i, t)), ch_task := d\<rparr>)"
    and "resume_calm (i, t)" "can_use (es_ended src (ch_source s)) (ch_queue s) (resume_uses (i, t))" "resume_reply (i, t) = None" "now \<le> t"
  shows "resume_submits src cfg now until s"
proof -
  obtain d os where after: "resume_step cfg (ch_task s) (i, t) = Some (d, os)"
    "resume_submits src cfg t until (s\<lparr>ch_queue := after_use (ch_queue s) (resume_uses (i, t)), ch_task := d\<rparr>)"
    using assms(1) by (auto split: option.splits)
  show ?thesis
    by (rule reaches_submission_step [where i = "TaskStep (i, t)" and t = t]) (use after assms(2-) in \<open>simp_all add: channel_step.simps\<close>)
qed

lemma resume_started: "ch_task s = RStarting \<Longrightarrow> now \<le> until \<Longrightarrow> resume_submits src cfg now until s"
  by (rule reaches_submission_now) (simp_all add: channel_phase_def)

lemma quiet_submits: "ch_task s = RQuiet u \<Longrightarrow> resume_submits src cfg now (max u now) s"
  by (rule resume_channel_step [where i = RsTimer and t = "max u now"]) (simp_all add: resume_submit_def resume_started)

lemma quiet_drain_submits: "ch_task s = RQuietDrain \<Longrightarrow> now \<le> until \<Longrightarrow> resume_submits src cfg now until s"
  by (rule resume_channel_step [where i = "RsDrained (ch_queue s)" and t = now]) (simp_all add: resume_submit_def resume_started)

lemma enter_quiet_submits:
  assumes "now + D < instant_limit" "resume_within cfg D" "ch_task s = enter_quiet cfg now"
  shows "resume_submits src cfg now (now + D) s"
proof (cases "rc_settle cfg = 0")
  case True
  with assms(3) have "ch_task s = RQuietDrain" by (simp add: enter_quiet_def)
  then show ?thesis by (rule quiet_drain_submits) simp
next
  case False
  with assms have pc: "ch_task s = RQuiet (now + rc_settle cfg)"
    by (simp add: enter_quiet_def settle_until_def instant_add_def resume_within_def)
  from quiet_submits [OF this] show ?thesis
    by (rule reaches_submission_until) (use assms(2) in \<open>simp add: resume_within_def\<close>)
qed

lemma resume_drain_submits:
  assumes "now + D < instant_limit" "resume_within cfg D" "ch_task s = RDrain" "0 < ch_queue s"
  shows "resume_submits src cfg now (now + D) s"
  using assms
  by (intro resume_channel_step [where i = "RsDrained (ch_queue s)" and t = now]) (simp_all add: enter_quiet_submits)

lemma resume_wait_submits:
  assumes "now + D < instant_limit" "resume_within cfg D" "ch_task s = RWait" "0 < ch_queue s"
  shows "resume_submits src cfg now (now + D) s"
  using assms
  by (intro resume_channel_step [where i = "RsEvent (Some ())" and t = now]) (simp_all add: enter_quiet_submits)

interpretation resume_live: live_client "resume_channel src cfg" "channel_init w RWait" "channel_phase resume_phase"
    "channel_reply resume_reply" "channel_effect src" "channel_owes resume_gathers" "channel_time src stamp"
    "resume_within cfg" "\<lambda>D now s. resume_timely D now (ch_task s)" for src w cfg
proof (intro live_client.intro resume_client.client.lane_client_axioms live_client_axioms.intro, goal_cases)
  case (1 D)
  show ?case by (simp add: resume_timely_def channel_init_def)
next
  case (2 D now s t)
  then show ?case by (auto simp: resume_timely_def split: resume_pc.splits)
next
  case (3 D now s i s' os)
  show ?case
    by (rule channel_timely_step [OF 3(3)]) (use 3(2,4) resume_timely_step [OF 3(1,2)] in blast)+
next
  case (4 D now s)
  have "now + D < instant_limit" using 4(3) by simp
  note wait = resume_drain_submits [OF this 4(1), of s src] resume_wait_submits [OF this 4(1), of s src]
  show ?case
  proof (cases "ch_task s")
    case (RQuiet u)
    from quiet_submits [OF this] show ?thesis
      by (rule reaches_submission_until) (use 4(2) RQuiet in \<open>simp add: resume_timely_def\<close>)
  next
    case RQuietDrain
    then show ?thesis by (rule quiet_drain_submits) simp
  next
    case RWait
    with 4(4) have "resume_submits src cfg now (now + D) s" by (intro wait) (auto simp: channel_owes_def resume_gathers_def)
    then show ?thesis by (rule reaches_submission_until) simp
  next
    case RDrain
    with 4(4) have "resume_submits src cfg now (now + D) s" by (intro wait) (auto simp: channel_owes_def resume_gathers_def)
    then show ?thesis by (rule reaches_submission_until) simp
  qed (use 4(5) in \<open>simp_all add: channel_phase_def\<close>)
next
  case (5 D now s)
  then have pc: "ch_task s = RStarting" by (auto simp: channel_phase_def split: resume_pc.splits)
  show ?case
    by (intro exI [of _ "TaskStep (RsStartResult (Inr ()), now)"]) (simp add: channel_step.simps pc channel_phase_def)
next
  case (6 D now s report)
  then have pc: "ch_task s = RFinishing" by (auto simp: channel_phase_def split: resume_pc.splits)
  with 6 have "0 < ch_queue s" by (simp add: channel_owes_def resume_gathers_def)
  moreover have "now + D < instant_limit" using 6(3) by simp
  ultimately have "resume_submits src cfg now (now + D) (s\<lparr>ch_task := RDrain\<rparr>)" by (intro resume_drain_submits 6(1)) simp_all
  then have "resume_submits src cfg now (now + 2 * D) (s\<lparr>ch_task := RDrain\<rparr>)" by (rule reaches_submission_until) simp
  then show ?case
    by (intro exI [of _ "TaskStep (RsFinished (Inr report), now)"]) (simp add: channel_step.simps pc)
qed

section \<open>The runner of a filesystem source\<close>

abbreviation "fs_submits cfg \<equiv> reaches_submission (fs_step cfg) stamp fs_phase fs_reply"

definition fs_within :: "fs_config \<Rightarrow> duration \<Rightarrow> bool" where
  "fs_within cfg D \<longleftrightarrow> fc_debounce cfg \<le> D \<and> fc_max_debounce cfg \<le> D \<and> fc_self_settle cfg \<le> D"

text \<open>The times a source has noted are past, and what it sleeps until is near.\<close>

definition tracker_timed :: "instant \<Rightarrow> dirty_tracker \<Rightarrow> bool" where
  "tracker_timed now d \<longleftrightarrow> (\<forall>t. dt_first d = Some t \<or> dt_last d = Some t \<longrightarrow> t \<le> now)"

definition batch_timed :: "instant \<Rightarrow> event_batch \<Rightarrow> bool" where
  "batch_timed now b \<longleftrightarrow> eb_first b \<le> now \<and> eb_last b \<le> now"

definition fs_timely :: "duration \<Rightarrow> instant \<Rightarrow> fs_state \<Rightarrow> bool" where
  "fs_timely D now s \<longleftrightarrow> (case fr_pc s of
     FSettling b due \<Rightarrow> batch_timed now b \<and> due \<le> now + D
   | FReading d events_open \<Rightarrow> tracker_timed now d
   | FSubmitting k d events_open \<Rightarrow> tracker_timed now d
   | FRunning k d events_open own \<Rightarrow> tracker_timed now d
   | FSelfSettle until d events_open \<Rightarrow> tracker_timed now d \<and> until \<le> now + D
   | FRebaseline d events_open \<Rightarrow> tracker_timed now d
   | _ \<Rightarrow> True)"

lemma tracker_timed_parts [simp]:
  "tracker_timed now clean" "tracker_timed now d \<Longrightarrow> tracker_timed now (note_now now d)"
  "tracker_timed now d \<Longrightarrow> into_batch d = Some b \<Longrightarrow> batch_timed now b" "batch_timed now (new_batch now)"
  "batch_timed now b \<Longrightarrow> batch_timed now (b\<lparr>eb_last := now\<rparr>)"
  by (auto simp: tracker_timed_def clean_def note_now_def into_batch_def batch_timed_def new_batch_def unwrap_or_def split: option.splits)

lemma fs_timely_later: "fs_timely D now s \<Longrightarrow> now \<le> t \<Longrightarrow> fs_timely D t s"
  by (auto simp: fs_timely_def tracker_timed_def batch_timed_def split: fs_pc.splits)

lemma fs_timely_goto [simp]: "fs_timely D now (fs_goto pc s) = fs_timely D now (s\<lparr>fr_pc := pc\<rparr>)"
  by (simp add: fs_goto_def)

lemma fs_timely_simps [simp]:
  "fr_pc s = FTop \<Longrightarrow> fs_timely D now s" "fr_pc s = FRecv \<Longrightarrow> fs_timely D now s" "fr_pc s = FOver \<Longrightarrow> fs_timely D now s"
  "fr_pc s = FPanicked \<Longrightarrow> fs_timely D now s" "fr_pc s = FInitRead \<Longrightarrow> fs_timely D now s"
  "fr_pc s = FSettling b due \<Longrightarrow> fs_timely D now s = (batch_timed now b \<and> due \<le> now + D)"
  "fr_pc s = FReading d o1 \<Longrightarrow> fs_timely D now s = tracker_timed now d"
  "fr_pc s = FSubmitting k d o1 \<Longrightarrow> fs_timely D now s = tracker_timed now d"
  "fr_pc s = FRunning k d o1 own \<Longrightarrow> fs_timely D now s = tracker_timed now d"
  "fr_pc s = FSelfSettle u d o1 \<Longrightarrow> fs_timely D now s = (tracker_timed now d \<and> u \<le> now + D)"
  "fr_pc s = FRebaseline d o1 \<Longrightarrow> fs_timely D now s = tracker_timed now d"
  by (simp_all add: fs_timely_def)

lemma fs_trigger_timely [simp]: "fs_timely D now (fst (fs_trigger k now s))"
  by (simp add: fs_trigger_def)

lemma fs_check_timely [simp]: "fs_timely D now (fst (fs_check_now cfg now s))"
  by (simp add: fs_check_now_def)

lemma fs_settle_timely:
  "fs_within cfg D \<Longrightarrow> batch_timed now b \<Longrightarrow> fs_timely D now (fst (fs_settle cfg now b s))"
  by (auto simp: fs_settle_def fs_within_def batch_timed_def instant_add_def Let_def min_def split: option.splits if_splits)

lemma fs_done_timely:
  "fs_within cfg D \<Longrightarrow> tracker_timed now d \<Longrightarrow> fs_timely D now (fst (fs_done cfg now d s))"
  by (auto simp: fs_done_def into_operation_result_def fs_settle_timely split: option.splits)

lemma fs_own_timely:
  "fs_within cfg D \<Longrightarrow> tracker_timed now d \<Longrightarrow> fs_timely D now (fst (fs_rebaseline cfg now d s))"
  "fs_within cfg D \<Longrightarrow> tracker_timed now d \<Longrightarrow> fs_timely D now (fst (settle_after_own_command cfg now d s))"
  "fs_within cfg D \<Longrightarrow> tracker_timed now d \<Longrightarrow> fs_timely D now (fst (fs_command_failed cfg k now d s))"
  by (auto simp: fs_rebaseline_def settle_after_own_command_def fs_command_failed_def fs_done_timely fs_within_def)

lemma collecting_timely:
  assumes "collecting_events cfg now s resume suppress d events_open i = Some (s', os)" "tracker_timed now d"
    "\<And>d' open'. tracker_timed now d' \<Longrightarrow> fs_timely D now (s\<lparr>fr_pc := resume d' open'\<rparr>)"
  shows "fs_timely D now s'"
  using assms
  by (cases "(cfg, now, s, resume, suppress, d, events_open, i)" rule: collecting_events.cases) (auto split: if_splits)

lemma fs_decided_timely:
  assumes "fs_within cfg D" "tracker_timed now d"
  shows "fs_timely D now (fst (compare_state cfg now s d r))" "fs_timely D now (fst (accept_state cfg now s d r))"
    "fs_timely D now (fst (command_running cfg now s k d events_open own l))"
proof -
  show "fs_timely D now (fst (compare_state cfg now s d r))"
    using assms by (cases "(cfg, now, s, d, r)" rule: compare_state.cases) (auto simp: fs_done_timely)
  show "fs_timely D now (fst (accept_state cfg now s d r))"
    using assms by (cases "(cfg, now, s, d, r)" rule: accept_state.cases) (auto simp: fs_done_timely)
  show "fs_timely D now (fst (command_running cfg now s k d events_open own l))"
    using assms by (cases "(cfg, now, s, k, d, events_open, own, l)" rule: command_running.cases) (auto simp: fs_own_timely)
qed

lemma fs_waiting_timely:
  assumes "fs_within cfg D"
  shows "recv_work cfg now s i = Some (s', os) \<Longrightarrow> fs_timely D now s'"
    "wait_for_settled_batch cfg now s b due i = Some (s', os) \<Longrightarrow> batch_timed now b \<Longrightarrow> fs_timely D now s'"
    "recv_work_top now s i = Some (s', os) \<Longrightarrow> fs_timely D now s'"
proof -
  have trigger: "fs_timely D now s'" if "fs_trigger k now t = (s', os)" for k t
    using that by (auto simp: fs_trigger_def)
  show "recv_work cfg now s i = Some (s', os) \<Longrightarrow> fs_timely D now s'"
    using fs_settle_timely [OF assms, of now "new_batch now" s] trigger
    by (cases "(cfg, now, s, i)" rule: recv_work.cases)
       (auto simp: run_on_startup_trigger_def apsnd_def map_prod_def split: if_splits option.splits bool.splits prod.splits)
  have check: "fs_timely D now s'" if "fs_check_now cfg now s = (s', os)"
    using that fs_check_timely [of D now cfg s] by simp
  show "wait_for_settled_batch cfg now s b due i = Some (s', os) \<Longrightarrow> batch_timed now b \<Longrightarrow> fs_timely D now s'"
    using fs_settle_timely [OF assms, of now b s] fs_settle_timely [OF assms, of now "b\<lparr>eb_last := now\<rparr>" s] check
    by (cases "(cfg, now, s, b, due, i)" rule: wait_for_settled_batch.cases)
       (auto simp: apsnd_def map_prod_def split: if_splits prod.splits)
  show "recv_work_top now s i = Some (s', os) \<Longrightarrow> fs_timely D now s'"
    using trigger
    by (cases i) (auto simp: recv_work_top_def run_on_startup_trigger_def split: if_splits)
qed

lemma fs_timely_step:
  assumes "fs_within cfg D" "fs_timely D now s" "fs_step cfg s (i, now) = Some (s', os)"
  shows "fs_timely D now s'"
proof -
  note step = assms(3) [unfolded fs_step.simps]
  note decided = fs_decided_timely [OF assms(1)] fs_own_timely [OF assms(1)]
  show ?thesis
  proof (cases "fr_pc s")
    case FStart
    with step show ?thesis by (cases i) (auto simp: fs_begin_def split: if_splits)
  next
    case FInitRead
    show ?thesis
    proof (cases i)
      case (FsRead r)
      with step FInitRead show ?thesis by (cases "(r, s)" rule: fs_initial_baseline.cases) (auto split: if_splits)
    qed (use step FInitRead in simp_all)
  next
    case FTop
    with step show ?thesis using fs_waiting_timely(3) [OF assms(1)] by simp
  next
    case FRecv
    with step show ?thesis using fs_waiting_timely(1) [OF assms(1)] by simp
  next
    case (FSettling b due)
    with step assms(2) show ?thesis using fs_waiting_timely(2) [OF assms(1)] by simp
  next
    case (FReading d events_open)
    then have d: "tracker_timed now d" using assms(2) by simp
    show ?thesis
    proof (cases "\<exists>r. i = FsRead r")
      case True
      with step FReading decided(1) [OF d] show ?thesis by (auto simp: fs_reading_def) (metis fst_conv)
    next
      case False
      with step FReading have "collecting_events cfg now s FReading False d events_open i = Some (s', os)"
        by (auto simp: fs_reading_def split: fs_input.splits)
      then show ?thesis by (rule collecting_timely [OF _ d]) simp
    qed
  next
    case (FSubmitting k d events_open)
    then have d: "tracker_timed now d" using assms(2) by simp
    show ?thesis
    proof (cases "\<exists>r. i = FsStartResult r")
      case True
      with step FSubmitting obtain p where "p = (s', os)"
        "p = fs_command_failed cfg k now d s \<or> p = (fs_goto (FRunning k d events_open False) s, [])"
        by (auto simp: fs_submitting_def split: sum.splits)
      moreover have "fs_timely D now (fs_goto (FRunning k d events_open False) s)" using d by (simp add: fs_timely_def fs_goto_def)
      ultimately show ?thesis using decided(6) [OF d, of k s] by (metis fst_conv)
    next
      case False
      with step FSubmitting have "collecting_events cfg now s (FSubmitting k) False d events_open i = Some (s', os)"
        by (auto simp: fs_submitting_def split: fs_input.splits)
      then show ?thesis by (rule collecting_timely [OF _ d]) simp
    qed
  next
    case (FRunning k d events_open own)
    then have d: "tracker_timed now d" using assms(2) by simp
    show ?thesis
    proof (cases "\<exists>l. i = FsLifecycle l")
      case True
      with step FRunning decided(3) [OF d] show ?thesis by (auto simp: fs_running_def) (metis fst_conv)
    next
      case False
      with step FRunning have "collecting_events cfg now s (\<lambda>d' open'. FRunning k d' open' own) own d events_open i = Some (s', os)"
        by (auto simp: fs_running_def split: fs_input.splits)
      then show ?thesis by (rule collecting_timely [OF _ d]) simp
    qed
  next
    case (FSelfSettle u d events_open)
    then have d: "tracker_timed now d" "u \<le> now + D" using assms(2) by simp_all
    show ?thesis
    proof (cases "i = FsTimer")
      case True
      with step FSelfSettle decided(4) [OF d(1)] show ?thesis by (auto simp: fs_own_settling_def split: if_splits) (metis fst_conv)
    next
      case False
      with step FSelfSettle have "collecting_events cfg now s (FSelfSettle u) True d events_open i = Some (s', os)"
        by (auto simp: fs_own_settling_def split: fs_input.splits)
      then show ?thesis by (rule collecting_timely [OF _ d(1)]) (simp add: d(2))
    qed
  next
    case (FRebaseline d events_open)
    then have d: "tracker_timed now d" using assms(2) by simp
    show ?thesis
    proof (cases "\<exists>r. i = FsRead r")
      case True
      with step FRebaseline decided(2) [OF d] show ?thesis by (auto simp: fs_rebaselining_def) (metis fst_conv)
    next
      case False
      with step FRebaseline have "collecting_events cfg now s FRebaseline True d events_open i = Some (s', os)"
        by (auto simp: fs_rebaselining_def split: fs_input.splits)
      then show ?thesis by (rule collecting_timely [OF _ d]) simp
    qed
  qed (use step in simp_all)
qed

lemma fs_own_step:
  assumes "case fs_step cfg s (i, t) of None \<Rightarrow> False | Some (s', os) \<Rightarrow> fs_submits cfg t until s'" "fs_reply (i, t) = None" "now \<le> t"
  shows "fs_submits cfg now until s"
proof -
  obtain s' os where after: "fs_step cfg s (i, t) = Some (s', os)" "fs_submits cfg t until s'"
    using assms(1) by (auto split: option.splits)
  show ?thesis by (rule reaches_submission_step [where i = "(i, t)" and t = t]) (use after assms(2,3) in simp_all)
qed

lemma fs_started: "fr_pc s = FSubmitting k d events_open \<Longrightarrow> now \<le> until \<Longrightarrow> fs_submits cfg now until s"
  by (rule reaches_submission_now) simp_all

lemma reading_submits:
  assumes "fr_pc s = FReading d events_open" "now \<le> until"
  shows "fs_submits cfg now until s"
proof -
  obtain st where "fr_baseline s \<noteq> Some (Known st)" by (cases "fr_baseline s = Some (Known [])") auto
  with assms(2) show ?thesis
    by (intro fs_own_step [where i = "FsRead (Inr st)" and t = now])
       (simp_all add: assms(1) fs_step.simps fs_points fs_trigger_def fs_goto_def fs_started)
qed

lemma check_now_submits: "now \<le> until \<Longrightarrow> fs_submits cfg now until (fst (fs_check_now cfg now s))"
  by (cases "fc_has_reader cfg")
     (simp_all add: fs_check_now_def fs_trigger_def fs_goto_def reading_submits fs_started)

lemma settling_submits: "fr_pc s = FSettling b due \<Longrightarrow> fs_submits cfg now (max due now) s"
  using check_now_submits [of "max due now" "max due now" cfg s]
  by (intro fs_own_step [where i = FsTimer and t = "max due now"]) (simp_all add: fs_step.simps case_prod_beta)

lemma settle_submits:
  assumes "batch_timed now b" "fs_within cfg D" "now + D < instant_limit"
  shows "fs_submits cfg now (now + D) (fst (fs_settle cfg now b s))"
proof -
  let ?due = "min (eb_last b + fc_debounce cfg) (eb_first b + fc_max_debounce cfg)"
  have room: "eb_last b + fc_debounce cfg \<le> now + D" "eb_first b + fc_max_debounce cfg \<le> now + D"
    using assms(1,2) by (auto simp: batch_timed_def fs_within_def intro: add_mono)
  then have settle: "fs_settle cfg now b s = (if ?due \<le> now then fs_check_now cfg now s else (fs_goto (FSettling b ?due) s, []))"
    using assms(3) by (simp add: fs_settle_def instant_add_def Let_def)
  show ?thesis
  proof (cases "?due \<le> now")
    case True
    then show ?thesis unfolding settle by (simp only: if_True check_now_submits le_add1)
  next
    case False
    then have s: "fst (fs_settle cfg now b s) = fs_goto (FSettling b ?due) s" unfolding settle by (simp only: if_False fst_conv)
    have "fs_submits cfg now (max ?due now) (fs_goto (FSettling b ?due) s)"
      by (rule settling_submits) (simp add: fs_goto_def)
    then show ?thesis unfolding s by (rule reaches_submission_until) (use room in auto)
  qed
qed

lemma done_submits:
  assumes "dt_first d \<noteq> None" "tracker_timed now d" "fs_within cfg D" "now + D < instant_limit"
  shows "fs_submits cfg now (now + D) (fst (fs_done cfg now d s))"
proof -
  obtain b where "into_batch d = Some b" "into_operation_result d = ResDirtyAgain d"
    using assms(1) by (auto simp: into_batch_def into_operation_result_def)
  with assms(2) settle_submits [OF _ assms(3,4), of b s] show ?thesis by (simp add: fs_done_def)
qed

lemma rebaselining_submits:
  assumes "fr_pc s = FRebaseline d events_open" "dt_first d \<noteq> None" "tracker_timed now d" "fs_within cfg D" "now + D < instant_limit"
  shows "fs_submits cfg now (now + D) s"
  using assms(1) done_submits [OF assms(2-5)]
  by (intro fs_own_step [where i = "FsRead (Inl ReadUtf8)" and t = now]) (simp_all add: fs_step.simps fs_points case_prod_beta)

lemma rebaseline_submits:
  assumes "dt_first d \<noteq> None" "tracker_timed now d" "fs_within cfg D" "now + D < instant_limit"
  shows "fs_submits cfg now (now + D) (fst (fs_rebaseline cfg now d s))"
  using done_submits [OF assms] rebaselining_submits [OF _ assms] by (simp add: fs_rebaseline_def fs_goto_def)

lemma own_settling_submits:
  assumes "fr_pc s = FSelfSettle u d events_open" "u \<le> now + D" "dt_first d \<noteq> None" "tracker_timed now d" "fs_within cfg D"
    "now + 2 * D < instant_limit"
  shows "fs_submits cfg now (now + 2 * D) s"
proof -
  let ?v = "max u now"
  have v: "?v \<le> now + D" "tracker_timed ?v d" using assms(2,4) by (auto simp: tracker_timed_def)
  then have "fs_submits cfg ?v (?v + D) (fst (fs_rebaseline cfg ?v d s))"
    using assms(6) by (intro rebaseline_submits assms(3,5)) simp_all
  then have "fs_submits cfg now (?v + D) s"
    using assms(1) by (intro fs_own_step [where i = FsTimer and t = ?v]) (simp_all add: fs_step.simps fs_points case_prod_beta)
  then show ?thesis by (rule reaches_submission_until) (use v(1) in simp)
qed

lemma after_own_submits:
  assumes "dt_first d \<noteq> None" "tracker_timed now d" "fs_within cfg D" "now + 2 * D < instant_limit"
  shows "fs_submits cfg now (now + 2 * D) (fst (settle_after_own_command cfg now d s))"
proof (cases "fc_self_settle cfg = 0")
  case True
  have "fs_submits cfg now (now + D) (fst (fs_rebaseline cfg now d s))"
    by (rule rebaseline_submits) (use assms in simp_all)
  with True show ?thesis by (auto simp: settle_after_own_command_def elim: reaches_submission_until)
next
  case False
  then show ?thesis
    using own_settling_submits [of "fst (settle_after_own_command cfg now d s)" "now + fc_self_settle cfg" d True now D cfg] assms
    by (simp add: settle_after_own_command_def fs_goto_def fs_within_def)
qed

lemma failed_submits:
  assumes "dt_first d \<noteq> None" "tracker_timed now d" "fs_within cfg D" "now + D < instant_limit"
  shows "fs_submits cfg now (now + D) (fst (fs_command_failed cfg k now d s))"
  using assms done_submits [of "if k = BatchTrigger then note_now now d else d" now cfg D s]
  by (auto simp: fs_command_failed_def note_now_def tracker_timed_def split: if_splits)

interpretation fs_live: live_client "fs_step cfg" "fs_init ready startup" fs_phase fs_reply fs_effect fs_owes stamp
    "fs_within cfg" fs_timely for cfg ready startup
proof (intro live_client.intro fs_client.lane_client_axioms live_client_axioms.intro, goal_cases)
  case (1 D)
  show ?case by (simp add: fs_timely_def fs_init_def)
next
  case (2 D now s t)
  then show ?case by (rule fs_timely_later)
next
  case (3 D now s i s' os)
  then show ?case using fs_timely_step [OF 3(1,2)] by (cases i) auto
next
  case (4 D now s)
  have room: "now + D < instant_limit" using 4(3) by simp
  show ?case
  proof (cases "fr_pc s")
    case (FSettling b due)
    from settling_submits [OF this] show ?thesis
      by (rule reaches_submission_until) (use 4(2) FSettling in simp)
  next
    case (FReading d events_open)
    then show ?thesis by (rule reading_submits) simp
  next
    case (FSelfSettle u d events_open)
    then show ?thesis by (rule own_settling_submits) (use 4 FSelfSettle in \<open>simp_all add: fs_owes_def\<close>)
  next
    case (FRebaseline d events_open)
    then have "fs_submits cfg now (now + D) s"
      by (rule rebaselining_submits) (use 4 FRebaseline room in \<open>simp_all add: fs_owes_def\<close>)
    then show ?thesis by (rule reaches_submission_until) simp
  qed (use 4(4,5) in \<open>simp_all add: fs_owes_def\<close>)
next
  case (5 D now s)
  then obtain k d events_open where pc: "fr_pc s = FSubmitting k d events_open" by (auto split: fs_pc.splits)
  show ?case
    by (intro exI [of _ "(FsStartResult (Inr ()), now)"]) (simp add: fs_step.simps fs_points pc fs_goto_def)
next
  case (6 D now s report)
  then obtain k d events_open own where pc: "fr_pc s = FRunning k d events_open own" by (auto split: fs_pc.splits)
  with 6 have d: "dt_first d \<noteq> None" "tracker_timed now d" by (simp_all add: fs_owes_def)
  have room: "now + D < instant_limit" using 6(3) by simp
  have "fs_submits cfg now (now + 2 * D) (fst (fs_command_failed cfg k now d s))"
    by (rule reaches_submission_until [OF failed_submits [OF d 6(1) room]]) simp
  with after_own_submits [OF d 6(1,3), of s] show ?case
    by (intro exI [of _ "(FsLifecycle (Some (Finished report)), now)"] exI [of _ "fst (command_running cfg now s k d events_open own (Some (Finished report)))"]
          exI [of _ "snd (command_running cfg now s k d events_open own (Some (Finished report)))"])
       (simp add: fs_step.simps fs_points pc)
qed

section \<open>Every chain delivers\<close>

lemma debounce_delivers:
  assumes "lane_knows l c"
  shows "delivery (channel_phase debounce_phase) (channel_owes debounce_gathers) (channel_effect src) (debounce_within d)
    (channel_time src stamp) (debounce_pipeline src d l c) (debounce_pipeline_init w) l c"
  unfolding debounce_pipeline_def debounce_pipeline_init_def by (rule debounce_live.delivers [OF assms])

lemma resume_delivers:
  assumes "lane_knows l c"
  shows "delivery (channel_phase resume_phase) (channel_owes resume_gathers) (channel_effect src) (resume_within r)
    (channel_time src stamp) (resume_pipeline src r l c) (resume_pipeline_init w) l c"
  unfolding resume_pipeline_def resume_pipeline_init_def by (rule resume_live.delivers [OF assms])

lemma fs_delivers:
  assumes "lane_knows l c"
  shows "delivery fs_phase fs_owes fs_effect (fs_within f) stamp (fs_pipeline f l c) (fs_pipeline_init ready startup) l c"
  unfolding fs_pipeline_def fs_pipeline_init_def by (rule fs_live.delivers [OF assms])

end
