(* ===== verification/Event_Sources.thy ===== *)
theory Event_Sources
  imports Pipeline_Progress Imap_Watcher Gmail_Poll
begin

text \<open>
  The sources at the other end of the event channels of \<^verbatim>\<open>Event_Pipeline\<close>: the IMAP watcher, the
  Gmail poller and the resume listener, and the chains from each of them to its command.
\<close>

section \<open>The sources\<close>

fun imap_sent :: "imap_output \<Rightarrow> send_result option" where
  "imap_sent (ImQueue r) = Some r"
| "imap_sent _ = None"

definition imap_ended :: "watch_state \<Rightarrow> bool" where
  "imap_ended s \<longleftrightarrow> (case wt_pc s of WOver r \<Rightarrow> True | WPanicked \<Rightarrow> True | _ \<Rightarrow> False)"

definition imap_events :: "mailbox_task \<Rightarrow> (watch_state, watch_input \<times> instant, imap_output) event_source" where
  "imap_events t = \<lparr>es_step = watch_step t, es_sent = imap_sent, es_ended = imap_ended, es_time = stamp\<rparr>"

fun gmail_sent :: "poll_output \<Rightarrow> send_result option" where
  "gmail_sent (GmQueue r) = Some r"
| "gmail_sent _ = None"

definition gmail_ended :: "poll_state \<Rightarrow> bool" where
  "gmail_ended s \<longleftrightarrow> (case pw_pc s of POver r \<Rightarrow> True | PPanicked \<Rightarrow> True | _ \<Rightarrow> False)"

definition gmail_events :: "poll_task \<Rightarrow> (poll_state, poll_input \<times> instant, poll_output) event_source" where
  "gmail_events t = \<lparr>es_step = poll_step t, es_sent = gmail_sent, es_ended = gmail_ended, es_time = stamp\<rparr>"

fun listener_sent :: "listener_output \<Rightarrow> send_result option" where
  "listener_sent (LiQueue r) = Some r"
| "listener_sent _ = None"

definition listener_events :: "resume_watch_task \<Rightarrow> (listener_pc, listener_input, listener_output) event_source" where
  "listener_events t = \<lparr>es_step = listener_step t, es_sent = listener_sent, es_ended = (\<lambda>pc. pc = ListenerOver),
     es_time = (\<lambda>i. None)\<rparr>"

section \<open>The chains\<close>

text \<open>A mailbox: watcher, event channel, debouncer and the lane of its command.\<close>

definition imap_pipeline where
  "imap_pipeline t d = debounce_pipeline (imap_events t) d"

definition imap_pipeline_init where
  "imap_pipeline_init ready = debounce_pipeline_init (watch_init ready)"

definition gmail_pipeline where
  "gmail_pipeline t d = debounce_pipeline (gmail_events t) d"

definition gmail_pipeline_init where
  "gmail_pipeline_init ready = debounce_pipeline_init (poll_init ready)"

definition listener_pipeline where
  "listener_pipeline t r = resume_pipeline (listener_events t) r"

definition listener_pipeline_init where
  "listener_pipeline_init ready = resume_pipeline_init (ListenerSetup ready)"

text \<open>
  What the chains promise, from \<^verbatim>\<open>Lane_Progress\<close>, with what a delay \<open>D\<close> must be at least: the debounce
  and cooldown times of the task, the settle time of a resume source, or the delays of a filesystem
  source, each beside the intervals of the lane.
\<close>

definition changes_delivered where
  "changes_delivered src d = delivery (channel_phase debounce_phase) (channel_owes debounce_gathers) (channel_effect src)
     (debounce_within d) (channel_time src stamp)"

definition resumes_delivered where
  "resumes_delivered src r = delivery (channel_phase resume_phase) (channel_owes resume_gathers) (channel_effect src)
     (resume_within r) (channel_time src stamp)"

definition file_changes_delivered where
  "file_changes_delivered cfg = delivery fs_phase fs_owes fs_effect (fs_within cfg) stamp"

lemma imap_changes_delivered:
  "lane_knows l c \<Longrightarrow> changes_delivered (imap_events t) d (imap_pipeline t d l c) (imap_pipeline_init ready) l c"
  unfolding changes_delivered_def imap_pipeline_def imap_pipeline_init_def by (rule debounce_delivers)

lemma gmail_changes_delivered:
  "lane_knows l c \<Longrightarrow> changes_delivered (gmail_events t) d (gmail_pipeline t d l c) (gmail_pipeline_init ready) l c"
  unfolding changes_delivered_def gmail_pipeline_def gmail_pipeline_init_def by (rule debounce_delivers)

lemma listener_resumes_delivered:
  "lane_knows l c \<Longrightarrow> resumes_delivered (listener_events t) r (listener_pipeline t r l c) (listener_pipeline_init ready) l c"
  unfolding resumes_delivered_def listener_pipeline_def listener_pipeline_init_def by (rule resume_delivers)

lemma fs_changes_delivered:
  "lane_knows l c \<Longrightarrow> file_changes_delivered cfg (fs_pipeline cfg l c) (fs_pipeline_init ready startup) l c"
  unfolding file_changes_delivered_def by (rule fs_delivers)

section \<open>An example\<close>

text \<open>
  A run of a listener's chain: two resumes are taken within the settle time of one run, a third
  one arrives during the command and is served by the next run.
\<close>

abbreviation "demo_resumed \<equiv> LinkClient (SourceStep (ListenerMessage (Some \<lparr>bm_body = Inr False, bm_sender = None, bm_serial = 7\<rparr>) SendOk))"

definition demo_chain_start :: "((listener_input, resume_input \<times> instant) channel_input) linked_input list" where
  "demo_chain_start = [LinkLane (LBoot 0), LinkClient (SourceStep (ListenerConnect SetupOk)), demo_resumed,
     LinkClient (TaskStep (RsEvent (Some ()), 5)), demo_resumed, LinkClient (TaskStep (RsEvent (Some ()), 6)),
     LinkClient (TaskStep (RsTimer, 9)), LinkClient (TaskStep (RsStartResult (Inr ()), 9))]"

definition demo_chain_run :: "((listener_input, resume_input \<times> instant) channel_input) linked_input list" where
  "demo_chain_run = [LinkLane (LRequest (Some (''a'', 2)) 9), demo_resumed, LinkLane (LDone (Inr demo_outcome) 12 [] False),
     LinkClient (TaskStep (RsFinished (Inr (ReportOutcome demo_outcome)), 12)), LinkClient (TaskStep (RsDrained 1, 12)),
     LinkClient (TaskStep (RsTimer, 15)), LinkClient (TaskStep (RsStartResult (Inr ()), 15)),
     LinkLane (LRequest (Some (''a'', 4)) 16), LinkLane (LTimer 17)]"

abbreviation "demo_chain \<equiv> listener_pipeline \<lparr>rw_watcher = ''r'', rw_broadcaster = True\<rparr> \<lparr>rc_settle = 3, rc_has_state = True\<rparr>
  (new_lane ''l'' demo_cmds True) ''a''"

lemmas chain_eval = listener_pipeline_def listener_pipeline_init_def listener_events_def resume_pipeline_def resume_pipeline_init_def
  linked_step.simps linked_init_def channel_init_def channel_step.simps channel_try_send_def after_send_def EVENT_CHANNEL_def
  map_filter_simps own_arrivals_def can_receive_def own_waiter_def lane_final_def channel_phase_def linked_alive_def
  watch_system_resume_forever_def listener_mark_def listener_event_def next_event_def enter_quiet_def settle_until_def
  resume_submit_def resume_mark_event_def resume_drain_events_def new_lane_def demo_cmds_def demo_outcome_def lane_mark_def
  record_report_def finish_waiters_def start_waiters_def starts_def lane_eval

lemma demo_chain_owes:
  "case run_machine demo_chain (listener_pipeline_init False) demo_chain_start of None \<Rightarrow> False
   | Some (s, h) \<Rightarrow> linked_alive (channel_phase resume_phase) s \<and>
       owed (channel_effect (listener_events \<lparr>rw_watcher = ''r'', rw_broadcaster = True\<rparr>)) ''a'' 0 h = 2"
  by (simp add: demo_chain_start_def chain_eval)

text \<open>The promise for this run: at time 9, with the two resumes owed, the command can start by 49.\<close>

lemma demo_chain_delivers:
  "\<exists>s h. run_machine demo_chain (listener_pipeline_init False) demo_chain_start = Some (s, h) \<and>
     can_start demo_chain (channel_time (listener_events \<lparr>rw_watcher = ''r'', rw_broadcaster = True\<rparr>) stamp) ''a'' 9 49 s"
proof -
  let ?t = "\<lparr>rw_watcher = ''r'', rw_broadcaster = True\<rparr>" and ?r = "\<lparr>rc_settle = 3, rc_has_state = True\<rparr>" and ?l = "new_lane ''l'' demo_cmds True"
  from demo_chain_owes obtain s h where r: "run_machine demo_chain (listener_pipeline_init False) demo_chain_start = Some (s, h)"
    "linked_alive (channel_phase resume_phase) s" "owed (channel_effect (listener_events ?t)) ''a'' 0 h = 2"
    by (auto split: option.splits)
  have knows: "lane_knows ?l ''a''" by (simp add: lane_knows_def new_lane_ok) (simp add: new_lane_def demo_cmds_def)
  have "paced (linked_time (channel_time (listener_events ?t) stamp)) 0 demo_chain_start 9"
    by (simp add: demo_chain_start_def listener_events_def)
  moreover have "resume_within ?r 5" by (simp add: resume_within_def)
  moreover have "lane_within 5 ?l" by (simp add: lane_within_def new_lane_def demo_cmds_def)
  moreover have "9 + 8 * 5 < instant_limit" by (simp add: instant_limit_def)
  ultimately have "can_start demo_chain (channel_time (listener_events ?t) stamp) ''a'' 9 (9 + 8 * 5) s"
    using listener_resumes_delivered [OF knows, of ?t ?r False] r
    unfolding resumes_delivered_def delivery_def by fastforce
  with r(1) show ?thesis by auto
qed

lemma demo_chain_serves:
  "case run_machine demo_chain (listener_pipeline_init False) (demo_chain_start @ demo_chain_run) of None \<Rightarrow> False
   | Some (s, h) \<Rightarrow> linked_alive (channel_phase resume_phase) s \<and>
       owed (channel_effect (listener_events \<lparr>rw_watcher = ''r'', rw_broadcaster = True\<rparr>)) ''a'' 0 h = 0"
  by (simp add: demo_chain_start_def demo_chain_run_def chain_eval)

end
