(* ===== verification/Spec2Isabelle.thy ===== *)
theory Spec2Isabelle
  imports Prelude Configuration_Valid Command_Line Task_Reports Event_Sources
begin

text \<open>
  Verification library of \<^verbatim>\<open>mailwake\<close>, a daemon that watches mailboxes, the Gmail API, files and
  system resumes, and runs configured shell commands when something happens.

  \<^bold>\<open>The program.\<close> \<^verbatim>\<open>src/src/main.rs\<close> reads a configuration and spawns asynchronous tasks: a
  watcher per source, a debouncer per IMAP or Gmail source, one runner per command lane, and
  a systemd status task. A watcher reports a change on a bounded channel; the debouncer (or
  the runner of a filesystem or resume source) collects changes and submits a trigger to the
  lane of the configured command; a lane coalesces requests and runs one command at a time
  through a shell process supervisor. All tasks report to one shared runtime state, whose
  health check gates the watchdog pings. A supervisor per task records a crash, and a
  permanent authentication failure ends the daemon with exit code 78.

  \<^bold>\<open>How tasks are modelled.\<close> A task is a step machine (\<^verbatim>\<open>Step_Machine\<close>): its state has the
  suspension point it is at, an input is what the suspended operation observed (the branch of a
  \<^verbatim>\<open>select!\<close> with its value, and the clock), and a step runs the code to the next suspension
  point and returns its visible effects in program order. An input that cannot occur has no
  step. A statement over all runs covers every order of completions the runtime can choose. The
  locales \<^verbatim>\<open>step_machine\<close> and \<^verbatim>\<open>halting_machine\<close> turn a proved step into facts about all runs;
  every task interprets one of them with its invariant over state and history.

  \<^bold>\<open>Theories and sources.\<close>
  \<^item> \<^verbatim>\<open>Prelude\<close>: durations and instants, results, string functions of the Rust library on UTF-8
    bytes, shared lemmas. \<^verbatim>\<open>Step_Machine\<close>: runs, reachable states, the machine locales, and runs
    whose clock never goes back (\<open>paced\<close>).
  \<^item> \<^verbatim>\<open>Runtime_State\<close> (\<^verbatim>\<open>state.rs\<close>): phases, the shared record, every operation, the status line
    and the health check; \<^verbatim>\<open>rt_op\<close> names the operations for the effects of the tasks.
  \<^item> \<^verbatim>\<open>Configuration\<close>, \<^verbatim>\<open>Configuration_Valid\<close> (\<^verbatim>\<open>config.rs\<close>): the configuration records,
    defaults, validation in the source's order, and its declarative meaning.
  \<^item> \<^verbatim>\<open>Pending_Requests\<close>, \<^verbatim>\<open>Command_Lane\<close> (\<^verbatim>\<open>lane.rs\<close>): the coalescing queue with the contract
    \<^verbatim>\<open>request_queue\<close>, and the lane runner that is its client.
  \<^item> \<^verbatim>\<open>Debouncer\<close> (\<^verbatim>\<open>debounce.rs\<close>): debounce, cooldown and submission.
  \<^item> \<^verbatim>\<open>Shell_Process\<close> (\<^verbatim>\<open>process.rs\<close>): pipe readers, the shared output limit, the supervisor and
    the termination of a process group; \<^verbatim>\<open>Shell_Command\<close> (\<^verbatim>\<open>command.rs\<close>): policies, outcomes, log
    records and tails. The locale \<^verbatim>\<open>shell_runner\<close> is what their clients rely on.
  \<^item> \<^verbatim>\<open>Auth_Helper\<close> (\<^verbatim>\<open>auth.rs\<close>): credentials from helpers and the startup check of helpers.
  \<^item> \<^verbatim>\<open>Imap_Protocol\<close>, \<^verbatim>\<open>Imap_Watcher\<close> (\<^verbatim>\<open>imap.rs\<close>): the dialogue with the server as an I/O monad
    over a connection, the IDLE loop and the reconnect loop; \<^verbatim>\<open>Retry_Backoff\<close>: its delays.
  \<^item> \<^verbatim>\<open>Gmail_Poll\<close> (\<^verbatim>\<open>gmail_api_poll.rs\<close>): the history tracker, requests and pages, errors, the poll
    loop. \<^verbatim>\<open>Fs_Watch\<close> (\<^verbatim>\<open>fs_state.rs\<close>): the state command, the runner with its own-event
    suppression, the watcher. \<^verbatim>\<open>Resume_Source\<close> (\<^verbatim>\<open>system_resume.rs\<close>): the shared broadcaster, the
    runner and the listener. \<^verbatim>\<open>Systemd_Notify\<close> (\<^verbatim>\<open>systemd.rs\<close>): messages and the status task.
  \<^item> \<^verbatim>\<open>Daemon\<close>, \<^verbatim>\<open>Daemon_Run\<close> (\<^verbatim>\<open>main.rs\<close>): the tasks a configuration gives and how they are wired;
    supervision, readiness, shutdown, exit codes and the subcommands.

  \<^item> \<^verbatim>\<open>Command_Line\<close> (\<^verbatim>\<open>main.rs\<close>): options, subcommands with the constraints their attributes declare,
    dispatch and exit code.
  \<^item> \<^verbatim>\<open>Lane_Client\<close>: a task that submits commands, linked to its lane as \<open>run_daemon\<close> connects them, and
    the contract \<^verbatim>\<open>lane_client\<close> of such a task. \<^verbatim>\<open>Event_Channel\<close>: a source, its bounded event channel
    and the task that receives, with the contract \<^verbatim>\<open>channel_client\<close> of the latter.
    \<^verbatim>\<open>Event_Pipeline\<close>: the debouncer, the resume runner and the filesystem runner as instances.
    \<^verbatim>\<open>Lane_Progress\<close>, \<^verbatim>\<open>Pipeline_Progress\<close>: the same for what can still happen, and by when, with the
    contract \<^verbatim>\<open>live_client\<close>. \<^verbatim>\<open>Event_Sources\<close>: the IMAP watcher, the Gmail poller and the resume listener at the
    other end of the channels. The properties of the whole chains stand in this theory.
  \<^item> \<^verbatim>\<open>Task_Reports\<close>: what each planned task can report to the shared state, by the contract
    \<^verbatim>\<open>reporting_task\<close> that every machine satisfies.

  \<^bold>\<open>What is shown.\<close>
  \<^item> The chains, for every kind of source: whatever order the tasks' steps take, a reported change
    is followed by a start of its command, or is still on its way, and some continuation of a run
    with a clock that goes forward starts it within eight times the longest delay of the chain.
  \<^item> The shared state: whatever the tasks report, it has one entry per source and lane.
  \<^item> Lanes: every request is answered exactly once, runs never overlap, intervals are kept, the
    queue implements first-arrival order, and requests during a run become one follow-up run.
  \<^item> Sources: no notification, event or resume is lost or submitted before it is due; a source's
    own command does not trigger it again; a resume is broadcast once by many listeners.
  \<^item> Processes: the output limit is exact under every interleaving of the two readers, and an
    interrupted run is reported only after its process group was killed.
  \<^item> Protocols: quoting reads back, authentication needs the server's tagged OK, a page search ends
    and misses nothing, accepted history only grows, retry delays double up to a cap.
  \<^item> Secrets and logs: a helper secret is clean, and a silent command's log depends only on the
    size of its output.
  \<^item> Daemon: validation is exact; a validated configuration always starts, healthy; watchdog pings
    are exactly the healthy ticks; readiness, shutdown order and exit codes are exact.
  \<^item> Some theorems show runs in which the code falls short of its intention: a huge minimum
    interval or timeout panics a lane, IDLE can miss a change, a slow poller is reported stale, a failed
    readiness answer skips the orderly shutdown, a failed startup run of a filesystem source is given
    up, and a test run by mailbox ignores the output policy of its command.

  \<^bold>\<open>Bounds and conventions.\<close> Integers keep their width where the code can overflow; durations and
  instants are nanoseconds as naturals, and an instant sum past the clock's limit is a panic.
  A machine does not force the instants of successive inputs to increase, unless its code compares
  them; statements over all its runs hold without that, and the bounded continuations of the chains
  are \<open>paced\<close>. Their bound is a count of delays: two for the task to submit, two for the lane to come to
  rest, and both again when a run has to end first and its request has to wait in turn.
  Arithmetic overflow is that of a build with overflow checks. No fuel is used: loops over input
  recurse on what they consume, and their termination is proved. The code between two suspension
  points takes no time. A hash map is an association list with distinct keys; its arbitrary order
  is the list's, and no statement depends on it. A string is the list of its UTF-8 bytes.
  An error that wraps another error's text takes that text as an argument.

  \<^bold>\<open>Not modelled.\<close> Third-party and system code is a parameter or an observation: TOML decoding,
  TLS, sockets, HTTP and JSON, D-Bus, the file notification library, base64, shell word
  splitting, the argument parser, process creation, signals and clocks. Tracing set-up and printed
  texts have no logic and are left out, as are contributed scripts, units and tests. A watcher and
  its debouncer each see their channel as the result of a send or a receive; \<^verbatim>\<open>Event_Channel\<close> joins
  the two ends and tracks its length. The event channel of a filesystem source is only the choice
  of its inputs, as suppressed events are not owed.
\<close>

section \<open>From a change to its command\<close>

lemma plan_trigger_in:
  "PlanDebounce source d tr \<in> set plans \<Longrightarrow> tr \<in> set (plan_triggers plans)"
  "PlanFs t startup cmd tr \<in> set plans \<Longrightarrow> tr \<in> set (plan_triggers plans)"
  "PlanResumeRunner source r tr \<in> set plans \<Longrightarrow> tr \<in> set (plan_triggers plans)"
  by (induction plans rule: plan_triggers.induct) auto

lemma planned_lane:
  assumes "validate c = Inr ()" "daemon_setup c = Inr (ops, plans)" "tr \<in> set (plan_triggers plans)"
  shows "\<exists>l specs. PlanLane l specs \<in> set plans \<and> ln_lane l = fst tr \<and> lane_knows l (ct_command (snd tr))"
proof -
  let ?b = "commands_by_lane (runtime_command_specs c)"
  from assms(1) have "config_ok c" by (simp add: validate_iff)
  from daemon_setup_ok [OF this] assms(2) obtain rest where
    plans: "plans = map (\<lambda>e. PlanLane (lane_of e) (snd e)) ?b @ rest" "list_all (served ?b) (plan_triggers rest)" by auto
  have "served ?b tr" using plans assms(3) by (simp add: list_all_iff)
  then obtain ss where ss: "(fst tr, ss) \<in> set ?b" "ct_command (snd tr) \<in> cs_name ` set ss" by (auto simp: served_def)
  have "PlanLane (lane_of (fst tr, ss)) ss \<in> set plans" using ss(1) unfolding plans(1) by force
  moreover have "ln_lane (lane_of (fst tr, ss)) = fst tr" by (simp add: lane_of_def new_lane_def)
  moreover have "lane_knows (lane_of (fst tr, ss)) (ct_command (snd tr))"
    using lane_of_knows [OF ss(2), of "fst tr"] by (auto simp: lane_knows_def lane_of_def new_lane_ok)
  ultimately show ?thesis by blast
qed

text \<open>Every watcher of a mailbox or of the Gmail API has its debouncer, every listener its runner.\<close>

definition wired :: "task_plan list \<Rightarrow> bool" where
  "wired plans \<longleftrightarrow>
     (\<forall>source a m st. PlanImap source a m st \<in> set plans \<longrightarrow> (\<exists>d tr. PlanDebounce source d tr \<in> set plans)) \<and>
     (\<forall>source g st k. PlanGmail source g st k \<in> set plans \<longrightarrow> (\<exists>d tr. PlanDebounce source d tr \<in> set plans)) \<and>
     (\<forall>t. PlanResumeListener t \<in> set plans \<longrightarrow> (\<exists>r tr. PlanResumeRunner (rw_watcher t) r tr \<in> set plans))"

definition wires :: "wiring \<Rightarrow> bool" where
  "wires w \<longleftrightarrow> (case w of Inl e \<Rightarrow> True | Inr (ops, plans) \<Rightarrow> wired plans)"

lemma wired_append: "wired xs \<Longrightarrow> wired ys \<Longrightarrow> wired (xs @ ys)"
  unfolding wired_def set_append Un_iff by meson

lemma setup_then_wires: "wires a \<Longrightarrow> wires b \<Longrightarrow> wires (setup_then a b)"
  by (auto simp: wires_def setup_then_def and_then_def wired_append split: sum.splits)

lemma setup_all_wires: "(\<And>w. w \<in> set ws \<Longrightarrow> wires w) \<Longrightarrow> wires (setup_all ws)"
proof (induction ws)
  case Nil
  show ?case by (simp add: wires_def wired_def)
next
  case (Cons w ws)
  then show ?case by (simp add: setup_then_wires)
qed

lemma setup_source_wires: "wires (setup_source c senders src)"
  by (cases src) (auto simp: wires_def wired_def and_then_def startup_event_plan_def split: option.splits sum.splits)

lemma setup_mailbox_wires: "wires (setup_mailbox c senders a m)"
  by (auto simp: setup_mailbox_def wires_def wired_def and_then_def Let_def split: sum.splits)

lemma daemon_setup_wired: "daemon_setup c = Inr (ops, plans) \<Longrightarrow> wired plans"
proof -
  assume "daemon_setup c = Inr (ops, plans)"
  moreover have "wires (setup_lanes by_lane)" for by_lane by (auto simp: wires_def setup_lanes_def wired_def)
  then have "wires (daemon_setup c)" unfolding daemon_setup_def Let_def
    by (intro setup_then_wires setup_all_wires) (auto simp: setup_source_wires setup_mailbox_wires)
  ultimately show "wired plans" by (simp add: wires_def)
qed

text \<open>
  C1. No change is lost between a mailbox or Gmail watcher and its command. For every watcher a
  validated configuration plans, its debouncer and the lane of its trigger are planned too, and in
  every run of watcher, event channel, debouncer and lane together, with other tasks using the same
  lane and whatever order their steps take: as long as neither debouncer nor lane is stopped or
  crashed, either the command was started after the last change the watcher queued, also one its
  full channel turned away, or the change is still on its way, in the channel, with the debouncer
  or as an unstarted request of the lane. What is on its way is never stuck: if the clock of the
  run never went back, and has room for eight times the longest of the debounce and cooldown times
  and the intervals of the lane, then some continuation of the run, whose clock goes on from the
  present time, starts the command within that time. So when everything is at rest, every change
  was followed by a start of its command.
\<close>

theorem changes_reach_their_command:
  assumes "validate c = Inr ()" "daemon_setup c = Inr (ops, plans)"
  shows "(PlanImap source a m st \<in> set plans \<longrightarrow>
      (\<exists>d tr l specs. PlanDebounce source d tr \<in> set plans \<and> PlanLane l specs \<in> set plans \<and> ln_lane l = fst tr \<and>
        (\<forall>base64 ready. let t = \<lparr>mt_account = a, mt_mailbox = m, mt_watcher = source, mt_settings = st, mt_base64 = base64\<rparr> in
           changes_delivered (imap_events t) d (imap_pipeline t d l (ct_command (snd tr))) (imap_pipeline_init ready)
             l (ct_command (snd tr))))) \<and>
    (PlanGmail source g ps k \<in> set plans \<longrightarrow>
      (\<exists>d tr l specs. PlanDebounce source d tr \<in> set plans \<and> PlanLane l specs \<in> set plans \<and> ln_lane l = fst tr \<and>
        (\<forall>json ready. let t = \<lparr>pt_source = g, pt_watcher = source, pt_settings = ps, pt_json = json\<rparr> in
           changes_delivered (gmail_events t) d (gmail_pipeline t d l (ct_command (snd tr))) (gmail_pipeline_init ready)
             l (ct_command (snd tr)))))"
proof -
  have lane: "\<exists>l specs. PlanLane l specs \<in> set plans \<and> ln_lane l = fst tr \<and> lane_knows l (ct_command (snd tr))"
    if "PlanDebounce source d tr \<in> set plans" for d tr
    by (rule planned_lane [OF assms plan_trigger_in(1) [OF that]])
  note wired = daemon_setup_wired [OF assms(2), unfolded wired_def]
  show ?thesis unfolding Let_def using wired lane imap_changes_delivered gmail_changes_delivered by meson
qed

definition demo_watcher :: mailbox_task where
  "demo_watcher = \<lparr>mt_account = demo_account, mt_mailbox = \<lparr>mb_name = ''INBOX'', mb_on_notify = ''true'', mb_debounce_seconds = None\<rparr>,
     mt_watcher = ''a/INBOX'', mt_settings = watcher_settings demo_config, mt_base64 = \<lambda>_. []\<rparr>"

lemma demo_watcher_setup:
  "\<exists>ops plans. daemon_setup demo_config = Inr (ops, plans) \<and>
     PlanImap ''a/INBOX'' (mt_account demo_watcher) (mt_mailbox demo_watcher) (mt_settings demo_watcher) \<in> set plans"
  by (simp add: daemon_setup_def setup_lanes_def setup_then_def setup_mailbox_def find_trigger_def command_senders_def
      commands_by_lane_def lane_push_def runtime_command_specs_def mailbox_spec_def legacy_source_name_def unwrap_or_def
      demo_watcher_def demo_config_def demo_account_def Let_def)

lemma changes_reach_their_command_witness:
  "\<exists>d tr l. ln_lane l = fst tr \<and> (\<exists>ops plans. daemon_setup demo_config = Inr (ops, plans) \<and> PlanDebounce ''a/INBOX'' d tr \<in> set plans) \<and>
    (\<forall>ready. changes_delivered (imap_events demo_watcher) d (imap_pipeline demo_watcher d l (ct_command (snd tr)))
       (imap_pipeline_init ready) l (ct_command (snd tr)))"
proof -
  have v: "validate demo_config = Inr ()" using demo_config_ok by (simp add: validate_iff)
  have t: "\<lparr>mt_account = mt_account demo_watcher, mt_mailbox = mt_mailbox demo_watcher, mt_watcher = ''a/INBOX'',
      mt_settings = mt_settings demo_watcher, mt_base64 = \<lambda>_. []\<rparr> = demo_watcher" by (simp add: demo_watcher_def)
  from demo_watcher_setup obtain ops plans where s: "daemon_setup demo_config = Inr (ops, plans)"
    "PlanImap ''a/INBOX'' (mt_account demo_watcher) (mt_mailbox demo_watcher) (mt_settings demo_watcher) \<in> set plans" by blast
  from changes_reach_their_command [OF v s(1), THEN conjunct1, unfolded Let_def, rule_format, OF s(2)]
  obtain d tr l specs where "PlanDebounce ''a/INBOX'' d tr \<in> set plans" "ln_lane l = fst tr"
    and all: "\<forall>base64 ready. changes_delivered
      (imap_events \<lparr>mt_account = mt_account demo_watcher, mt_mailbox = mt_mailbox demo_watcher, mt_watcher = ''a/INBOX'',
         mt_settings = mt_settings demo_watcher, mt_base64 = base64\<rparr>) d
      (imap_pipeline \<lparr>mt_account = mt_account demo_watcher, mt_mailbox = mt_mailbox demo_watcher, mt_watcher = ''a/INBOX'',
         mt_settings = mt_settings demo_watcher, mt_base64 = base64\<rparr> d l (ct_command (snd tr)))
      (imap_pipeline_init ready) l (ct_command (snd tr))" by blast
  with s(1) spec [OF all, of "\<lambda>_. []", unfolded t] show ?thesis by blast
qed

text \<open>
  C2. No file change is lost between the filesystem source and its command. In every run of a planned
  source's runner and the lane of its command together: as long as both are alive, every event
  that the source took as a change, every failed run of a batch and every submission has been
  followed by a check that found nothing new or by a start of the command, or it is still with the
  source or is an unstarted request of the lane. If the clock of the run never went back, and has room
  for eight times the longest of the source's debounce, maximal and settle times and the intervals
  of the lane, some continuation of the run, whose clock goes on from the present time, then starts
  the command within that time. A failed startup run is not owed a further run: the source drops it.
\<close>

theorem file_changes_reach_their_command:
  assumes "validate c = Inr ()" "daemon_setup c = Inr (ops, plans)" "PlanFs t startup cmd tr \<in> set plans"
  shows "\<exists>l specs. PlanLane l specs \<in> set plans \<and> ln_lane l = fst tr \<and>
    (\<forall>ready. file_changes_delivered (fw_config t) (fs_pipeline (fw_config t) l (ct_command (snd tr)))
       (fs_pipeline_init ready startup) l (ct_command (snd tr)))"
  using planned_lane [OF assms(1,2) plan_trigger_in(2) [OF assms(3)]] fs_changes_delivered by blast

text \<open>A configuration with a filesystem source and a resume source.\<close>

definition busy_config :: config where
  "busy_config = demo_config\<lparr>accounts := [], commands := [demo_command],
     sources := [FsState \<lparr>fs_name = ''f'', fs_watch_paths = [''/''], fs_recursive = None, fs_state_cmd = None, fs_on_change = ''c'',
         fs_run_on_startup = False, fs_debounce_seconds = None, fs_max_debounce_seconds = None\<rparr>,
       SystemResume \<lparr>sr_name = ''r'', sr_on_resume = ''c'', sr_settle_seconds = None\<rparr>]\<rparr>"

lemma busy_config_ok: "validate busy_config = Inr ()"
proof -
  have nb: "\<not> blank (c # s)" if "\<not> ascii_ws c" "of_char c < (128::nat)" for c s
    by (rule not_blank_ascii [OF that])
  have "command_ok demo_command"
    by (simp add: command_ok_def demo_command_def opt_ok_def nb ascii_ws_def)
  moreover have "globals_ok busy_config"
    by (simp add: busy_config_def globals_ok_def demo_config_def source_count_def mailbox_count_def idle_refresh_def
        config_watcher_stale_def DEFAULT_IDLE_REFRESH_SECONDS_def DEFAULT_WATCHER_STALE_SECONDS_def from_secs_def secs_def)
  ultimately have "config_ok busy_config"
    by (simp add: config_ok_def busy_config_def demo_config_def legacy_names_def demo_command_def opt_ok_def nb ascii_ws_def)
  then show ?thesis by (simp add: validate_iff)
qed

lemma busy_setup:
  "\<exists>ops plans t cmd. daemon_setup busy_config = Inr (ops, plans) \<and>
     PlanFs t False cmd (''c'', \<lparr>ct_command = ''c'', ct_source = ''f''\<rparr>) \<in> set plans \<and>
     PlanResumeListener \<lparr>rw_watcher = ''r'', rw_broadcaster = True\<rparr> \<in> set plans"
  by (simp add: daemon_setup_def setup_lanes_def setup_then_def find_trigger_def command_senders_def commands_by_lane_def
      lane_push_def runtime_command_specs_def command_config_spec_def lane_name_def unwrap_or_def busy_config_def demo_config_def
      demo_command_def Let_def)

lemma file_changes_reach_their_command_witness:
  "\<exists>l (t :: fs_watch_task). ln_lane l = ''c'' \<and>
    (\<forall>ready. file_changes_delivered (fw_config t) (fs_pipeline (fw_config t) l ''c'') (fs_pipeline_init ready False) l ''c'')"
proof -
  from busy_setup obtain ops plans t cmd where "daemon_setup busy_config = Inr (ops, plans)"
    "PlanFs t False cmd (''c'', \<lparr>ct_command = ''c'', ct_source = ''f''\<rparr>) \<in> set plans" by blast
  from file_changes_reach_their_command [OF busy_config_ok this] show ?thesis
    unfolding fst_conv snd_conv command_trigger.simps by blast
qed

text \<open>
  C3. No resume is lost between the listener and its command, in the sense of C1: in every run of a
  planned listener with its event channel, runner and lane together, as long as neither runner nor
  lane is stopped or crashed, a resume the listener queued has been followed by a start of the
  command or is still on its way. It then can arrive within eight times the longest of the settle
  time and the intervals of the lane, on a clock that goes on from the present time and has that
  much room; with a settle time near the clock's limit the runner panics instead. This holds also
  when the listener has ended and its channel is closed.
\<close>

theorem resumes_reach_their_command:
  assumes "validate c = Inr ()" "daemon_setup c = Inr (ops, plans)" "PlanResumeListener t \<in> set plans"
  shows "\<exists>r tr l specs. PlanResumeRunner (rw_watcher t) r tr \<in> set plans \<and> PlanLane l specs \<in> set plans \<and> ln_lane l = fst tr \<and>
    (\<forall>ready. resumes_delivered (listener_events t) r (listener_pipeline t r l (ct_command (snd tr)))
       (listener_pipeline_init ready) l (ct_command (snd tr)))"
proof -
  from daemon_setup_wired [OF assms(2)] assms(3) obtain r tr where "PlanResumeRunner (rw_watcher t) r tr \<in> set plans"
    unfolding wired_def by blast
  with planned_lane [OF assms(1,2) plan_trigger_in(3) [OF this]] listener_resumes_delivered show ?thesis by meson
qed

lemma resumes_reach_their_command_witness:
  "\<exists>r tr l. ln_lane l = fst tr \<and> (\<exists>ops plans. daemon_setup busy_config = Inr (ops, plans) \<and> PlanResumeRunner ''r'' r tr \<in> set plans) \<and>
    (\<forall>ready. resumes_delivered (listener_events \<lparr>rw_watcher = ''r'', rw_broadcaster = True\<rparr>) r
       (listener_pipeline \<lparr>rw_watcher = ''r'', rw_broadcaster = True\<rparr> r l (ct_command (snd tr)))
       (listener_pipeline_init ready) l (ct_command (snd tr)))"
proof -
  from busy_setup obtain ops plans where s: "daemon_setup busy_config = Inr (ops, plans)"
    "PlanResumeListener \<lparr>rw_watcher = ''r'', rw_broadcaster = True\<rparr> \<in> set plans" by blast
  from resumes_reach_their_command [OF busy_config_ok s] s(1) show ?thesis
    unfolding resume_watch_task.simps by blast
qed

end
